(* ===== verification/Prelude.thy ===== *)
theory Prelude
  imports Main "HOL-Library.AList" "HOL-Library.Char_ord" "HOL-Library.List_Lexorder"
    "HOL-Library.Word" "HOL-Library.Multiset"
begin

section \<open>Shared vocabulary of the development\<close>

text \<open>
  What every component theory builds on: the Go types that recur in the program (strings as byte
  lists, \<^verbatim>\<open>map[string]T\<close> as association lists with distinct keys, \<^verbatim>\<open>sync.Cond\<close> as a pair of
  wait queues), the order in which \<^verbatim>\<open>range\<close> visits a map, and the lemmas about them that the
  component proofs use. Go's \<^verbatim>\<open><\<close> on strings is the lexicographic order on bytes, which is the
  \<^typ>\<open>string\<close> order of \<open>Char_ord\<close> and \<open>List_Lexorder\<close>; \<^verbatim>\<open>sort.Strings\<close> is \<^const>\<open>sort\<close> at that order.
\<close>

named_theorems go_map \<open>reasoning about Go maps\<close>
named_theorems go_err \<open>reasoning about error returns\<close>

subsection \<open>Go maps\<close>

type_synonym 'v gomap = "(string \<times> 'v) list"

abbreviation gomap_wf :: "'v gomap \<Rightarrow> bool" where
  "gomap_wf m \<equiv> distinct (map fst m)"

abbreviation gget :: "'v gomap \<Rightarrow> string \<Rightarrow> 'v option" where
  "gget m k \<equiv> map_of m k"

abbreviation gset :: "string \<Rightarrow> 'v \<Rightarrow> 'v gomap \<Rightarrow> 'v gomap" where
  "gset \<equiv> AList.update"

abbreviation gdel :: "string \<Rightarrow> 'v gomap \<Rightarrow> 'v gomap" where
  "gdel \<equiv> AList.delete"

abbreviation gkeys :: "'v gomap \<Rightarrow> string list" where
  "gkeys m \<equiv> map fst m"

text \<open>Reading an absent key gives the zero value of the element type.\<close>

definition gget0 :: "'v \<Rightarrow> 'v gomap \<Rightarrow> string \<Rightarrow> 'v" where
  "gget0 z m k = (case gget m k of None \<Rightarrow> z | Some v \<Rightarrow> v)"

lemma gget0_simps [simp]:
  "gget m k = None \<Longrightarrow> gget0 z m k = z"
  "gget m k = Some v \<Longrightarrow> gget0 z m k = v"
  by (simp_all add: gget0_def)

declare update_conv' [go_map] delete_conv' [go_map] distinct_update [go_map]

lemma gdel_wf [go_map]: "gomap_wf m \<Longrightarrow> gomap_wf (gdel k m)"
  by (simp add: distinct_delete)

lemma gget_set [go_map, simp]: "gget (gset k v m) k' = (if k = k' then Some v else gget m k')"
  by (simp add: update_conv')

lemma gget_del [go_map, simp]: "gget (gdel k m) k' = (if k = k' then None else gget m k')"
  by (simp add: delete_conv')

lemma gkeys_iff: "k \<in> set (gkeys m) \<longleftrightarrow> gget m k \<noteq> None"
  by (metis map_of_eq_None_iff list.set_map)

lemma gkeys_dom: "set (gkeys m) = {k. gget m k \<noteq> None}"
  by (rule set_eqI) (simp only: gkeys_iff mem_Collect_eq)

lemma gomap_nonempty: "m \<noteq> [] \<longleftrightarrow> (\<exists>k v. gget m k = Some v)"
  by (cases m) auto

lemma gomap_pos: "0 < length m \<longleftrightarrow> (\<exists>k v. gget m k = Some v)"
  using gomap_nonempty by auto

subsection \<open>The order of a range loop over a map\<close>

text \<open>
  The Go specification leaves the order of \<^verbatim>\<open>for k := range m\<close> open. Every such loop of the model
  visits \<open>ord n (gkeys m)\<close>, where \<open>n\<close> numbers the loop and \<open>ord\<close> is a parameter of which only this
  is assumed: it lists the same keys, each once.
\<close>

definition range_order :: "(nat \<Rightarrow> string list \<Rightarrow> string list) \<Rightarrow> bool" where
  "range_order ord \<longleftrightarrow> (\<forall>n ks. mset (ord n ks) = mset ks)"

lemma range_order_set: "range_order ord \<Longrightarrow> set (ord n ks) = set ks"
  by (metis range_order_def set_mset_mset)

lemma range_order_distinct: "range_order ord \<Longrightarrow> distinct (ord n ks) = distinct ks"
  by (metis range_order_def mset_eq_imp_distinct_iff)

lemma range_order_id: "range_order (\<lambda>_ ks. ks)"
  by (simp add: range_order_def)

lemma range_order_rev: "range_order (\<lambda>_. rev)"
  by (simp add: range_order_def)

text \<open>A loop that leaves after its first key, as \<^verbatim>\<open>for k = range m { ...; break }\<close> does, visits an
  arbitrary key: the \<open>n\<close>-th one, for some \<open>n\<close>.\<close>

definition pick :: "nat \<Rightarrow> string list \<Rightarrow> string" where
  "pick n ks = ks ! (n mod length ks)"

lemma pick_in: "ks \<noteq> [] \<Longrightarrow> pick n ks \<in> set ks"
  by (simp add: pick_def)

lemma pick_any: "k \<in> set ks \<Longrightarrow> \<exists>n. pick n ks = k"
  by (metis pick_def in_set_conv_nth mod_less)

subsection \<open>Condition variables\<close>

text \<open>
  \<^verbatim>\<open>sync.Cond\<close>: goroutines asleep in \<^verbatim>\<open>Wait\<close>, oldest first, and goroutines that were notified
  but have not yet taken the mutex again. \<^verbatim>\<open>Signal\<close> notifies one sleeper if there is one,
  \<^verbatim>\<open>Broadcast\<close> all of them.
\<close>

type_synonym tid = nat

record cond =
  waiting :: "tid list"
  woken :: "tid list"

definition new_cond :: cond where
  "new_cond = \<lparr>waiting = [], woken = []\<rparr>"

definition cond_wait :: "tid \<Rightarrow> cond \<Rightarrow> cond" where
  "cond_wait t c = c\<lparr>waiting := waiting c @ [t]\<rparr>"

definition cond_signal :: "cond \<Rightarrow> cond" where
  "cond_signal c = (case waiting c of [] \<Rightarrow> c
     | t # ts \<Rightarrow> c\<lparr>waiting := ts, woken := woken c @ [t]\<rparr>)"

definition cond_broadcast :: "cond \<Rightarrow> cond" where
  "cond_broadcast c = c\<lparr>waiting := [], woken := woken c @ waiting c\<rparr>"

definition cond_resume :: "tid \<Rightarrow> cond \<Rightarrow> cond" where
  "cond_resume t c = c\<lparr>woken := remove1 t (woken c)\<rparr>"

lemmas cond_defs = new_cond_def cond_wait_def cond_signal_def cond_broadcast_def cond_resume_def

definition cond_threads :: "cond \<Rightarrow> tid multiset" where
  "cond_threads c = mset (waiting c) + mset (woken c)"

lemma cond_threads_simps [simp]:
  "cond_threads new_cond = {#}"
  "cond_threads (cond_wait t c) = add_mset t (cond_threads c)"
  "cond_threads (cond_signal c) = cond_threads c"
  "cond_threads (cond_broadcast c) = cond_threads c"
  by (auto simp: cond_threads_def cond_defs split: list.splits)

lemma cond_threads_resume [simp]:
  "t \<in> set (woken c) \<Longrightarrow> cond_threads (cond_resume t c) = cond_threads c - {#t#}"
  by (simp add: cond_threads_def cond_defs)

text \<open>A signal is lost on nobody: it leaves no sleeper, or one goroutine more is awake.\<close>

lemma cond_signal_progress:
  "waiting (cond_signal c) = [] \<or> length (woken (cond_signal c)) = Suc (length (woken c))"
  by (auto simp: cond_signal_def split: list.splits)

subsection \<open>Lists and options\<close>

lemma filter_eq_self: "(\<And>x. x \<in> set xs \<Longrightarrow> P x) \<Longrightarrow> filter P xs = xs"
  by (induction xs) auto

lemma sum_case_Inr_iff [go_err]:
  "(case x of Inl e \<Rightarrow> Inl e | Inr y \<Rightarrow> f y) = Inr z \<longleftrightarrow> (\<exists>y. x = Inr y \<and> f y = Inr z)"
  by (cases x) auto

lemma sum_case_Inl_iff [go_err]:
  "(case x of Inl e \<Rightarrow> Inl e | Inr y \<Rightarrow> f y) = Inl e' \<longleftrightarrow>
     x = Inl e' \<or> (\<exists>y. x = Inr y \<and> f y = Inl e')"
  by (cases x) auto

subsection \<open>Goroutines that hold resources\<close>

text \<open>\<open>holders_ok hold B\<close>: the resources in \<open>B\<close> are exactly those some goroutine holds, and none is
  held twice.\<close>

definition holders_ok :: "(tid \<Rightarrow> 'a option) \<Rightarrow> 'a set \<Rightarrow> bool" where
  "holders_ok hold B \<longleftrightarrow> ran hold = B \<and> inj_on hold (dom hold)"

lemma holders_ok_empty: "holders_ok (\<lambda>_. None) {}"
  by (simp add: holders_ok_def)

lemma holders_ok_unique: "holders_ok hold B \<Longrightarrow> hold t = Some r \<Longrightarrow> hold u = Some r \<Longrightarrow> t = u"
  unfolding holders_ok_def inj_on_def dom_def by auto

lemma holders_ok_mem: "holders_ok hold B \<Longrightarrow> hold t = Some r \<Longrightarrow> r \<in> B"
  by (auto simp: holders_ok_def intro: ranI)

lemma holders_ok_take:
  assumes "holders_ok hold B" "hold t = None" "r \<notin> B"
  shows "holders_ok (hold(t \<mapsto> r)) (insert r B)"
proof -
  have "hold u \<noteq> Some r" for u using holders_ok_mem [OF assms(1)] assms(3) by blast
  then have "inj_on (hold(t \<mapsto> r)) (dom (hold(t \<mapsto> r)))"
    using assms(1,2) unfolding holders_ok_def inj_on_def
    by (auto simp: dom_def)
  then show ?thesis using assms(1,2) by (simp add: holders_ok_def)
qed

lemma holders_ok_release:
  assumes "holders_ok hold B" "hold t = Some r"
  shows "holders_ok (hold(t := None)) (B - {r})"
proof -
  have u: "hold u = Some r \<longleftrightarrow> u = t" for u
    using holders_ok_unique [OF assms(1) _ assms(2), of u] assms(2) by auto
  have "ran (hold(t := None)) = ran hold - {r}"
  proof (rule set_eqI)
    fix x
    have "x \<in> ran (hold(t := None)) \<longleftrightarrow> (\<exists>a. a \<noteq> t \<and> hold a = Some x)"
      by (auto simp: ran_def)
    also have "\<dots> \<longleftrightarrow> (\<exists>a. hold a = Some x) \<and> x \<noteq> r"
      using u assms(2) by (metis option.inject)
    finally show "x \<in> ran (hold(t := None)) \<longleftrightarrow> x \<in> ran hold - {r}" by (simp add: ran_def)
  qed
  moreover have "inj_on (hold(t := None)) (dom (hold(t := None)))"
    using assms(1) by (auto simp: holders_ok_def inj_on_def dom_def)
  ultimately show ?thesis using assms(1) by (simp add: holders_ok_def)
qed

lemma holders_ok_same: "holders_ok hold B \<Longrightarrow> hold' = hold \<Longrightarrow> holders_ok hold' B"
  by simp

end
