(* ===== verification/WorkQueue.thy ===== *)
theory WorkQueue
  imports Prelude
begin

section \<open>The interface between the dispatcher and its workers\<close>

text \<open>
  What a pool of workers may rely on when it takes jobs from a queue and releases them: the laws of
  \<^verbatim>\<open>Add\<close>, \<^verbatim>\<open>Take\<close> and \<^verbatim>\<open>Release\<close> as a locale over an abstract view of the queue (the wanted jobs, the
  busy ones, the lock). The lemmas of the locale are those of any worker pool built on such a queue;
  \<open>RepoDispatcher\<close> interprets it on the program's dispatcher and \<open>Dispatch\<close> uses the result for the
  fetcher's pool.
\<close>

locale work_queue =
  fixes inv :: "'q \<Rightarrow> bool"
    and wanted :: "'q \<Rightarrow> string \<Rightarrow> 'p option"
    and busy :: "'q \<Rightarrow> string set"
    and is_locked :: "'q \<Rightarrow> bool"
    and add :: "string \<Rightarrow> bool \<Rightarrow> 'q \<Rightarrow> 'q"
    and take :: "tid \<Rightarrow> nat \<Rightarrow> 'q \<Rightarrow> string option \<times> 'q"
    and release :: "string \<Rightarrow> 'q \<Rightarrow> 'e + 'q"
  assumes add_inv: "inv q \<Longrightarrow> inv (add r low q)"
    and add_busy: "inv q \<Longrightarrow> busy (add r low q) = busy q"
    and add_wanted: "inv q \<Longrightarrow> wanted (add r low q) x \<noteq> None \<longleftrightarrow> x = r \<or> wanted q x \<noteq> None"
    and take_inv: "inv q \<Longrightarrow> take t n q = (res, q') \<Longrightarrow> inv q'"
    and take_lock: "inv q \<Longrightarrow> take t n q = (res, q') \<Longrightarrow> is_locked q' = is_locked q"
    and take_sleep: "inv q \<Longrightarrow> take t n q = (None, q') \<Longrightarrow> busy q' = busy q \<and> wanted q' = wanted q"
    and take_got: "inv q \<Longrightarrow> take t n q = (Some r, q') \<Longrightarrow>
      \<not> is_locked q \<and> r \<notin> busy q \<and> wanted q r \<noteq> None \<and>
      busy q' = insert r (busy q) \<and> wanted q' = (wanted q)(r := None)"
    and release_inv: "inv q \<Longrightarrow> release r q = Inr q' \<Longrightarrow> inv q'"
    and release_total: "inv q \<Longrightarrow> r \<in> busy q \<Longrightarrow> \<exists>q'. release r q = Inr q'"
    and release_effect: "inv q \<Longrightarrow> release r q = Inr q' \<Longrightarrow>
      busy q' = busy q - {r} \<and> wanted q' = wanted q"
begin

text \<open>The pool agrees with the queue about who holds what, and no job is held twice.\<close>

definition pool_ok :: "(tid \<Rightarrow> string option) \<Rightarrow> 'q \<Rightarrow> bool" where
  "pool_ok hold q \<longleftrightarrow> inv q \<and> holders_ok hold (busy q)"

lemma pool_add: "pool_ok hold q \<Longrightarrow> pool_ok hold (add r low q)"
  by (simp add: pool_ok_def add_inv add_busy)

lemma pool_sleep: "pool_ok hold q \<Longrightarrow> take t n q = (None, q') \<Longrightarrow> pool_ok hold q'"
  by (auto simp: pool_ok_def take_inv dest: take_sleep)

lemma pool_take:
  assumes "pool_ok hold q" "hold t = None" "take t n q = (Some r, q')"
  shows "pool_ok (hold(t \<mapsto> r)) q'"
  using assms(1) holders_ok_take [of hold "busy q" t r] take_got [OF _ assms(3)] take_inv [OF _ assms(3)] assms(2)
  by (auto simp: pool_ok_def)

lemma pool_release:
  assumes "pool_ok hold q" "hold t = Some r" "release r q = Inr q'"
  shows "pool_ok (hold(t := None)) q'"
  using assms(1) holders_ok_release [of hold "busy q" t r] assms(2) release_effect [OF _ assms(3)]
    release_inv [OF _ assms(3)]
  by (auto simp: pool_ok_def)

lemma pool_release_total: "pool_ok hold q \<Longrightarrow> hold t = Some r \<Longrightarrow> \<exists>q'. release r q = Inr q'"
  using release_total [of q r] holders_ok_mem [of hold "busy q" t r] by (auto simp: pool_ok_def)

lemma pool_exclusive: "pool_ok hold q \<Longrightarrow> hold t = Some r \<Longrightarrow> hold u = Some r \<Longrightarrow> t = u"
  using holders_ok_unique [of hold "busy q" t r u] by (auto simp: pool_ok_def)

lemma pool_idle: "pool_ok hold q \<Longrightarrow> busy q = {} \<Longrightarrow> hold t = None"
  using holders_ok_mem [of hold "busy q" t] by (cases "hold t") (auto simp: pool_ok_def)

text \<open>A wanted job stays wanted until somebody holds it.\<close>

lemma wanted_kept:
  "inv q \<Longrightarrow> wanted q x \<noteq> None \<Longrightarrow> take t n q = (res, q') \<Longrightarrow> wanted q' x \<noteq> None \<or> res = Some x"
  by (cases res) (auto dest: take_sleep take_got)

end

end
