(* ===== verification/RepoDispatcher.thy ===== *)
theory RepoDispatcher
  imports WorkQueue
begin

section \<open>The repository dispatcher (util/repodispatcher.go)\<close>

text \<open>
  The queue of repositories that wait to be fetched. \<^verbatim>\<open>repoInfo\<close> objects are shared between the
  three maps of the dispatcher, so they live in an explicit store \<open>heap\<close>, indexed by addresses, and
  the maps hold addresses. The mutex makes every method one atomic step, except where it sleeps on
  a condition variable; a method that may sleep is modelled by one pass of its loop.
\<close>

subsection \<open>State\<close>

record repoInfo =
  lowPriority :: bool
  highPriority :: bool
  pending :: bool

definition zeroRepoInfo :: repoInfo where
  "zeroRepoInfo = \<lparr>lowPriority = False, highPriority = False, pending = False\<rparr>"

record repoDispatcher =
  repos :: "nat gomap"
  lowPriorityRepos :: "nat gomap"
  highPriorityRepos :: "nat gomap"
  pendingCount :: int
  readyCond :: cond
  pendingCond :: cond
  locked :: bool
  heap :: "nat \<Rightarrow> repoInfo"
  fresh :: nat

datatype rd_panic = NilDereference | ReleaseNotPending

definition NewRepoDispatcher :: repoDispatcher where
  "NewRepoDispatcher =
     \<lparr>repos = [], lowPriorityRepos = [], highPriorityRepos = [], pendingCount = 0,
      readyCond = new_cond, pendingCond = new_cond, locked = False,
      heap = (\<lambda>_. zeroRepoInfo), fresh = 0\<rparr>"

subsection \<open>Operations\<close>

definition addToReady :: "string \<Rightarrow> nat \<Rightarrow> repoDispatcher \<Rightarrow> repoDispatcher" where
  "addToReady repo info rd =
     (if lowPriority (heap rd info)
      then rd\<lparr>lowPriorityRepos := gset repo info (lowPriorityRepos rd)\<rparr>
      else if highPriority (heap rd info)
      then rd\<lparr>lowPriorityRepos := gdel repo (lowPriorityRepos rd),
              highPriorityRepos := gset repo info (highPriorityRepos rd)\<rparr>
      else rd)"

definition someReady :: "repoDispatcher \<Rightarrow> bool" where
  "someReady rd \<longleftrightarrow> \<not> locked rd \<and>
     (0 < length (highPriorityRepos rd) \<or> 0 < length (lowPriorityRepos rd))"

text \<open>\<^verbatim>\<open>Lock\<close> sets the flag once and then loops: \<open>Lock_enter\<close> is the call, \<open>Lock_loop\<close> one test of
  the loop by a goroutine that was notified. The boolean says whether the call returned.\<close>

definition Lock_loop :: "tid \<Rightarrow> repoDispatcher \<Rightarrow> bool \<times> repoDispatcher" where
  "Lock_loop t rd =
     (if 0 < pendingCount rd
      then (False, rd\<lparr>pendingCond := cond_wait t (pendingCond rd)\<rparr>)
      else (True, rd))"

definition Lock_enter :: "tid \<Rightarrow> repoDispatcher \<Rightarrow> bool \<times> repoDispatcher" where
  "Lock_enter t rd = Lock_loop t (rd\<lparr>locked := True\<rparr>)"

definition Lock_resume :: "tid \<Rightarrow> repoDispatcher \<Rightarrow> bool \<times> repoDispatcher" where
  "Lock_resume t rd = Lock_loop t (rd\<lparr>pendingCond := cond_resume t (pendingCond rd)\<rparr>)"

definition Unlock :: "repoDispatcher \<Rightarrow> repoDispatcher" where
  "Unlock rd =
     (let rd = rd\<lparr>locked := False\<rparr>
      in if someReady rd then rd\<lparr>readyCond := cond_broadcast (readyCond rd)\<rparr> else rd)"

text \<open>\<^verbatim>\<open>rd.repos[repo]\<close>, created when it is absent.\<close>

definition getInfo :: "string \<Rightarrow> repoDispatcher \<Rightarrow> nat \<times> repoDispatcher" where
  "getInfo repo rd =
     (case gget (repos rd) repo of
        Some info \<Rightarrow> (info, rd)
      | None \<Rightarrow> (fresh rd,
          rd\<lparr>heap := (heap rd)(fresh rd := zeroRepoInfo), fresh := Suc (fresh rd),
             repos := gset repo (fresh rd) (repos rd)\<rparr>))"

definition setPriority :: "bool \<Rightarrow> repoInfo \<Rightarrow> repoInfo" where
  "setPriority low i =
     (if low then (if \<not> highPriority i then i\<lparr>lowPriority := True\<rparr> else i)
      else i\<lparr>lowPriority := False, highPriority := True\<rparr>)"

definition Add :: "string \<Rightarrow> bool \<Rightarrow> repoDispatcher \<Rightarrow> repoDispatcher" where
  "Add repo low rd0 =
     (let (info, rd) = getInfo repo rd0;
          added = (\<not> (highPriority (heap rd info) \<or> lowPriority (heap rd info)));
          rd = rd\<lparr>heap := (heap rd)(info := setPriority low (heap rd info))\<rparr>
      in if \<not> pending (heap rd info)
         then (let rd = addToReady repo info rd
               in if added \<and> \<not> locked rd
                  then rd\<lparr>readyCond := cond_signal (readyCond rd)\<rparr> else rd)
         else rd)"

text \<open>The part of \<^verbatim>\<open>Take\<close> after its loop. The \<open>n\<close> is the runtime's choice of a key.\<close>

definition takeReady :: "nat \<Rightarrow> repoDispatcher \<Rightarrow> string \<times> repoDispatcher" where
  "takeReady n rd =
     (let high = 0 < length (highPriorityRepos rd);
          ready = (if high then highPriorityRepos rd else lowPriorityRepos rd);
          repo = pick n (gkeys ready);
          info = gget0 0 ready repo;
          rd = (if high then rd\<lparr>highPriorityRepos := gdel repo (highPriorityRepos rd)\<rparr>
                else rd\<lparr>lowPriorityRepos := gdel repo (lowPriorityRepos rd)\<rparr>);
          i = (heap rd info)\<lparr>pending := True, lowPriority := False, highPriority := False\<rparr>
      in (repo, rd\<lparr>pendingCount := pendingCount rd + 1, heap := (heap rd)(info := i)\<rparr>))"

text \<open>One pass of \<^verbatim>\<open>Take\<close>'s loop: \<^const>\<open>None\<close> when the goroutine sleeps (again).\<close>

definition Take_loop :: "tid \<Rightarrow> nat \<Rightarrow> repoDispatcher \<Rightarrow> string option \<times> repoDispatcher" where
  "Take_loop t n rd =
     (if \<not> someReady rd then (None, rd\<lparr>readyCond := cond_wait t (readyCond rd)\<rparr>)
      else (let (repo, rd) = takeReady n rd in (Some repo, rd)))"

definition Take_resume :: "tid \<Rightarrow> nat \<Rightarrow> repoDispatcher \<Rightarrow> string option \<times> repoDispatcher" where
  "Take_resume t n rd = Take_loop t n (rd\<lparr>readyCond := cond_resume t (readyCond rd)\<rparr>)"

definition Release :: "string \<Rightarrow> repoDispatcher \<Rightarrow> rd_panic + repoDispatcher" where
  "Release repo rd =
     (case gget (repos rd) repo of
        None \<Rightarrow> Inl NilDereference
      | Some info \<Rightarrow>
          if \<not> pending (heap rd info) then Inl ReleaseNotPending
          else
            (let rd = rd\<lparr>heap := (heap rd)(info := (heap rd info)\<lparr>pending := False\<rparr>),
                         pendingCount := pendingCount rd - 1,
                         pendingCond := cond_signal (pendingCond rd)\<rparr>
             in Inr (if lowPriority (heap rd info) \<or> highPriority (heap rd info)
                     then (let rd = addToReady repo info rd
                           in if \<not> locked rd
                              then rd\<lparr>readyCond := cond_signal (readyCond rd)\<rparr> else rd)
                     else rd\<lparr>repos := gdel repo (repos rd)\<rparr>)))"


subsection \<open>Abstract view\<close>

text \<open>
  What the dispatcher promises, without its maps: which repositories are wanted and how urgently,
  and which of them a worker is busy with. A repository can be both: it was requested again while a
  worker fetches it.
\<close>

datatype priority = Low | High

definition prio :: "repoInfo \<Rightarrow> priority option" where
  "prio i = (if highPriority i then Some High else if lowPriority i then Some Low else None)"

definition info_of :: "repoDispatcher \<Rightarrow> string \<Rightarrow> repoInfo" where
  "info_of rd r = (case gget (repos rd) r of None \<Rightarrow> zeroRepoInfo | Some a \<Rightarrow> heap rd a)"

definition wanted :: "repoDispatcher \<Rightarrow> string \<Rightarrow> priority option" where
  "wanted rd r = prio (info_of rd r)"

definition busy :: "repoDispatcher \<Rightarrow> string set" where
  "busy rd = {r. pending (info_of rd r)}"

definition ready :: "repoDispatcher \<Rightarrow> string set" where
  "ready rd = {r. wanted rd r \<noteq> None \<and> r \<notin> busy rd}"

definition bump :: "bool \<Rightarrow> priority option \<Rightarrow> priority" where
  "bump low p = (if low then (if p = Some High then High else Low) else High)"

text \<open>
  The well-formedness invariant: the maps hold live, unshared addresses; an entry of \<^verbatim>\<open>repos\<close> is
  there for a reason; the two ready maps hold exactly the wanted repositories no worker is busy with,
  split by priority; the counter counts the busy ones.
\<close>

definition rd_inv :: "repoDispatcher \<Rightarrow> bool" where
  "rd_inv rd \<longleftrightarrow>
     gomap_wf (repos rd) \<and> gomap_wf (lowPriorityRepos rd) \<and> gomap_wf (highPriorityRepos rd) \<and>
     (\<forall>r a. gget (repos rd) r = Some a \<longrightarrow> a < fresh rd) \<and>
     (\<forall>r r' a. gget (repos rd) r = Some a \<longrightarrow> gget (repos rd) r' = Some a \<longrightarrow> r = r') \<and>
     (\<forall>r a. gget (repos rd) r = Some a \<longrightarrow>
        \<not> (lowPriority (heap rd a) \<and> highPriority (heap rd a)) \<and>
        (lowPriority (heap rd a) \<or> highPriority (heap rd a) \<or> pending (heap rd a))) \<and>
     (\<forall>r a. gget (lowPriorityRepos rd) r = Some a \<longleftrightarrow>
        gget (repos rd) r = Some a \<and> lowPriority (heap rd a) \<and> \<not> pending (heap rd a)) \<and>
     (\<forall>r a. gget (highPriorityRepos rd) r = Some a \<longleftrightarrow>
        gget (repos rd) r = Some a \<and> highPriority (heap rd a) \<and> \<not> pending (heap rd a)) \<and>
     pendingCount rd = int (card (busy rd))"

lemma rd_invD:
  assumes "rd_inv rd"
  shows "gomap_wf (repos rd)" "gomap_wf (lowPriorityRepos rd)" "gomap_wf (highPriorityRepos rd)"
    and "\<And>r a. gget (repos rd) r = Some a \<Longrightarrow> a < fresh rd"
    and "\<And>r r' a. gget (repos rd) r = Some a \<Longrightarrow> gget (repos rd) r' = Some a \<Longrightarrow> r = r'"
    and "\<And>r a. gget (repos rd) r = Some a \<Longrightarrow>
        \<not> (lowPriority (heap rd a) \<and> highPriority (heap rd a)) \<and>
        (lowPriority (heap rd a) \<or> highPriority (heap rd a) \<or> pending (heap rd a))"
    and "\<And>r a. gget (lowPriorityRepos rd) r = Some a \<longleftrightarrow>
        gget (repos rd) r = Some a \<and> lowPriority (heap rd a) \<and> \<not> pending (heap rd a)"
    and "\<And>r a. gget (highPriorityRepos rd) r = Some a \<longleftrightarrow>
        gget (repos rd) r = Some a \<and> highPriority (heap rd a) \<and> \<not> pending (heap rd a)"
    and "pendingCount rd = int (card (busy rd))"
  using assms unfolding rd_inv_def by (blast, blast, blast, blast, blast, blast, blast, blast, blast)

lemma zero_info [simp]: "lowPriority zeroRepoInfo = False" "highPriority zeroRepoInfo = False"
  "pending zeroRepoInfo = False"
  by (simp_all add: zeroRepoInfo_def)

lemma info_of_simps [simp]:
  "gget (repos rd) r = None \<Longrightarrow> info_of rd r = zeroRepoInfo"
  "gget (repos rd) r = Some a \<Longrightarrow> info_of rd r = heap rd a"
  by (simp_all add: info_of_def)

lemma busy_known: "busy rd \<subseteq> set (gkeys (repos rd))"
proof
  fix r assume "r \<in> busy rd"
  then have "gget (repos rd) r \<noteq> None" by (cases "gget (repos rd) r") (auto simp: busy_def)
  then show "r \<in> set (gkeys (repos rd))" unfolding gkeys_iff .
qed

lemma wanted_known: "{r. wanted rd r \<noteq> None} \<subseteq> set (gkeys (repos rd))"
proof
  fix r assume "r \<in> {r. wanted rd r \<noteq> None}"
  then have "gget (repos rd) r \<noteq> None" by (cases "gget (repos rd) r") (auto simp: wanted_def prio_def)
  then show "r \<in> set (gkeys (repos rd))" unfolding gkeys_iff .
qed

lemma finite_busy [simp]: "finite (busy rd)"
  by (rule finite_subset [OF busy_known]) simp

lemma finite_ready [simp]: "finite (ready rd)"
  by (rule finite_subset [OF _ finite_subset [OF wanted_known]]) (auto simp: ready_def)

lemma ready_cases: "r \<in> ready rd \<Longrightarrow> wanted rd r = Some High \<or> wanted rd r = Some Low"
  by (auto simp: ready_def wanted_def prio_def split: if_splits)

text \<open>The two ready maps, seen from outside.\<close>

lemma high_ready:
  assumes "rd_inv rd"
  shows "set (gkeys (highPriorityRepos rd)) = {r \<in> ready rd. wanted rd r = Some High}"
proof (rule set_eqI)
  fix r
  show "r \<in> set (gkeys (highPriorityRepos rd)) \<longleftrightarrow> r \<in> {r \<in> ready rd. wanted rd r = Some High}"
    unfolding gkeys_iff
    by (cases "gget (repos rd) r")
      (auto simp: rd_invD(8) [OF assms] ready_def busy_def wanted_def prio_def)
qed

lemma low_ready:
  assumes "rd_inv rd"
  shows "set (gkeys (lowPriorityRepos rd)) = {r \<in> ready rd. wanted rd r = Some Low}"
proof (rule set_eqI)
  fix r
  show "r \<in> set (gkeys (lowPriorityRepos rd)) \<longleftrightarrow> r \<in> {r \<in> ready rd. wanted rd r = Some Low}"
    unfolding gkeys_iff
    using rd_invD(6) [OF assms, of r]
    by (cases "gget (repos rd) r")
      (auto simp: rd_invD(7) [OF assms] ready_def busy_def wanted_def prio_def)
qed

lemma someReady_iff:
  assumes "rd_inv rd"
  shows "someReady rd \<longleftrightarrow> \<not> locked rd \<and> ready rd \<noteq> {}"
proof -
  have "ready rd = set (gkeys (highPriorityRepos rd)) \<union> set (gkeys (lowPriorityRepos rd))"
    unfolding high_ready [OF assms] low_ready [OF assms]
    using ready_cases by auto
  then show ?thesis by (auto simp: someReady_def)
qed


subsection \<open>What each operation does to the state\<close>

definition addr :: "repoDispatcher \<Rightarrow> string \<Rightarrow> nat" where
  "addr rd r = (case gget (repos rd) r of None \<Rightarrow> fresh rd | Some a \<Rightarrow> a)"

lemma setPriority_simps [simp]:
  "pending (setPriority low i) = pending i"
  "prio (setPriority low i) = Some (bump low (prio i))"
  by (auto simp: setPriority_def prio_def bump_def)

lemma setPriority_flags:
  assumes "\<not> (lowPriority i \<and> highPriority i)"
  shows "\<not> (lowPriority (setPriority low i) \<and> highPriority (setPriority low i))"
    and "lowPriority (setPriority low i) \<or> highPriority (setPriority low i)"
  using assms by (auto simp: setPriority_def)

lemma Add_fields:
  fixes r low rd
  defines "rd' \<equiv> Add r low rd"
  defines "a \<equiv> addr rd r" and "i \<equiv> setPriority low (info_of rd r)"
  shows "repos rd' = (if gget (repos rd) r = None then gset r a (repos rd) else repos rd)"
    and "heap rd' = (heap rd)(a := i)"
    and "fresh rd' = (if gget (repos rd) r = None then Suc (fresh rd) else fresh rd)"
    and "lowPriorityRepos rd' = (if pending i then lowPriorityRepos rd
           else if lowPriority i then gset r a (lowPriorityRepos rd)
           else if highPriority i then gdel r (lowPriorityRepos rd) else lowPriorityRepos rd)"
    and "highPriorityRepos rd' = (if pending i \<or> lowPriority i \<or> \<not> highPriority i
           then highPriorityRepos rd else gset r a (highPriorityRepos rd))"
    and "pendingCount rd' = pendingCount rd" "locked rd' = locked rd"
    and "pendingCond rd' = pendingCond rd"
    and "readyCond rd' = (if \<not> pending i \<and> prio (info_of rd r) = None \<and> \<not> locked rd
           then cond_signal (readyCond rd) else readyCond rd)"
  unfolding rd'_def a_def i_def
  by (cases "gget (repos rd) r";
      simp add: Add_def getInfo_def addr_def Let_def addToReady_def prio_def zeroRepoInfo_def)+

lemma info_of_Add:
  assumes "rd_inv rd"
  shows "info_of (Add r low rd) = (info_of rd)(r := setPriority low (info_of rd r))"
proof
  fix x
  show "info_of (Add r low rd) x = ((info_of rd)(r := setPriority low (info_of rd r))) x"
    using rd_invD(4,5) [OF assms]
    by (cases "gget (repos rd) x"; cases "gget (repos rd) r")
      (fastforce simp: info_of_def Add_fields addr_def)+
qed

lemma wanted_Add:
  "rd_inv rd \<Longrightarrow> wanted (Add r low rd) = (wanted rd)(r \<mapsto> bump low (wanted rd r))"
  by (rule ext) (simp add: wanted_def info_of_Add)

lemma busy_Add: "rd_inv rd \<Longrightarrow> busy (Add r low rd) = busy rd"
  by (auto simp: busy_def info_of_Add)

lemma not_both:
  "rd_inv rd \<Longrightarrow> \<not> (lowPriority (info_of rd r) \<and> highPriority (info_of rd r))"
  using rd_invD(6) by (cases "gget (repos rd) r") fastforce+

lemma low_mapD:
  assumes "rd_inv rd" "gget (lowPriorityRepos rd) r = Some a"
  shows "gget (repos rd) r = Some a" "lowPriority (info_of rd r)" "\<not> pending (info_of rd r)"
  using rd_invD(7) [OF assms(1), THEN iffD1, OF assms(2)] by simp_all

lemma high_mapD:
  assumes "rd_inv rd" "gget (highPriorityRepos rd) r = Some a"
  shows "gget (repos rd) r = Some a" "highPriority (info_of rd r)" "\<not> pending (info_of rd r)"
  using rd_invD(8) [OF assms(1), THEN iffD1, OF assms(2)] by simp_all

lemma low_map_None:
  assumes "rd_inv rd" "pending (info_of rd r) \<or> \<not> lowPriority (info_of rd r)"
  shows "gget (lowPriorityRepos rd) r = None"
  using low_mapD [OF assms(1), of r] assms(2) by (cases "gget (lowPriorityRepos rd) r") auto

lemma high_map_None:
  assumes "rd_inv rd" "pending (info_of rd r) \<or> \<not> highPriority (info_of rd r)"
  shows "gget (highPriorityRepos rd) r = None"
  using high_mapD [OF assms(1), of r] assms(2) by (cases "gget (highPriorityRepos rd) r") auto

lemma setPriority_high: "\<not> highPriority (setPriority low i) \<Longrightarrow> \<not> highPriority i"
  by (auto simp: setPriority_def split: if_splits)

lemma rd_inv_NewRepoDispatcher: "rd_inv NewRepoDispatcher"
  by (simp add: rd_inv_def NewRepoDispatcher_def busy_def info_of_def)

lemma rd_inv_Add:
  assumes "rd_inv rd"
  shows "rd_inv (Add r low rd)"
proof -
  note inv = rd_invD [OF assms]
  let ?i = "setPriority low (info_of rd r)"
  have i: "\<not> (lowPriority ?i \<and> highPriority ?i)" "lowPriority ?i \<or> highPriority ?i"
    using setPriority_flags [OF not_both [OF assms]] by auto
  let ?A = "addr rd r" and ?rd' = "Add r low rd"
  have rp: "gget (repos ?rd') x = Some b \<longleftrightarrow> (if x = r then b = ?A else gget (repos rd) x = Some b)"
    for x b by (auto simp: Add_fields addr_def)
  have fr: "x \<noteq> r \<Longrightarrow> gget (repos rd) x \<noteq> Some ?A" for x
    using inv(4,5) by (cases "gget (repos rd) r") (fastforce simp: addr_def)+
  have hp: "heap ?rd' b = (if b = ?A then ?i else heap rd b)" for b by (simp add: Add_fields)
  have lowx: "x \<noteq> r \<Longrightarrow> gget (lowPriorityRepos ?rd') x = gget (lowPriorityRepos rd) x"
    and highx: "x \<noteq> r \<Longrightarrow> gget (highPriorityRepos ?rd') x = gget (highPriorityRepos rd) x" for x
    by (simp_all add: Add_fields)
  have lowr: "gget (lowPriorityRepos ?rd') r = (if \<not> pending ?i \<and> lowPriority ?i then Some ?A else None)"
    using i low_map_None [OF assms, of r] by (auto simp: Add_fields(4))
  have highr: "gget (highPriorityRepos ?rd') r = (if \<not> pending ?i \<and> highPriority ?i then Some ?A else None)"
    using i high_map_None [OF assms, of r] setPriority_high [of low "info_of rd r"]
    by (auto simp: Add_fields(5))
  show ?thesis unfolding rd_inv_def busy_Add [OF assms]
  proof (intro conjI)
    show "gomap_wf (repos ?rd')" "gomap_wf (lowPriorityRepos ?rd')" "gomap_wf (highPriorityRepos ?rd')"
      using inv(1-3) by (auto simp: Add_fields distinct_update gdel_wf)
    show "pendingCount ?rd' = int (card (busy rd))"
      using inv(9) by (simp add: Add_fields)
    show "\<forall>x b. gget (repos ?rd') x = Some b \<longrightarrow> b < fresh ?rd'"
      using inv(4) by (auto simp: rp Add_fields(3) addr_def less_SucI split: option.splits)
    show "\<forall>x y b. gget (repos ?rd') x = Some b \<longrightarrow> gget (repos ?rd') y = Some b \<longrightarrow> x = y"
      using inv(5) fr by (simp add: rp) metis
    show "\<forall>x b. gget (repos ?rd') x = Some b \<longrightarrow>
        \<not> (lowPriority (heap ?rd' b) \<and> highPriority (heap ?rd' b)) \<and>
        (lowPriority (heap ?rd' b) \<or> highPriority (heap ?rd' b) \<or> pending (heap ?rd' b))"
      using inv(6) i by (auto simp: rp hp)
    show "\<forall>x b. gget (lowPriorityRepos ?rd') x = Some b \<longleftrightarrow>
        gget (repos ?rd') x = Some b \<and> lowPriority (heap ?rd' b) \<and> \<not> pending (heap ?rd' b)"
      using fr by (auto simp: rp hp lowr lowx inv(7))
    show "\<forall>x b. gget (highPriorityRepos ?rd') x = Some b \<longleftrightarrow>
        gget (repos ?rd') x = Some b \<and> highPriority (heap ?rd' b) \<and> \<not> pending (heap ?rd' b)"
      using fr by (auto simp: rp hp highr highx inv(8))
  qed
qed

text \<open>\<^verbatim>\<open>Take\<close> hands out a ready repository, an urgent one if there is any.\<close>

lemma taken_info:
  "i\<lparr>pending := True, lowPriority := False, highPriority := False\<rparr> =
     \<lparr>lowPriority = False, highPriority = False, pending = True\<rparr>" for i :: repoInfo
  by (cases i) simp

lemma takeReady_spec:
  assumes "rd_inv rd" "someReady rd" "takeReady n rd = (r, rd')"
  shows "r \<in> ready rd"
    and "wanted rd r = Some High \<or> (\<forall>x \<in> ready rd. wanted rd x = Some Low)"
    and "gget (repos rd) r = Some (addr rd r)"
    and "repos rd' = repos rd" "fresh rd' = fresh rd" "locked rd' = locked rd"
    and "readyCond rd' = readyCond rd" "pendingCond rd' = pendingCond rd"
    and "pendingCount rd' = pendingCount rd + 1"
    and "heap rd' = (heap rd)(addr rd r :=
           \<lparr>lowPriority = False, highPriority = False, pending = True\<rparr>)"
    and "gget (lowPriorityRepos rd') = (gget (lowPriorityRepos rd))(r := None)"
    and "gget (highPriorityRepos rd') = (gget (highPriorityRepos rd))(r := None)"
    and "gomap_wf (lowPriorityRepos rd')" "gomap_wf (highPriorityRepos rd')"
proof -
  note inv = rd_invD [OF assms(1)]
  let ?hi = "0 < length (highPriorityRepos rd)"
  let ?m = "if ?hi then highPriorityRepos rd else lowPriorityRepos rd"
  have ne: "gkeys ?m \<noteq> []" using assms(2) by (auto simp: someReady_def)
  have r: "r = pick n (gkeys ?m)" using assms(3) by (auto simp: takeReady_def Let_def)
  from pick_in [OF ne, of n] have rin: "r \<in> set (gkeys ?m)" by (simp add: r)
  then obtain a where a: "gget ?m r = Some a" unfolding gkeys_iff by blast
  have ra: "gget (repos rd) r = Some a" using a inv(7,8) by (auto split: if_splits)
  show rr: "r \<in> ready rd" using rin high_ready [OF assms(1)] low_ready [OF assms(1)]
    by (auto split: if_splits)
  show "wanted rd r = Some High \<or> (\<forall>x \<in> ready rd. wanted rd x = Some Low)"
  proof (cases ?hi)
    case True
    then show ?thesis using rin high_ready [OF assms(1)] by auto
  next
    case False
    then have "{x \<in> ready rd. wanted rd x = Some High} = {}"
      using high_ready [OF assms(1)] by simp
    then show ?thesis using ready_cases by blast
  qed
  show ad: "gget (repos rd) r = Some (addr rd r)" using ra by (simp add: addr_def)
  have aa: "gget0 0 ?m r = a" using a by simp
  have rd': "rd' = snd (takeReady n rd)" using assms(3) by simp
  show "repos rd' = repos rd" "fresh rd' = fresh rd" "locked rd' = locked rd"
    "readyCond rd' = readyCond rd" "pendingCond rd' = pendingCond rd"
    "pendingCount rd' = pendingCount rd + 1"
    by (simp_all add: rd' takeReady_def Let_def)
  show "heap rd' = (heap rd)(addr rd r :=
           \<lparr>lowPriority = False, highPriority = False, pending = True\<rparr>)"
    using ra aa r by (cases ?hi) (simp_all add: rd' takeReady_def Let_def addr_def taken_info)
  have lo: "?hi \<Longrightarrow> gget (lowPriorityRepos rd) r = None"
    using low_map_None [OF assms(1), of r] high_mapD [OF assms(1), of r a] a not_both [OF assms(1), of r]
    by auto
  have hi: "\<not> ?hi \<Longrightarrow> gget (highPriorityRepos rd) r = None" by simp
  show "gget (lowPriorityRepos rd') = (gget (lowPriorityRepos rd))(r := None)"
    using lo r by (cases ?hi) (auto simp: rd' takeReady_def Let_def delete_conv')
  show "gget (highPriorityRepos rd') = (gget (highPriorityRepos rd))(r := None)"
    using hi r by (cases ?hi) (auto simp: rd' takeReady_def Let_def delete_conv')
  show "gomap_wf (lowPriorityRepos rd')" "gomap_wf (highPriorityRepos rd')"
    using inv(2,3) by (auto simp: rd' takeReady_def Let_def gdel_wf)
qed

lemma info_of_takeReady:
  assumes "rd_inv rd" "someReady rd" "takeReady n rd = (r, rd')"
  shows "info_of rd' = (info_of rd)(r := \<lparr>lowPriority = False, highPriority = False, pending = True\<rparr>)"
proof
  fix x
  note t = takeReady_spec [OF assms]
  show "info_of rd' x = ((info_of rd)(r := \<lparr>lowPriority = False, highPriority = False, pending = True\<rparr>)) x"
    using t(3) rd_invD(5) [OF assms(1), of x "addr rd r" r]
    by (cases "gget (repos rd) x") (auto simp: info_of_def t(4,10))
qed

lemma wanted_takeReady:
  "rd_inv rd \<Longrightarrow> someReady rd \<Longrightarrow> takeReady n rd = (r, rd') \<Longrightarrow> wanted rd' = (wanted rd)(r := None)"
  by (rule ext) (simp add: wanted_def info_of_takeReady prio_def)

lemma busy_takeReady:
  "rd_inv rd \<Longrightarrow> someReady rd \<Longrightarrow> takeReady n rd = (r, rd') \<Longrightarrow> busy rd' = insert r (busy rd)"
  by (auto simp: busy_def info_of_takeReady)

lemma ready_takeReady:
  "rd_inv rd \<Longrightarrow> someReady rd \<Longrightarrow> takeReady n rd = (r, rd') \<Longrightarrow> ready rd' = ready rd - {r}"
  by (auto simp: ready_def wanted_takeReady busy_takeReady)

lemma rd_inv_takeReady:
  assumes "rd_inv rd" "someReady rd" "takeReady n rd = (r, rd')"
  shows "rd_inv rd'"
proof -
  note inv = rd_invD [OF assms(1)] and t = takeReady_spec [OF assms]
  have "r \<notin> busy rd" using t(1) by (simp add: ready_def)
  then have count: "pendingCount rd' = int (card (busy rd'))"
    using t(9) inv(9) by (simp add: busy_takeReady [OF assms])
  have eq: "\<And>x. gget (repos rd) x = Some (addr rd r) \<longleftrightarrow> x = r" using t(3) inv(5) by blast
  have eq': "\<And>a. gget (repos rd) r = Some a \<longleftrightarrow> a = addr rd r" using t(3) by auto
  have hp: "\<And>a. heap rd' a = (if a = addr rd r
      then \<lparr>lowPriority = False, highPriority = False, pending = True\<rparr> else heap rd a)"
    by (simp add: t(10))
  show ?thesis unfolding rd_inv_def
  proof (intro conjI)
    show "\<forall>x a. gget (lowPriorityRepos rd') x = Some a \<longleftrightarrow>
        gget (repos rd') x = Some a \<and> lowPriority (heap rd' a) \<and> \<not> pending (heap rd' a)"
      using eq eq' inv(7) by (auto simp: t(4,11) hp)
    show "\<forall>x a. gget (highPriorityRepos rd') x = Some a \<longleftrightarrow>
        gget (repos rd') x = Some a \<and> highPriority (heap rd' a) \<and> \<not> pending (heap rd' a)"
      using eq eq' inv(8) by (auto simp: t(4,12) hp)
  qed (use inv t count in \<open>auto simp: hp\<close>)
qed


text \<open>\<^verbatim>\<open>Release\<close>: the repository is no longer busy; if it was requested meanwhile it is ready again.\<close>

lemma Release_cases:
  "Release r rd =
     (if gget (repos rd) r = None then Inl NilDereference
      else if r \<notin> busy rd then Inl ReleaseNotPending
      else Inr (projr (Release r rd)))"
  by (cases "gget (repos rd) r") (auto simp: Release_def busy_def Let_def)

lemma Release_fields:
  assumes "Release r rd = Inr rd'"
  defines "i \<equiv> (info_of rd r)\<lparr>pending := False\<rparr>" and "a \<equiv> addr rd r"
  shows "gget (repos rd) r = Some a" "pending (info_of rd r)"
    and "repos rd' = (if prio i = None then gdel r (repos rd) else repos rd)"
    and "heap rd' = (heap rd)(a := i)" "fresh rd' = fresh rd" "locked rd' = locked rd"
    and "pendingCount rd' = pendingCount rd - 1"
    and "pendingCond rd' = cond_signal (pendingCond rd)"
    and "lowPriorityRepos rd' = (if lowPriority i then gset r a (lowPriorityRepos rd)
           else if highPriority i then gdel r (lowPriorityRepos rd) else lowPriorityRepos rd)"
    and "highPriorityRepos rd' = (if lowPriority i \<or> \<not> highPriority i
           then highPriorityRepos rd else gset r a (highPriorityRepos rd))"
    and "readyCond rd' = (if prio i \<noteq> None \<and> \<not> locked rd
           then cond_signal (readyCond rd) else readyCond rd)"
proof -
  obtain b where b: "gget (repos rd) r = Some b" "pending (heap rd b)"
    using assms(1) by (auto simp: Release_def split: option.splits if_splits)
  then show "gget (repos rd) r = Some a" "pending (info_of rd r)" by (simp_all add: a_def addr_def)
  have ab: "a = b" using b by (simp add: a_def addr_def)
  have rd': "rd' = projr (Release r rd)" using assms(1) by simp
  show "repos rd' = (if prio i = None then gdel r (repos rd) else repos rd)"
    and "heap rd' = (heap rd)(a := i)" "fresh rd' = fresh rd" "locked rd' = locked rd"
    and "pendingCount rd' = pendingCount rd - 1"
    and "pendingCond rd' = cond_signal (pendingCond rd)"
    and "lowPriorityRepos rd' = (if lowPriority i then gset r a (lowPriorityRepos rd)
           else if highPriority i then gdel r (lowPriorityRepos rd) else lowPriorityRepos rd)"
    and "highPriorityRepos rd' = (if lowPriority i \<or> \<not> highPriority i
           then highPriorityRepos rd else gset r a (highPriorityRepos rd))"
    and "readyCond rd' = (if prio i \<noteq> None \<and> \<not> locked rd
           then cond_signal (readyCond rd) else readyCond rd)"
    unfolding rd' i_def ab using b
    by (auto simp: Release_def Let_def addToReady_def prio_def)
qed

lemma info_of_Release:
  assumes "rd_inv rd" "Release r rd = Inr rd'"
  shows "info_of rd' = (info_of rd)(r := (info_of rd r)\<lparr>pending := False\<rparr>)"
proof
  fix x
  note f = Release_fields [OF assms(2)]
  have z: "prio i = None \<Longrightarrow> i\<lparr>pending := False\<rparr> = zeroRepoInfo" for i
    by (cases i) (auto simp: prio_def zeroRepoInfo_def split: if_splits)
  have "x \<noteq> r \<Longrightarrow> gget (repos rd) x = Some b \<Longrightarrow> b \<noteq> addr rd r" for b
    using f(1) rd_invD(5) [OF assms(1)] by blast
  then show "info_of rd' x = ((info_of rd)(r := (info_of rd r)\<lparr>pending := False\<rparr>)) x"
    using f(1) z [of "info_of rd r"]
    by (cases "gget (repos rd) x") (auto simp: info_of_def f(3,4) prio_def)
qed

lemma wanted_Release: "rd_inv rd \<Longrightarrow> Release r rd = Inr rd' \<Longrightarrow> wanted rd' = wanted rd"
  by (rule ext) (simp add: wanted_def info_of_Release prio_def)

lemma busy_Release: "rd_inv rd \<Longrightarrow> Release r rd = Inr rd' \<Longrightarrow> busy rd' = busy rd - {r}"
  by (auto simp: busy_def info_of_Release)

lemma ready_Release:
  "rd_inv rd \<Longrightarrow> Release r rd = Inr rd' \<Longrightarrow>
     ready rd' = ready rd \<union> (if wanted rd r \<noteq> None then {r} else {})"
  by (auto simp: ready_def wanted_Release busy_Release)

lemma rd_inv_Release:
  assumes "rd_inv rd" "Release r rd = Inr rd'"
  shows "rd_inv rd'"
proof -
  note inv = rd_invD [OF assms(1)] and f = Release_fields [OF assms(2)]
  let ?i = "(info_of rd r)\<lparr>pending := False\<rparr>" and ?a = "addr rd r"
  have rb: "r \<in> busy rd" using f(2) by (simp add: busy_def)
  then have "0 < card (busy rd)" by (auto simp: card_gt_0_iff)
  with rb have count: "pendingCount rd' = int (card (busy rd'))"
    using f(7) inv(9) by (simp add: busy_Release [OF assms] of_nat_diff)
  have nb: "\<not> (lowPriority ?i \<and> highPriority ?i)" using not_both [OF assms(1), of r] by simp
  have fr: "x \<noteq> r \<Longrightarrow> gget (repos rd) x \<noteq> Some ?a" for x using f(1) inv(5) by blast
  have rp: "gget (repos rd') x = Some b \<longleftrightarrow>
      (if x = r then b = ?a \<and> prio ?i \<noteq> None else gget (repos rd) x = Some b)" for x b
    using f(1) by (auto simp: f(3))
  have hp: "heap rd' b = (if b = ?a then ?i else heap rd b)" for b by (simp add: f(4))
  have low: "gget (lowPriorityRepos rd') x =
      (if x = r then if lowPriority ?i then Some ?a else None else gget (lowPriorityRepos rd) x)" for x
    using low_map_None [OF assms(1), of r] f(2) by (simp add: f(9))
  have high: "gget (highPriorityRepos rd') x =
      (if x = r then if highPriority ?i then Some ?a else None else gget (highPriorityRepos rd) x)" for x
    using high_map_None [OF assms(1), of r] f(2) nb by (simp add: f(10))
  show ?thesis unfolding rd_inv_def
  proof (intro conjI)
    show "\<forall>x b. gget (lowPriorityRepos rd') x = Some b \<longleftrightarrow>
        gget (repos rd') x = Some b \<and> lowPriority (heap rd' b) \<and> \<not> pending (heap rd' b)"
      using fr by (auto simp: rp hp low inv(7) prio_def)
    show "\<forall>x b. gget (highPriorityRepos rd') x = Some b \<longleftrightarrow>
        gget (repos rd') x = Some b \<and> highPriority (heap rd' b) \<and> \<not> pending (heap rd' b)"
      using fr by (auto simp: rp hp high inv(8) prio_def)
    show "\<forall>x y b. gget (repos rd') x = Some b \<longrightarrow> gget (repos rd') y = Some b \<longrightarrow> x = y"
      using inv(5) fr by (simp add: rp)
    show "\<forall>x b. gget (repos rd') x = Some b \<longrightarrow>
        \<not> (lowPriority (heap rd' b) \<and> highPriority (heap rd' b)) \<and>
        (lowPriority (heap rd' b) \<or> highPriority (heap rd' b) \<or> pending (heap rd' b))"
      using inv(6) nb fr by (auto simp: rp hp prio_def split: if_splits)
    show "\<forall>x b. gget (repos rd') x = Some b \<longrightarrow> b < fresh rd'"
      using inv(4) f(1) by (auto simp: rp f(5))
  qed (use inv(1-3) count in \<open>simp_all add: f(3,9,10) distinct_update gdel_wf\<close>)
qed

lemma Release_total: "rd_inv rd \<Longrightarrow> r \<in> busy rd \<Longrightarrow> \<exists>rd'. Release r rd = Inr rd'"
  using Release_cases [of r rd] busy_known [of rd] gkeys_iff [of r "repos rd"] by auto

subsection \<open>Waking up the workers\<close>

text \<open>
  The condition variable carries one notification per ready repository: while the dispatcher is not
  locked and some worker sleeps in \<^verbatim>\<open>Take\<close>, at least as many workers have been notified as
  repositories are ready. So no request waits for a worker that nobody wakes.
\<close>

definition wake_ok :: "repoDispatcher \<Rightarrow> bool" where
  "wake_ok rd \<longleftrightarrow> locked rd \<or> waiting (readyCond rd) = [] \<or>
     card (ready rd) \<le> length (woken (readyCond rd))"

lemma wake_ok_signal:
  assumes "wake_ok rd" "locked rd' = locked rd" "readyCond rd' = cond_signal (readyCond rd)"
    "card (ready rd') \<le> Suc (card (ready rd))"
  shows "wake_ok rd'"
  using assms by (auto simp: wake_ok_def cond_signal_def split: list.splits)

lemma wake_ok_mono:
  assumes "wake_ok rd" "locked rd' = locked rd" "readyCond rd' = readyCond rd" "ready rd' \<subseteq> ready rd"
  shows "wake_ok rd'"
  using assms card_mono [OF finite_ready assms(4)] by (auto simp: wake_ok_def)

lemma ready_Add:
  "rd_inv rd \<Longrightarrow> ready (Add r low rd) = ready rd \<union> (if r \<in> busy rd then {} else {r})"
  by (auto simp: ready_def wanted_Add busy_Add)

lemma wake_ok_Add:
  assumes "rd_inv rd" "wake_ok rd"
  shows "wake_ok (Add r low rd)"
proof (cases "r \<in> busy rd \<or> wanted rd r \<noteq> None")
  case True
  then have "ready (Add r low rd) = ready rd"
    unfolding ready_Add [OF assms(1)] by (auto simp: ready_def)
  moreover have "readyCond (Add r low rd) = readyCond rd"
    using True by (auto simp: Add_fields busy_def wanted_def)
  ultimately show ?thesis using wake_ok_mono [OF assms(2)] by (simp add: Add_fields)
next
  case False
  then have c: "readyCond (Add r low rd) = (if locked rd then readyCond rd else cond_signal (readyCond rd))"
    by (auto simp: Add_fields busy_def wanted_def)
  have "card (ready (Add r low rd)) \<le> Suc (card (ready rd))"
    using False by (simp add: ready_Add [OF assms(1)] card_insert_if)
  then show ?thesis
    using wake_ok_signal [OF assms(2), of "Add r low rd"] c
    by (cases "locked rd") (auto simp: Add_fields wake_ok_def)
qed

lemma wake_ok_Release:
  assumes "rd_inv rd" "wake_ok rd" "Release r rd = Inr rd'"
  shows "wake_ok rd'"
proof (cases "wanted rd r = None \<or> locked rd")
  case True
  have "readyCond rd' = readyCond rd"
    using True by (auto simp: Release_fields(11) [OF assms(3)] wanted_def prio_def split: if_splits)
  then show ?thesis using True assms(2) ready_Release [OF assms(1,3)]
    by (auto simp: wake_ok_def Release_fields(6) [OF assms(3)])
next
  case False
  have "readyCond rd' = cond_signal (readyCond rd)"
    using False by (auto simp: Release_fields(11) [OF assms(3)] wanted_def prio_def split: if_splits)
  moreover have "card (ready rd') \<le> Suc (card (ready rd))"
    using ready_Release [OF assms(1,3)] by (simp add: card_insert_if)
  ultimately show ?thesis
    using wake_ok_signal [OF assms(2)] by (simp add: Release_fields(6) [OF assms(3)])
qed


text \<open>The remaining operations only move goroutines between the wait queues and set the lock flag.\<close>

lemma view_update [simp]:
  "info_of (rd\<lparr>readyCond := c\<rparr>) = info_of rd" "info_of (rd\<lparr>pendingCond := c\<rparr>) = info_of rd"
  "info_of (rd\<lparr>locked := b\<rparr>) = info_of rd"
  by (simp_all add: fun_eq_iff info_of_def split: option.split)

lemma abs_update [simp]:
  "wanted (rd\<lparr>readyCond := c\<rparr>) = wanted rd" "busy (rd\<lparr>readyCond := c\<rparr>) = busy rd"
  "wanted (rd\<lparr>pendingCond := c\<rparr>) = wanted rd" "busy (rd\<lparr>pendingCond := c\<rparr>) = busy rd"
  "wanted (rd\<lparr>locked := b\<rparr>) = wanted rd" "busy (rd\<lparr>locked := b\<rparr>) = busy rd"
  by (auto simp: wanted_def busy_def)

lemma ready_update [simp]:
  "ready (rd\<lparr>readyCond := c\<rparr>) = ready rd" "ready (rd\<lparr>pendingCond := c\<rparr>) = ready rd"
  "ready (rd\<lparr>locked := b\<rparr>) = ready rd"
  by (auto simp: ready_def)

lemma rd_inv_update [simp]:
  "rd_inv (rd\<lparr>readyCond := c\<rparr>) = rd_inv rd" "rd_inv (rd\<lparr>pendingCond := c\<rparr>) = rd_inv rd"
  "rd_inv (rd\<lparr>locked := b\<rparr>) = rd_inv rd"
  by (auto simp: rd_inv_def)

lemma Lock_loop_result:
  "Lock_loop t rd = (done, rd') \<Longrightarrow> rd_inv rd \<Longrightarrow>
     done = (busy rd = {}) \<and> rd_inv rd' \<and> wanted rd' = wanted rd \<and> busy rd' = busy rd \<and>
     ready rd' = ready rd \<and> locked rd' = locked rd \<and> readyCond rd' = readyCond rd"
  using rd_invD(9) [of rd] by (auto simp: Lock_loop_def card_gt_0_iff split: if_splits)

lemma Unlock_result:
  assumes "rd_inv rd"
  shows "rd_inv (Unlock rd)" "wanted (Unlock rd) = wanted rd" "busy (Unlock rd) = busy rd"
    "ready (Unlock rd) = ready rd" "\<not> locked (Unlock rd)"
    "wake_ok (Unlock rd)" "pendingCond (Unlock rd) = pendingCond rd"
  using assms someReady_iff [of "rd\<lparr>locked := False\<rparr>"]
  by (auto simp: Unlock_def Let_def wake_ok_def cond_broadcast_def)

lemma Take_loop_cases:
  assumes "Take_loop t n rd = (res, rd')"
  obtains (sleep) "\<not> someReady rd" "res = None" "rd' = rd\<lparr>readyCond := cond_wait t (readyCond rd)\<rparr>"
  | (got) r where "someReady rd" "res = Some r" "takeReady n rd = (r, rd')"
  using assms by (auto simp: Take_loop_def split: if_splits prod.splits)

lemma Take_loop_inv:
  assumes "rd_inv rd" "Take_loop t n rd = (res, rd')"
  shows "rd_inv rd'" "wake_ok rd \<Longrightarrow> wake_ok rd'" "locked rd' = locked rd"
    "pendingCond rd' = pendingCond rd"
proof -
  show "rd_inv rd'" using assms(1)
    by (cases rule: Take_loop_cases [OF assms(2)]) (auto dest: rd_inv_takeReady)
  show "locked rd' = locked rd" "pendingCond rd' = pendingCond rd" using assms(1)
    by (cases rule: Take_loop_cases [OF assms(2)]; auto dest: takeReady_spec(6,8))+
  assume w: "wake_ok rd"
  from assms(2) show "wake_ok rd'"
  proof (cases rule: Take_loop_cases)
    case sleep
    then show ?thesis using someReady_iff [OF assms(1)] by (auto simp: wake_ok_def)
  next
    case (got r)
    note t = takeReady_spec [OF assms(1) got(1,3)]
    show ?thesis
      by (rule wake_ok_mono [OF w t(6,7)]) (auto simp: ready_takeReady [OF assms(1) got(1,3)])
  qed
qed

lemma wake_ok_Take_resume:
  assumes "rd_inv rd" "wake_ok rd" "t \<in> set (woken (readyCond rd))" "Take_resume t n rd = (res, rd')"
  shows "wake_ok rd'"
proof -
  let ?rd = "rd\<lparr>readyCond := cond_resume t (readyCond rd)\<rparr>"
  have T: "Take_loop t n ?rd = (res, rd')" using assms(4) by (simp add: Take_resume_def)
  have len: "Suc (length (woken (readyCond ?rd))) = length (woken (readyCond rd))"
    using assms(3) by (simp add: cond_resume_def length_remove1) (metis Suc_pred length_pos_if_in_set)
  from T show ?thesis
  proof (cases rule: Take_loop_cases)
    case sleep
    then show ?thesis using someReady_iff [of ?rd] assms(1) by (auto simp: wake_ok_def)
  next
    case (got r)
    have i: "rd_inv ?rd" using assms(1) by simp
    note t = takeReady_spec [OF i got(1,3)]
    have "Suc (card (ready rd')) = card (ready rd)"
      using t(1) ready_takeReady [OF i got(1,3)] card_Suc_Diff1 [OF finite_ready, of r rd] by simp
    then show ?thesis using assms(2) len t(6,7) by (auto simp: wake_ok_def cond_resume_def)
  qed
qed


subsection \<open>The dispatcher is a work queue\<close>

interpretation rdq: work_queue rd_inv wanted busy locked Add Take_loop Release
proof (unfold_locales, goal_cases)
  case (1 q r low) then show ?case by (rule rd_inv_Add)
next
  case (2 q r low) then show ?case by (rule busy_Add)
next
  case (3 q r low x) then show ?case by (simp add: wanted_Add)
next
  case (4 q t n res q') then show ?case by (rule Take_loop_inv(1))
next
  case (5 q t n res q') then show ?case by (rule Take_loop_inv(3))
next
  case (6 q t n q') then show ?case by (auto simp: Take_loop_def split: if_splits prod.splits)
next
  case (7 q t n r q')
  then have g: "someReady q" "takeReady n q = (r, q')"
    by (auto simp: Take_loop_def split: if_splits prod.splits)
  note q = \<open>rd_inv q\<close>
  have "\<not> locked q" using g(1) by (simp add: someReady_def)
  moreover have "r \<notin> busy q" "wanted q r \<noteq> None"
    using takeReady_spec(1) [OF q g] by (simp_all add: ready_def)
  ultimately show ?case using busy_takeReady [OF q g] wanted_takeReady [OF q g] by simp
next
  case (8 q r q') then show ?case by (rule rd_inv_Release)
next
  case (9 q r) then show ?case by (rule Release_total)
next
  case (10 q r q') then show ?case by (simp add: busy_Release wanted_Release)
qed


subsection \<open>The specification and the refinement\<close>

record queue_spec =
  q_wanted :: "string \<Rightarrow> priority option"
  q_busy :: "string set"
  q_locked :: bool

definition q_abs :: "repoDispatcher \<Rightarrow> queue_spec" where
  "q_abs rd = \<lparr>q_wanted = wanted rd, q_busy = busy rd, q_locked = locked rd\<rparr>"

definition q_ready :: "queue_spec \<Rightarrow> string set" where
  "q_ready q = {r. q_wanted q r \<noteq> None \<and> r \<notin> q_busy q}"

definition q_add :: "string \<Rightarrow> bool \<Rightarrow> queue_spec \<Rightarrow> queue_spec" where
  "q_add r low q = q\<lparr>q_wanted := (q_wanted q)(r \<mapsto> bump low (q_wanted q r))\<rparr>"

definition q_take :: "string \<Rightarrow> queue_spec \<Rightarrow> queue_spec" where
  "q_take r q = q\<lparr>q_wanted := (q_wanted q)(r := None), q_busy := insert r (q_busy q)\<rparr>"

definition q_release :: "string \<Rightarrow> queue_spec \<Rightarrow> queue_spec" where
  "q_release r q = q\<lparr>q_busy := q_busy q - {r}\<rparr>"

lemma q_ready_abs [simp]: "q_ready (q_abs rd) = ready rd"
  by (simp add: q_ready_def q_abs_def ready_def)

text \<open>
  C10. \<^verbatim>\<open>Add\<close> implements its specification: afterwards the repository is wanted, at high priority if
  this request or an earlier one that is still open asked for it, and nothing else has changed.
\<close>

theorem Add_refines:
  assumes "rd_inv rd"
  shows "rd_inv (Add r low rd) \<and> q_abs (Add r low rd) = q_add r low (q_abs rd)"
  using assms by (simp add: rd_inv_Add q_abs_def q_add_def wanted_Add busy_Add Add_fields)

theorem Add_refines_witness:
  "rd_inv NewRepoDispatcher \<and>
   q_abs (Add ''foo'' True NewRepoDispatcher) = q_add ''foo'' True (q_abs NewRepoDispatcher)"
  using Add_refines [OF rd_inv_NewRepoDispatcher, of "''foo''" True] rd_inv_NewRepoDispatcher by simp

text \<open>
  C3. \<^verbatim>\<open>Take\<close> implements its specification: it goes to sleep exactly when the dispatcher is locked or
  nothing is ready, and otherwise returns a ready repository, never a low-priority one while a
  high-priority one is ready; the repository is then busy and no longer wanted.
\<close>

theorem Take_refines:
  assumes "rd_inv rd" "Take_loop t n rd = (res, rd')"
  shows "rd_inv rd' \<and>
    (case res of
       None \<Rightarrow> (locked rd \<or> ready rd = {}) \<and> q_abs rd' = q_abs rd
     | Some r \<Rightarrow> \<not> locked rd \<and> r \<in> q_ready (q_abs rd) \<and>
         (wanted rd r = Some Low \<longrightarrow> (\<forall>x \<in> q_ready (q_abs rd). wanted rd x = Some Low)) \<and>
         q_abs rd' = q_take r (q_abs rd))"
  using assms(2)
proof (cases rule: Take_loop_cases)
  case sleep
  then show ?thesis
    using assms(1) by (auto simp: q_abs_def someReady_iff)
next
  case (got r)
  note t = takeReady_spec [OF assms(1) got(1,3)]
  have "\<not> locked rd" using got(1) by (simp add: someReady_def)
  moreover have "q_abs rd' = q_take r (q_abs rd)"
    using t(6) wanted_takeReady [OF assms(1) got(1,3)] busy_takeReady [OF assms(1) got(1,3)]
    by (simp add: q_abs_def q_take_def)
  ultimately show ?thesis
    using t(1,2) rd_inv_takeReady [OF assms(1) got(1,3)] by (auto simp: got)
qed

theorem Take_refines_witness:
  "\<exists>rd'. Take_loop 0 0 (Add ''bar'' False (Add ''foo'' True NewRepoDispatcher)) = (Some ''bar'', rd') \<and>
     q_abs rd' = q_take ''bar'' (q_abs (Add ''bar'' False (Add ''foo'' True NewRepoDispatcher)))"
proof -
  let ?rd = "Add ''bar'' False (Add ''foo'' True NewRepoDispatcher)"
  have i: "rd_inv ?rd" by (intro rd_inv_Add rd_inv_NewRepoDispatcher)
  have f: "fst (Take_loop 0 0 ?rd) = Some ''bar''" by code_simp
  then have T: "Take_loop 0 0 ?rd = (Some ''bar'', snd (Take_loop 0 0 ?rd))"
    by (metis prod.collapse)
  show ?thesis using Take_refines [OF i T] T by auto
qed

text \<open>
  C11. \<^verbatim>\<open>Release\<close> panics exactly when the repository is not busy; otherwise it is no longer busy, it is
  ready again if it was requested while it was busy, and forgotten if it was not.
\<close>

theorem Release_refines:
  assumes "rd_inv rd"
  shows "case Release r rd of
       Inl _ \<Rightarrow> r \<notin> busy rd
     | Inr rd' \<Rightarrow> r \<in> busy rd \<and> rd_inv rd' \<and> q_abs rd' = q_release r (q_abs rd) \<and>
         (r \<in> ready rd' \<longleftrightarrow> wanted rd r \<noteq> None) \<and>
         (r \<in> set (gkeys (repos rd')) \<longleftrightarrow> wanted rd r \<noteq> None)"
proof (cases "Release r rd")
  case (Inl e)
  then show ?thesis using Release_total [OF assms, of r] by auto
next
  case (Inr rd')
  note f = Release_fields [OF Inr]
  have "r \<in> busy rd" using f(2) by (simp add: busy_def)
  moreover have "r \<in> set (gkeys (repos rd')) \<longleftrightarrow> wanted rd r \<noteq> None"
    unfolding gkeys_iff using f(1) by (auto simp: f(3) wanted_def prio_def)
  ultimately show ?thesis
    using Inr rd_inv_Release [OF assms Inr] wanted_Release [OF assms Inr] busy_Release [OF assms Inr]
    by (auto simp: q_abs_def q_release_def ready_def f(6))
qed

theorem Release_refines_witness:
  "rd_inv (snd (Take_loop 0 0 (Add ''foo'' True NewRepoDispatcher))) \<and>
   ''foo'' \<in> busy (snd (Take_loop 0 0 (Add ''foo'' True NewRepoDispatcher)))"
proof -
  let ?q = "Add ''foo'' True NewRepoDispatcher"
  let ?rd = "snd (Take_loop 0 0 ?q)"
  have i: "rd_inv ?q" by (intro rd_inv_Add rd_inv_NewRepoDispatcher)
  have i': "rd_inv ?rd" 
    using Take_loop_inv(1) [OF i, of 0 0 "fst (Take_loop 0 0 ?q)" ?rd] by simp
  have "isl (Release ''foo'' ?rd) = False" by code_simp
  then show ?thesis
    using Release_refines [OF i', of "''foo''"] i' by (auto split: sum.splits)
qed

end
