(* ===== verification/Requests.thy ===== *)
theory Requests
  imports Prelude
begin

section \<open>The request channel of the fetcher (fetcher/fetcher.go)\<close>

text \<open>
  The requests, the buffered channel they are put into, and the senders. The only reader is the main
  goroutine of \<open>Dispatch\<close>; \<open>FetchEverything\<close> runs in that goroutine and sends into the same channel.
\<close>


datatype requestType = requestNone | requestFetchAll | requestFetchRepository | requestGarbageCollect

record fetchRequest =
  which :: requestType
  repository :: string
  reqLowPriority :: bool

text \<open>The channel is made with \<^verbatim>\<open>make(chan fetchRequest, 100)\<close>: a send blocks (\<^const>\<open>None\<close>) while it
  holds 100 requests.\<close>

definition channelCap :: nat where
  "channelCap = 100"

definition chanSend :: "fetchRequest \<Rightarrow> fetchRequest list \<Rightarrow> fetchRequest list option" where
  "chanSend req ch = (if length ch < channelCap then Some (ch @ [req]) else None)"

definition FetchAll :: "fetchRequest list \<Rightarrow> fetchRequest list option" where
  "FetchAll ch = chanSend \<lparr>which = requestFetchAll, repository = '''', reqLowPriority = False\<rparr> ch"

definition FetchRepository :: "string \<Rightarrow> fetchRequest list \<Rightarrow> fetchRequest list option" where
  "FetchRepository repo ch =
     chanSend \<lparr>which = requestFetchRepository, repository = repo, reqLowPriority = False\<rparr> ch"

definition GarbageCollect :: "fetchRequest list \<Rightarrow> fetchRequest list option" where
  "GarbageCollect ch =
     chanSend \<lparr>which = requestGarbageCollect, repository = '''', reqLowPriority = False\<rparr> ch"

text \<open>The send at the end of \<^verbatim>\<open>fetchAll\<close>.\<close>

definition sendRepo :: "string \<Rightarrow> fetchRequest list \<Rightarrow> fetchRequest list option" where
  "sendRepo r ch =
     chanSend \<lparr>which = requestFetchRepository, repository = r, reqLowPriority = True\<rparr> ch"

lemmas chan_ops = FetchAll_def FetchRepository_def GarbageCollect_def sendRepo_def chanSend_def

text \<open>The loop of sends: what could not be sent before the channel was full (the first of it is the send that
  blocks) and the channel.\<close>

fun sendRepos :: "string list \<Rightarrow> fetchRequest list \<Rightarrow> string list \<times> fetchRequest list" where
  "sendRepos [] ch = ([], ch)"
| "sendRepos (r # rs) ch =
     (case sendRepo r ch of None \<Rightarrow> (r # rs, ch) | Some ch' \<Rightarrow> sendRepos rs ch')"

definition repoRequest :: "string \<Rightarrow> fetchRequest" where
  "repoRequest r = \<lparr>which = requestFetchRepository, repository = r, reqLowPriority = True\<rparr>"

lemma sendRepos_eq: "length ch \<le> channelCap \<Longrightarrow>
    sendRepos rs ch = (drop (channelCap - length ch) rs, ch @ map repoRequest (take (channelCap - length ch) rs))"
proof (induction rs arbitrary: ch)
  case (Cons r rs)
  show ?case
  proof (cases "length ch < channelCap")
    case True
    then have "sendRepo r ch = Some (ch @ [repoRequest r])" by (simp add: sendRepo_def chanSend_def repoRequest_def)
    moreover have "channelCap - length ch = Suc (channelCap - Suc (length ch))" using True by simp
    ultimately show ?thesis using Cons.IH [of "ch @ [repoRequest r]"] True by simp
  qed (use Cons.prems in \<open>simp add: sendRepo_def chanSend_def\<close>)
qed simp

end
