(* ===== verification/Dispatch.thy ===== *)
theory Dispatch
  imports RepoDispatcher Requests
begin

section \<open>The dispatch loop and its workers (fetcher/fetcher.go)\<close>

text \<open>
  \<^verbatim>\<open>Fetcher.dispatch\<close> runs one goroutine that serves the request channel and five workers that take
  repositories from the dispatcher, fetch them and release them. The interleaving of these
  goroutines is a step relation \<open>dstep\<close>: one rule per point where a goroutine can make progress
  (a receive, a send, an atomic method of the dispatcher). What a fetch does to the database does
  not matter here; it is the subject of \<open>FetchCorrect\<close> and \<open>FetchEverything\<close>.
\<close>

subsection \<open>The goroutines\<close>

datatype wstate = WIdle | WSleep | WFetch string

datatype mstate =
    MRecv
  | MLockWait requestType
  | MFetchAll
  | MSending "string list"
  | MGarbageCollect

record dsys =
  disp :: repoDispatcher
  chan :: "fetchRequest list"
  main :: mstate
  worker :: "tid \<Rightarrow> wstate"
  panicked :: bool

definition nWorkers :: nat where
  "nWorkers = 5"

definition mainTid :: tid where
  "mainTid = 5"

definition dispatch_init :: dsys where
  "dispatch_init = \<lparr>disp = NewRepoDispatcher, chan = [], main = MRecv,
     worker = (\<lambda>_. WIdle), panicked = False\<rparr>"

text \<open>What the main goroutine does once \<^verbatim>\<open>dispatcher.Lock()\<close> has returned, or while it sleeps there.\<close>

definition afterLock :: "requestType \<Rightarrow> bool \<times> repoDispatcher \<Rightarrow> dsys \<Rightarrow> dsys" where
  "afterLock w lr s = s\<lparr>disp := snd lr,
     main := (if fst lr then (if w = requestFetchAll then MFetchAll else MGarbageCollect)
              else MLockWait w)\<rparr>"

text \<open>One iteration of the main loop up to the point where it blocks or calls into the database.\<close>

definition dispatchRequest :: "fetchRequest \<Rightarrow> dsys \<Rightarrow> dsys" where
  "dispatchRequest req s =
     (case which req of
        requestFetchAll \<Rightarrow> afterLock requestFetchAll (Lock_enter mainTid (disp s)) s
      | requestFetchRepository \<Rightarrow> s\<lparr>disp := Add (repository req) (reqLowPriority req) (disp s)\<rparr>
      | requestGarbageCollect \<Rightarrow> afterLock requestGarbageCollect (Lock_enter mainTid (disp s)) s
      | requestNone \<Rightarrow> s)"

text \<open>A worker after one pass of \<^verbatim>\<open>Take\<close>'s loop, and at \<^verbatim>\<open>Release\<close>.\<close>

definition workerTook :: "tid \<Rightarrow> string option \<times> repoDispatcher \<Rightarrow> dsys \<Rightarrow> dsys" where
  "workerTook t tr s = s\<lparr>disp := snd tr,
     worker := (worker s)(t := (case fst tr of None \<Rightarrow> WSleep | Some r \<Rightarrow> WFetch r))\<rparr>"

definition workerRelease :: "tid \<Rightarrow> string \<Rightarrow> dsys \<Rightarrow> dsys" where
  "workerRelease t r s = (case Release r (disp s) of
       Inl _ \<Rightarrow> s\<lparr>panicked := True\<rparr>
     | Inr rd \<Rightarrow> s\<lparr>disp := rd, worker := (worker s)(t := WIdle)\<rparr>)"

inductive dstep :: "dsys \<Rightarrow> dsys \<Rightarrow> bool" where
  request_all: "FetchAll (chan s) = Some ch \<Longrightarrow> dstep s (s\<lparr>chan := ch\<rparr>)"
| request_repo: "FetchRepository r (chan s) = Some ch \<Longrightarrow> dstep s (s\<lparr>chan := ch\<rparr>)"
| request_gc: "GarbageCollect (chan s) = Some ch \<Longrightarrow> dstep s (s\<lparr>chan := ch\<rparr>)"
| receive: "main s = MRecv \<Longrightarrow> chan s = req # ch \<Longrightarrow> dstep s (dispatchRequest req (s\<lparr>chan := ch\<rparr>))"
| lock_resume: "main s = MLockWait w \<Longrightarrow> mainTid \<in> set (woken (pendingCond (disp s))) \<Longrightarrow>
    dstep s (afterLock w (Lock_resume mainTid (disp s)) s)"
| fetch_all: "main s = MFetchAll \<Longrightarrow> distinct rs \<Longrightarrow> dstep s (s\<lparr>main := MSending rs\<rparr>)"
| send: "main s = MSending (r # rs) \<Longrightarrow> sendRepo r (chan s) = Some ch \<Longrightarrow>
    dstep s (s\<lparr>chan := ch, main := MSending rs\<rparr>)"
| sent: "main s = MSending [] \<Longrightarrow> dstep s (s\<lparr>disp := Unlock (disp s), main := MRecv\<rparr>)"
| gc: "main s = MGarbageCollect \<Longrightarrow> dstep s (s\<lparr>disp := Unlock (disp s), main := MRecv\<rparr>)"
| take: "t < nWorkers \<Longrightarrow> worker s t = WIdle \<Longrightarrow> dstep s (workerTook t (Take_loop t n (disp s)) s)"
| take_resume: "t < nWorkers \<Longrightarrow> worker s t = WSleep \<Longrightarrow> t \<in> set (woken (readyCond (disp s))) \<Longrightarrow>
    dstep s (workerTook t (Take_resume t n (disp s)) s)"
| release: "t < nWorkers \<Longrightarrow> worker s t = WFetch r \<Longrightarrow> dstep s (workerRelease t r s)"

inductive dreach :: "dsys \<Rightarrow> bool" where
  init: "dreach dispatch_init"
| step: "dreach s \<Longrightarrow> dstep s s' \<Longrightarrow> dreach s'"


inductive_cases dstepE: "dstep s s'"

text \<open>The sends of \<^const>\<open>sendRepos\<close>, undisturbed, are steps of the main goroutine.\<close>

lemma sendRepos_steps:
  assumes "main s = MSending rs" "sendRepos rs (chan s) = (rest, ch)"
  shows "dstep\<^sup>*\<^sup>* s (s\<lparr>chan := ch, main := MSending rest\<rparr>)"
  using assms
proof (induction rs arbitrary: s)
  case Nil
  then have "s\<lparr>chan := ch, main := MSending rest\<rparr> = s" by (cases s) auto
  then show ?case by simp
next
  case (Cons r rs)
  show ?case
  proof (cases "sendRepo r (chan s)")
    case None
    then have "s = s\<lparr>chan := ch, main := MSending rest\<rparr>" using Cons.prems by auto
    then show ?thesis by simp
  next
    case (Some ch')
    then have "dstep s (s\<lparr>chan := ch', main := MSending rs\<rparr>)" using Cons.prems(1) by (rule dstep.send [rotated])
    then show ?thesis using Cons.IH [of "s\<lparr>chan := ch', main := MSending rs\<rparr>"] Cons.prems(2) Some
      by (auto intro: converse_rtranclp_into_rtranclp)
  qed
qed

subsection \<open>The invariant of the pool\<close>

definition hold :: "dsys \<Rightarrow> tid \<Rightarrow> string option" where
  "hold s t = (case worker s t of WFetch r \<Rightarrow> Some r | _ \<Rightarrow> None)"

definition sleepers :: "dsys \<Rightarrow> tid set" where
  "sleepers s = {t. t < nWorkers \<and> worker s t = WSleep}"

text \<open>Who may be asleep on \<^verbatim>\<open>pendingCond\<close>, and what the main goroutine knows in each of its states.\<close>

definition main_ok :: "dsys \<Rightarrow> bool" where
  "main_ok s \<longleftrightarrow>
     (locked (disp s) \<longleftrightarrow> main s \<noteq> MRecv) \<and>
     (case main s of
        MRecv \<Rightarrow> cond_threads (pendingCond (disp s)) = {#}
      | MLockWait w \<Rightarrow> cond_threads (pendingCond (disp s)) = {#mainTid#} \<and>
          (waiting (pendingCond (disp s)) \<noteq> [] \<longrightarrow> busy (disp s) \<noteq> {})
      | _ \<Rightarrow> cond_threads (pendingCond (disp s)) = {#} \<and> busy (disp s) = {})"

definition dinv :: "dsys \<Rightarrow> bool" where
  "dinv s \<longleftrightarrow> rdq.pool_ok (hold s) (disp s) \<and> wake_ok (disp s) \<and> \<not> panicked s \<and>
     (\<forall>t \<ge> nWorkers. worker s t = WIdle) \<and>
     cond_threads (readyCond (disp s)) = mset_set (sleepers s) \<and> main_ok s"

lemma dinvD:
  assumes "dinv s"
  shows "rd_inv (disp s)" "holders_ok (hold s) (busy (disp s))" "wake_ok (disp s)" "\<not> panicked s"
    "\<And>t. nWorkers \<le> t \<Longrightarrow> worker s t = WIdle" "cond_threads (readyCond (disp s)) = mset_set (sleepers s)"
    "main_ok s" "rdq.pool_ok (hold s) (disp s)"
  using assms by (auto simp: dinv_def rdq.pool_ok_def)

lemma hold_update [simp]:
  "hold (s\<lparr>disp := rd\<rparr>) = hold s" "hold (s\<lparr>chan := ch\<rparr>) = hold s" "hold (s\<lparr>main := m\<rparr>) = hold s"
  "hold (s\<lparr>disp := rd, worker := (worker s)(t := w)\<rparr>) =
     (hold s)(t := (case w of WFetch r \<Rightarrow> Some r | _ \<Rightarrow> None))"
  by (simp_all add: fun_eq_iff hold_def)

lemma sleepers_update [simp]:
  "sleepers (s\<lparr>disp := rd\<rparr>) = sleepers s" "sleepers (s\<lparr>chan := ch\<rparr>) = sleepers s"
  "sleepers (s\<lparr>main := m\<rparr>) = sleepers s"
  by (simp_all add: sleepers_def)

lemma finite_sleepers [simp]: "finite (sleepers s)"
  by (simp add: sleepers_def)

lemma sleepers_worker:
  assumes "t < nWorkers"
  shows "sleepers (s\<lparr>disp := rd, worker := (worker s)(t := w)\<rparr>) =
     (sleepers s - {t}) \<union> (if w = WSleep then {t} else {})"
  using assms by (auto simp: sleepers_def)

lemma not_sleeping: "worker s t \<noteq> WSleep \<Longrightarrow> t \<notin> sleepers s"
  by (simp add: sleepers_def)

lemma main_ok_chan [simp]: "main_ok (s\<lparr>chan := ch\<rparr>) = main_ok s"
  by (simp add: main_ok_def split: mstate.split)

lemma dinv_chan [simp]: "dinv (s\<lparr>chan := ch\<rparr>) = dinv s"
  by (simp add: dinv_def)

lemma dinv_init: "dinv dispatch_init"
proof -
  have h: "hold dispatch_init = (\<lambda>_. None)" by (auto simp: hold_def dispatch_init_def)
  have b: "busy NewRepoDispatcher = {}"
    by (auto simp: NewRepoDispatcher_def busy_def info_of_def)
  have "rdq.pool_ok (hold dispatch_init) (disp dispatch_init)"
    unfolding h rdq.pool_ok_def
    using rd_inv_NewRepoDispatcher holders_ok_empty b by (simp add: dispatch_init_def)
  then show ?thesis
    by (auto simp: dinv_def dispatch_init_def sleepers_def main_ok_def wake_ok_def
        NewRepoDispatcher_def new_cond_def cond_threads_def)
qed

lemma dinv_Add:
  assumes "dinv s" "main s = MRecv"
  shows "dinv (s\<lparr>disp := Add r low (disp s)\<rparr>)"
  using dinvD [OF assms(1)] assms(2) rdq.pool_add [OF dinvD(8) [OF assms(1)], of r low]
  by (auto simp: dinv_def wake_ok_Add main_ok_def Add_fields)

lemma dinv_afterLock:
  assumes "dinv s" "locked rd" "Lock_loop mainTid rd = lr" "disp s = rd0"
    "rd_inv rd" "busy rd = busy rd0" "readyCond rd = readyCond rd0"
    "cond_threads (pendingCond rd) = {#}"
  shows "dinv (afterLock w lr s)"
proof -
  obtain ok rd' where lr: "lr = (ok, rd')" by (cases lr)
  have L: "Lock_loop mainTid rd = (ok, rd')" using assms(3) lr by simp
  note r = Lock_loop_result [OF L assms(5)]
  have c: "pendingCond rd' = (if ok then pendingCond rd else cond_wait mainTid (pendingCond rd))"
    using L by (auto simp: Lock_loop_def split: if_splits)
  have "main_ok (afterLock w lr s)"
    using r c assms(2,8) by (auto simp: main_ok_def afterLock_def lr cond_threads_def cond_wait_def)
  moreover have "wake_ok rd'" using r assms(2) by (simp add: wake_ok_def)
  ultimately show ?thesis
    using dinvD [OF assms(1)] r assms(4,6,7)
    by (auto simp: dinv_def afterLock_def lr rdq.pool_ok_def)
qed


lemma dinv_took:
  assumes "dinv s" "t < nWorkers" "hold s t = None"
    and rd: "rd = (disp s)\<lparr>readyCond := c\<rparr>" and T: "Take_loop t n rd = (res, rd')"
    and c: "cond_threads c = mset_set (sleepers s - {t})" and w: "wake_ok rd'"
  shows "dinv (workerTook t (res, rd') s)"
proof -
  note d = dinvD [OF assms(1)]
  have p: "rdq.pool_ok (hold s) rd" using d(8) by (simp add: rd rdq.pool_ok_def)
  have i: "rd_inv rd" using d(1) by (simp add: rd)
  note inv = Take_loop_inv [OF i T]
  have other: "\<forall>u \<ge> nWorkers. ((worker s)(t := x)) u = WIdle" for x using d(5) assms(2) by auto
  have h: "(hold s)(t := None) = hold s" using assms(3) by auto
  show ?thesis
  proof (cases res)
    case None
    have T': "Take_loop t n rd = (None, rd')" using T None by simp
    have rd': "rd' = rd\<lparr>readyCond := cond_wait t c\<rparr>"
      using T None by (auto simp: rd Take_loop_def split: if_splits prod.splits)
    have "mset_set (insert t (sleepers s)) = add_mset t (mset_set (sleepers s - {t}))"
      by (rule mset_set.insert_remove) simp
    moreover have "main_ok (workerTook t (res, rd') s)"
      using d(7) by (auto simp: main_ok_def workerTook_def rd' rd split: mstate.splits)
    ultimately show ?thesis
      using rdq.pool_sleep [OF p T'] w d(4) other
      by (auto simp: dinv_def workerTook_def None sleepers_worker [OF assms(2)] h rd' c)
  next
    case (Some r)
    have T': "Take_loop t n rd = (Some r, rd')" using T Some by simp
    have sr: "\<not> locked rd" "readyCond rd' = readyCond rd"
      using T' takeReady_spec(7) [OF i]
      by (auto simp: Take_loop_def someReady_def split: if_splits prod.splits)
    have "main s = MRecv" using d(7) sr(1) by (simp add: main_ok_def rd)
    then have "main_ok (workerTook t (res, rd') s)"
      using d(7) inv sr by (auto simp: main_ok_def workerTook_def rd)
    then show ?thesis
      using rdq.pool_take [OF p assms(3) T'] w d(4) other sr
      by (auto simp: dinv_def workerTook_def Some sleepers_worker [OF assms(2)] rd c)
  qed
qed

lemma dinv_take:
  assumes "dinv s" "t < nWorkers" "worker s t = WIdle"
  shows "dinv (workerTook t (Take_loop t n (disp s)) s)"
proof -
  note d = dinvD [OF assms(1)]
  obtain res rd' where T: "Take_loop t n (disp s) = (res, rd')" by (cases "Take_loop t n (disp s)")
  have w: "wake_ok rd'" using Take_loop_inv(2) [OF d(1) T d(3)] .
  have "sleepers s - {t} = sleepers s" using not_sleeping [of s t] assms(3) by simp
  then show ?thesis
    using dinv_took [OF assms(1,2), of "disp s" "readyCond (disp s)" n res rd'] T w d(6) assms(3)
    by (simp add: hold_def)
qed

lemma dinv_take_resume:
  assumes "dinv s" "t < nWorkers" "worker s t = WSleep" "t \<in> set (woken (readyCond (disp s)))"
  shows "dinv (workerTook t (Take_resume t n (disp s)) s)"
proof -
  note d = dinvD [OF assms(1)]
  let ?c = "cond_resume t (readyCond (disp s))"
  obtain res rd' where T: "Take_resume t n (disp s) = (res, rd')" by (cases "Take_resume t n (disp s)")
  have w: "wake_ok rd'" using wake_ok_Take_resume [OF d(1,3) assms(4) T] .
  have "t \<in> sleepers s" using assms(2,3) by (simp add: sleepers_def)
  then have c: "cond_threads ?c = mset_set (sleepers s - {t})"
    using assms(4) d(6) by (simp add: mset_set_Diff)
  have T': "Take_loop t n ((disp s)\<lparr>readyCond := ?c\<rparr>) = (res, rd')"
    using T by (simp add: Take_resume_def)
  show ?thesis
    unfolding T by (rule dinv_took [OF assms(1,2) _ refl T' c w]) (simp add: hold_def assms(3))
qed

lemma dinv_release:
  assumes "dinv s" "t < nWorkers" "worker s t = WFetch r"
  shows "dinv (workerRelease t r s)"
proof -
  note d = dinvD [OF assms(1)]
  have h: "hold s t = Some r" using assms(3) by (simp add: hold_def)
  obtain rd' where R: "Release r (disp s) = Inr rd'"
    using rdq.pool_release_total [OF d(8) h] by blast
  note f = Release_fields [OF R]
  have b: "busy (disp s) \<noteq> {}" using f(2) by (auto simp: busy_def)
  have "cond_threads (pendingCond (disp s)) = {#mainTid#} \<Longrightarrow>
      waiting (cond_signal (pendingCond (disp s))) = []"
    by (auto simp: cond_threads_def cond_signal_def split: list.splits)
  then have m: "main_ok (workerRelease t r s)"
    using d(7) b by (auto simp: main_ok_def workerRelease_def R f(6,8) split: mstate.splits)
  have "sleepers s - {t} = sleepers s" using not_sleeping [of s t] assms(3) by simp
  then show ?thesis
    using rdq.pool_release [OF d(8) h R] wake_ok_Release [OF d(1,3) R] m d(4-6) assms(2)
    by (auto simp: dinv_def workerRelease_def R sleepers_worker f(11))
qed

lemma dinv_unlock:
  assumes "dinv s" "main s = MSending [] \<or> main s = MGarbageCollect"
  shows "dinv (s\<lparr>disp := Unlock (disp s), main := MRecv\<rparr>)"
proof -
  note d = dinvD [OF assms(1)] and u = Unlock_result [OF dinvD(1) [OF assms(1)]]
  have "cond_threads (readyCond (Unlock (disp s))) = cond_threads (readyCond (disp s))"
    by (simp add: Unlock_def Let_def)
  then show ?thesis
    using d u assms(2) by (auto simp: dinv_def main_ok_def rdq.pool_ok_def)
qed

lemma dinv_receive:
  assumes "dinv s" "main s = MRecv"
  shows "dinv (dispatchRequest req s)"
proof -
  note d = dinvD [OF assms(1)]
  have "cond_threads (pendingCond (disp s)) = {#}" using d(7) assms(2) by (simp add: main_ok_def)
  then have "dinv (afterLock w (Lock_enter mainTid (disp s)) s)" for w
    using dinv_afterLock [OF assms(1), of "(disp s)\<lparr>locked := True\<rparr>"] d(1)
    by (simp add: Lock_enter_def)
  then show ?thesis
    using dinv_Add [OF assms] assms(1) by (auto simp: dispatchRequest_def split: requestType.splits)
qed

lemma dinv_lock_resume:
  assumes "dinv s" "main s = MLockWait w" "mainTid \<in> set (woken (pendingCond (disp s)))"
  shows "dinv (afterLock w (Lock_resume mainTid (disp s)) s)"
proof -
  note d = dinvD [OF assms(1)]
  have "cond_threads (pendingCond (disp s)) = {#mainTid#}" "locked (disp s)"
    using d(7) assms(2) by (simp_all add: main_ok_def)
  then show ?thesis
    using dinv_afterLock [OF assms(1) _ refl refl, of "(disp s)\<lparr>pendingCond := cond_resume mainTid (pendingCond (disp s))\<rparr>"]
      d(1) assms(3)
    by (simp add: Lock_resume_def)
qed

lemma dinv_step: "dstep s s' \<Longrightarrow> dinv s \<Longrightarrow> dinv s'"
proof (induction rule: dstep.induct)
  case (receive s req ch)
  then show ?case using dinv_receive [of "s\<lparr>chan := ch\<rparr>" req] by simp
next
  case (fetch_all s rs)
  then show ?case by (auto simp: dinv_def main_ok_def)
next
  case (send s r rs ch)
  then show ?case by (auto simp: dinv_def main_ok_def)
qed (auto intro: dinv_lock_resume dinv_unlock dinv_take dinv_take_resume dinv_release)

lemma dreach_dinv: "dreach s \<Longrightarrow> dinv s"
  by (induction rule: dreach.induct) (auto intro: dinv_init dinv_step)


lemma locked_section:
  assumes "dreach s" "main s = MFetchAll \<or> main s = MGarbageCollect \<or> main s = MSending rs"
  shows "locked (disp s)" "worker s t \<noteq> WFetch r"
proof -
  note d = dinvD [OF dreach_dinv [OF assms(1)]]
  show "locked (disp s)" using d(7) assms(2) by (auto simp: main_ok_def)
  have "busy (disp s) = {}" using d(7) assms(2) by (auto simp: main_ok_def)
  then show "worker s t \<noteq> WFetch r" using rdq.pool_idle [OF d(8), of t] by (auto simp: hold_def)
qed

lemma dreach_cap: "dreach s \<Longrightarrow> length (chan s) \<le> channelCap"
proof (induction rule: dreach.induct)
  case (step s s')
  from step(2,3) show ?case
    by (cases rule: dstep.cases)
      (auto simp: chan_ops dispatchRequest_def afterLock_def workerTook_def workerRelease_def
        split: if_splits requestType.splits sum.splits)
qed (simp add: dispatch_init_def)

text \<open>More repositories left to send than the channel has room for.\<close>

definition overfull :: "dsys \<Rightarrow> bool" where
  "overfull s \<longleftrightarrow> (\<exists>rs. main s = MSending rs \<and> channelCap < length (chan s) + length rs)"

lemma overfull_step:
  assumes "dstep s s'" "dreach s" "overfull s"
  shows "overfull s'"
  using assms(1,3) dreach_cap [OF assms(2)]
  by (cases rule: dstep.cases)
    (auto simp: overfull_def chan_ops workerTook_def workerRelease_def split: if_splits sum.splits)

lemma overfull_steps: "dstep\<^sup>*\<^sup>* s s' \<Longrightarrow> dreach s \<Longrightarrow> overfull s \<Longrightarrow> dreach s' \<and> overfull s'"
  by (induction rule: rtranclp_induct) (auto intro: dreach.step overfull_step)

subsection \<open>Example runs\<close>

text \<open>A repository is requested, the main loop adds it, worker 0 takes it; and a full fetch that
  found 101 repositories.\<close>

definition ex_requested :: dsys where
  "ex_requested = dispatchRequest \<lparr>which = requestFetchRepository, repository = ''foo'', reqLowPriority = False\<rparr>
     (dispatch_init\<lparr>chan := []\<rparr>)"

definition ex_fetching :: dsys where
  "ex_fetching = workerTook 0 (Take_loop 0 0 (disp ex_requested)) ex_requested"

definition exNames :: "string list" where
  "exNames = map (\<lambda>n. replicate (Suc n) CHR ''a'') [0..<101]"

lemma exNames: "distinct exNames" "length exNames = 101"
  by (auto simp: exNames_def distinct_map inj_on_def dest: arg_cong [of _ _ length])

definition ex_sending :: dsys where
  "ex_sending = (dispatchRequest \<lparr>which = requestFetchAll, repository = [], reqLowPriority = False\<rparr>
     (dispatch_init\<lparr>chan := []\<rparr>))\<lparr>main := MSending exNames\<rparr>"

lemma dreach_request:
  assumes "dstep dispatch_init (dispatch_init\<lparr>chan := [req]\<rparr>)"
  shows "dreach (dispatchRequest req (dispatch_init\<lparr>chan := []\<rparr>))"
proof -
  have "dreach (dispatch_init\<lparr>chan := [req]\<rparr>)"
    by (rule dreach.step [OF dreach.init assms])
  moreover have "dstep (dispatch_init\<lparr>chan := [req]\<rparr>)
      (dispatchRequest req ((dispatch_init\<lparr>chan := [req]\<rparr>)\<lparr>chan := []\<rparr>))"
    by (rule dstep.receive) (simp_all add: dispatch_init_def)
  ultimately show ?thesis using dreach.step by fastforce
qed

lemma dreach_ex_requested: "dreach ex_requested"
  unfolding ex_requested_def
  by (rule dreach_request, rule dstep.request_repo [of "''foo''"])
    (simp add: chan_ops channelCap_def dispatch_init_def)

lemma dstep_ex_fetching: "dstep ex_requested ex_fetching"
  unfolding ex_fetching_def
  by (rule dstep.take) (simp_all add: nWorkers_def ex_requested_def dispatchRequest_def dispatch_init_def)

lemma dreach_ex_fetching: "dreach ex_fetching"
  by (rule dreach.step [OF dreach_ex_requested dstep_ex_fetching])

lemma dreach_ex_sending: "dreach ex_sending"
proof -
  let ?s = "dispatchRequest \<lparr>which = requestFetchAll, repository = [], reqLowPriority = False\<rparr>
     (dispatch_init\<lparr>chan := []\<rparr>)"
  have "dreach ?s"
    by (rule dreach_request, rule dstep.request_all)
      (simp add: chan_ops channelCap_def dispatch_init_def)
  moreover have "main ?s = MFetchAll"
    by (simp add: dispatchRequest_def afterLock_def Lock_enter_def Lock_loop_def dispatch_init_def
        NewRepoDispatcher_def)
  ultimately show ?thesis unfolding ex_sending_def using dreach.step dstep.fetch_all exNames(1) by blast
qed

lemma ex_facts:
  "worker ex_fetching 0 = WFetch ''foo''" "main ex_requested = MRecv"
  "wanted (disp ex_requested) ''foo'' = Some High" "busy (disp ex_requested) = {}"
  "main ex_sending = MSending exNames" "chan ex_sending = []"
proof -
  show "worker ex_fetching 0 = WFetch ''foo''" by code_simp
  show "main ex_requested = MRecv" by code_simp
  show "wanted (disp ex_requested) ''foo'' = Some High" by code_simp
  show "main ex_sending = MSending exNames" by (simp add: ex_sending_def)
  show "chan ex_sending = []"
    by (simp add: ex_sending_def dispatchRequest_def afterLock_def dispatch_init_def)
  show "busy (disp ex_requested) = {}"
    using busy_Add [OF rd_inv_NewRepoDispatcher]
    by (simp add: ex_requested_def dispatchRequest_def dispatch_init_def)
      (simp add: busy_def NewRepoDispatcher_def info_of_def)
qed

lemma ex_ready: "''foo'' \<in> ready (disp ex_requested)"
  by (simp add: ready_def ex_facts)

subsection \<open>What the dispatch loop guarantees\<close>

text \<open>
  C5. No two workers ever fetch the same repository at the same time.
\<close>

theorem dispatch_exclusive:
  assumes "dreach s" "worker s t = WFetch r" "worker s u = WFetch r"
  shows "t = u"
  using rdq.pool_exclusive [OF dinvD(8) [OF dreach_dinv [OF assms(1)]], of t r u] assms(2,3)
  by (simp add: hold_def)

theorem dispatch_exclusive_witness:
  "\<exists>t. worker ex_fetching t = WFetch ''foo'' \<and> t = 0"
  using dispatch_exclusive [OF dreach_ex_fetching ex_facts(1) ex_facts(1)] ex_facts(1) by simp

text \<open>
  C13. While the main goroutine is inside \<^verbatim>\<open>fetchAll\<close> or \<^verbatim>\<open>garbageCollect\<close>, that is between the return of
  \<^verbatim>\<open>Lock\<close> and the call of \<^verbatim>\<open>Unlock\<close>, no worker is fetching, and none can start to.
\<close>

theorem dispatch_section:
  assumes "dreach s" "main s = MFetchAll \<or> main s = MGarbageCollect \<or> main s = MSending rs"
  shows "worker s t \<noteq> WFetch r \<and> fst (Take_loop t n (disp s)) = None"
  using locked_section [OF assms] by (simp add: Take_loop_def someReady_def)

theorem dispatch_section_witness:
  "main ex_sending = MSending exNames \<and> fst (Take_loop 0 0 (disp ex_sending)) = None"
  using dispatch_section [OF dreach_ex_sending, of exNames 0 "''foo''" 0] ex_facts(5)
  by simp

text \<open>
  C29. The panic of \<^verbatim>\<open>Release\<close> is unreachable: no run of the dispatch loop panics.
\<close>

theorem dispatch_no_panic:
  assumes "dreach s"
  shows "\<not> panicked s"
  using dinvD(4) [OF dreach_dinv [OF assms]] .

theorem dispatch_no_panic_witness: "\<not> panicked ex_fetching"
  by (rule dispatch_no_panic [OF dreach_ex_fetching])

text \<open>
  C12. No wake-up is lost. While the dispatcher is not locked, a worker may be left asleep without a notification only when at least as many
  other sleeping workers have been notified as repositories are ready: no repository waits beside a worker that nobody wakes.
  And while the main goroutine waits in \<^verbatim>\<open>Lock\<close>, some worker is still fetching or the main goroutine has been notified.
\<close>

theorem dispatch_no_lost_wakeup:
  assumes "dreach s"
  shows "(main s = MRecv \<and> t \<in> sleepers s \<and> t \<notin> set (woken (readyCond (disp s))) \<longrightarrow>
            card (ready (disp s)) \<le> card {u \<in> sleepers s. u \<in> set (woken (readyCond (disp s)))}) \<and>
         (main s = MLockWait w \<longrightarrow>
            (\<exists>t r. worker s t = WFetch r) \<or> mainTid \<in> set (woken (pendingCond (disp s))))"
proof (intro conjI impI)
  note d = dinvD [OF dreach_dinv [OF assms]]
  let ?c = "readyCond (disp s)"
  assume a: "main s = MRecv \<and> t \<in> sleepers s \<and> t \<notin> set (woken ?c)"
  have "\<not> locked (disp s)" using d(7) a by (simp add: main_ok_def)
  have all: "mset (waiting ?c) + mset (woken ?c) = mset_set (sleepers s)" using d(6) by (simp add: cond_threads_def)
  have set: "set (waiting ?c) \<union> set (woken ?c) = sleepers s"
    using arg_cong [OF all, of set_mset] by simp
  have "count (mset (woken ?c)) x \<le> count (mset_set (sleepers s)) x" for x unfolding all [symmetric] by simp
  then have "count (mset (woken ?c)) x \<le> 1" for x by (metis count_mset_set' le_trans le_numeral_extra(4) zero_le)
  then have dist: "distinct (woken ?c)"
    by (metis count_mset distinct_count_atmost_1 count_greater_eq_one_iff count_inI le_antisym set_mset_mset not_in_iff)
  have "waiting ?c \<noteq> []" using a set by auto
  then have "card (ready (disp s)) \<le> length (woken ?c)" using d(3) \<open>\<not> locked (disp s)\<close> by (auto simp: wake_ok_def)
  also have "\<dots> = card (set (woken ?c))" using dist by (simp add: distinct_card)
  also have "set (woken ?c) = {u \<in> sleepers s. u \<in> set (woken ?c)}" using set by auto
  finally show "card (ready (disp s)) \<le> card {u \<in> sleepers s. u \<in> set (woken ?c)}" .
next
  note d = dinvD [OF dreach_dinv [OF assms]]
  assume "main s = MLockWait w"
  then have m: "cond_threads (pendingCond (disp s)) = {#mainTid#}"
    "waiting (pendingCond (disp s)) \<noteq> [] \<longrightarrow> busy (disp s) \<noteq> {}"
    using d(7) by (auto simp: main_ok_def)
  show "(\<exists>t r. worker s t = WFetch r) \<or> mainTid \<in> set (woken (pendingCond (disp s)))"
  proof (cases "waiting (pendingCond (disp s))")
    case Nil
    then show ?thesis using m(1) by (auto simp: cond_threads_def)
  next
    case (Cons x xs)
    then obtain r where "r \<in> ran (hold s)" using m(2) d(2) by (auto simp: holders_ok_def)
    then obtain t where "hold s t = Some r" by (auto simp: ran_def)
    then show ?thesis by (cases "worker s t") (auto simp: hold_def)
  qed
qed

text \<open>Two workers sleep, a repository is added: one of them is notified and the other sleeps on.\<close>

definition ex_asleep :: dsys where
  "ex_asleep = workerTook 1 (Take_loop 1 0 (disp (workerTook 0 (Take_loop 0 0 (disp dispatch_init)) dispatch_init)))
     (workerTook 0 (Take_loop 0 0 (disp dispatch_init)) dispatch_init)"

definition ex_notified :: dsys where
  "ex_notified = dispatchRequest \<lparr>which = requestFetchRepository, repository = ''foo'', reqLowPriority = False\<rparr> (ex_asleep\<lparr>chan := []\<rparr>)"

lemma dreach_ex_notified: "dreach ex_notified"
proof -
  let ?s = "workerTook 0 (Take_loop 0 0 (disp dispatch_init)) dispatch_init"
  have "dreach ?s"
    by (rule dreach.step [OF dreach.init dstep.take]) (simp_all add: dispatch_init_def nWorkers_def)
  then have a: "dreach ex_asleep" unfolding ex_asleep_def
    by (rule dreach.step [OF _ dstep.take]) (simp_all add: dispatch_init_def nWorkers_def workerTook_def)
  have m: "main ex_asleep = MRecv" "chan ex_asleep = []"
    by (simp_all add: ex_asleep_def workerTook_def dispatch_init_def)
  have "dstep ex_asleep (ex_asleep\<lparr>chan := [\<lparr>which = requestFetchRepository, repository = ''foo'', reqLowPriority = False\<rparr>]\<rparr>)"
    by (rule dstep.request_repo [of "''foo''"]) (simp add: chan_ops channelCap_def m)
  then have "dreach (ex_asleep\<lparr>chan := [\<lparr>which = requestFetchRepository, repository = ''foo'', reqLowPriority = False\<rparr>]\<rparr>)"
    by (rule dreach.step [OF a])
  moreover have "dstep (ex_asleep\<lparr>chan := [\<lparr>which = requestFetchRepository, repository = ''foo'', reqLowPriority = False\<rparr>]\<rparr>)
      (dispatchRequest \<lparr>which = requestFetchRepository, repository = ''foo'', reqLowPriority = False\<rparr>
        ((ex_asleep\<lparr>chan := [\<lparr>which = requestFetchRepository, repository = ''foo'', reqLowPriority = False\<rparr>]\<rparr>)\<lparr>chan := []\<rparr>))"
    by (rule dstep.receive) (simp_all add: m)
  ultimately show ?thesis unfolding ex_notified_def using dreach.step by fastforce
qed

theorem dispatch_no_lost_wakeup_witness:
  "1 \<in> sleepers ex_notified \<and> 1 \<notin> set (woken (readyCond (disp ex_notified))) \<and>
   card (ready (disp ex_notified)) \<le> card {u \<in> sleepers ex_notified. u \<in> set (woken (readyCond (disp ex_notified)))}"
proof -
  have "main ex_notified = MRecv" by code_simp
  moreover have "worker ex_notified 1 = WSleep" by code_simp
  then have "1 \<in> sleepers ex_notified" by (simp add: sleepers_def nWorkers_def)
  moreover have "1 \<notin> set (woken (readyCond (disp ex_notified)))" by code_simp
  ultimately show ?thesis using dispatch_no_lost_wakeup [OF dreach_ex_notified, of 1 requestFetchAll] by blast
qed

text \<open>
  C28. No request is lost: a repository that is wanted stays wanted until a worker fetches it.
\<close>

theorem dispatch_request_kept:
  assumes "dreach s" "dstep s s'" "wanted (disp s) r \<noteq> None"
  shows "wanted (disp s') r \<noteq> None \<or> (\<exists>t. worker s' t = WFetch r)"
proof -
  have i: "rd_inv (disp s)" using dinvD(1) [OF dreach_dinv [OF assms(1)]] .
  have took: "Take_loop t n rd = tr \<Longrightarrow> rd_inv rd \<Longrightarrow> wanted rd r \<noteq> None \<Longrightarrow>
      wanted (disp (workerTook t tr s)) r \<noteq> None \<or> (\<exists>u. worker (workerTook t tr s) u = WFetch r)"
    for t n rd tr
    using rdq.wanted_kept [of rd r t n "fst tr" "snd tr"] by (auto simp: workerTook_def)
  have lock: "wanted (disp (afterLock w (Lock_loop mainTid rd) s)) r \<noteq> None"
    if "wanted rd r \<noteq> None" for w rd and s :: dsys
    using that by (auto simp: afterLock_def Lock_loop_def)
  show ?thesis
    using assms(2)
  proof (cases rule: dstep.cases)
    case (receive req ch)
    then show ?thesis using assms(3) lock wanted_Add [OF i]
      by (auto simp: dispatchRequest_def Lock_enter_def split: requestType.splits)
  next
    case (lock_resume w)
    then show ?thesis using assms(3) lock by (auto simp: Lock_resume_def)
  next
    case (take t n)
    then show ?thesis using took [OF refl i assms(3)] by simp
  next
    case (take_resume t n)
    then show ?thesis using took [OF refl, of "(disp s)\<lparr>readyCond := cond_resume t (readyCond (disp s))\<rparr>" t n]
        i assms(3) by (simp add: Take_resume_def)
  next
    case (release t x)
    then show ?thesis using assms(3) wanted_Release [OF i, of x]
      by (auto simp: workerRelease_def split: sum.splits)
  qed (use assms(3) Unlock_result(2) [OF i] in auto)
qed

theorem dispatch_request_kept_witness:
  "wanted (disp ex_requested) ''foo'' = Some High \<and> (\<exists>t. worker ex_fetching t = WFetch ''foo'')"
proof -
  have "wanted (disp ex_fetching) ''foo'' = None" by code_simp
  then show ?thesis
    using dispatch_request_kept [OF dreach_ex_requested dstep_ex_fetching, of "''foo''"] ex_facts(3)
    by simp
qed

text \<open>
  C31. The request channel can block its own reader. \<^verbatim>\<open>fetchAll\<close> runs in the goroutine that drains the
  channel; once it has more repositories left to send than the channel has room for, it never
  finishes: the dispatcher stays locked and no repository is ever fetched again.
\<close>

theorem fetchAll_self_deadlock:
  assumes "dreach s" "main s = MSending rs" "channelCap < length (chan s) + length rs"
    and "dstep\<^sup>*\<^sup>* s s'"
  shows "(\<exists>r rs'. main s' = MSending (r # rs')) \<and> locked (disp s') \<and> (\<forall>t r. worker s' t \<noteq> WFetch r)"
proof -
  have r: "dreach s'" and o: "overfull s'"
    using overfull_steps [OF assms(4,1)] assms(2,3) by (auto simp: overfull_def)
  obtain r rs' where m: "main s' = MSending (r # rs')"
    using o dreach_cap [OF r] by (auto simp: overfull_def) (metis add_0_right linorder_not_le list.size(3) neq_Nil_conv)
  then show ?thesis using locked_section [OF r, of "r # rs'"] by simp
qed

theorem fetchAll_self_deadlock_witness:
  "dstep\<^sup>*\<^sup>* ex_sending ex_sending \<and> locked (disp ex_sending) \<and>
   (\<exists>r rs'. main ex_sending = MSending (r # rs'))"
  using fetchAll_self_deadlock [OF dreach_ex_sending ex_facts(5), of ex_sending] ex_facts(6)
  by (simp add: channelCap_def exNames(2))

end
