(* ===== verification/GoText.thy ===== *)
theory GoText
  imports Prelude
begin

section \<open>Go strings: runes and decimal numbers\<close>

text \<open>
  A Go string is a list of bytes. \<^verbatim>\<open>for _, c := range s\<close> decodes UTF-8: \<open>runes s\<close> lists the
  characters it visits, each as the bytes that \<^verbatim>\<open>string(c)\<close> gives back. A byte that does not start a
  valid encoding is visited as U+FFFD. \<open>itoa\<close> is \<^verbatim>\<open>strconv.Itoa\<close> on natural numbers.
\<close>

subsection \<open>UTF-8\<close>

abbreviation byte :: "char \<Rightarrow> nat" where
  "byte c \<equiv> of_char c"

definition within :: "nat \<Rightarrow> nat \<Rightarrow> char \<Rightarrow> bool" where
  "within lo hi c \<longleftrightarrow> lo \<le> byte c \<and> byte c \<le> hi"

text \<open>The range allowed for the second byte, after a given first byte of a multi-byte encoding.\<close>

definition second_ok :: "nat \<Rightarrow> char \<Rightarrow> bool" where
  "second_ok b c =
     (if b = 224 then within 160 191 c else if b = 237 then within 128 159 c
      else if b = 240 then within 144 191 c else if b = 244 then within 128 143 c
      else within 128 191 c)"

text \<open>The number of bytes of the character at the front, \<open>0\<close> where there is no valid encoding.\<close>

fun rune_size :: "string \<Rightarrow> nat" where
  "rune_size [] = 0"
| "rune_size (a # s) =
     (if byte a < 128 then 1
      else if 194 \<le> byte a \<and> byte a \<le> 223 then
        (case s of b # _ \<Rightarrow> if second_ok (byte a) b then 2 else 0 | _ \<Rightarrow> 0)
      else if 224 \<le> byte a \<and> byte a \<le> 239 then
        (case s of b # c # _ \<Rightarrow> if second_ok (byte a) b \<and> within 128 191 c then 3 else 0 | _ \<Rightarrow> 0)
      else if 240 \<le> byte a \<and> byte a \<le> 244 then
        (case s of b # c # d # _ \<Rightarrow>
           if second_ok (byte a) b \<and> within 128 191 c \<and> within 128 191 d then 4 else 0 | _ \<Rightarrow> 0)
      else 0)"

definition replacementChar :: string where
  "replacementChar = map char_of [239 :: nat, 191, 189]"

lemma rune_size_le: "rune_size s \<le> length s"
  by (induction s rule: rune_size.induct) (auto split: list.splits)

function runes :: "string \<Rightarrow> string list" where
  "runes [] = []"
| "runes (a # s) =
     (let n = rune_size (a # s)
      in if n = 0 then replacementChar # runes s
         else take n (a # s) # runes (drop n (a # s)))"
  by pat_completeness auto
termination
  by (relation "measure length") auto

declare runes.simps(2) [simp del]

definition is_rune :: "string \<Rightarrow> bool" where
  "is_rune c \<longleftrightarrow> c \<noteq> [] \<and> rune_size c = length c"

lemma rune_size_append: "is_rune c \<Longrightarrow> rune_size (c @ s) = length c"
  by (cases c) (auto simp: is_rune_def split: if_splits list.splits)

lemma runes_append: "is_rune c \<Longrightarrow> runes (c @ s) = c # runes s"
  using rune_size_append [of c s]
  by (cases c) (auto simp: is_rune_def runes.simps(2) Let_def simp del: rune_size.simps)

lemma is_rune_replacement: "is_rune replacementChar"
  by (simp add: is_rune_def replacementChar_def second_ok_def within_def)

lemma is_rune_take:
  assumes "rune_size (a # s) \<noteq> 0"
  shows "is_rune (take (rune_size (a # s)) (a # s))"
  using assms by (auto simp: is_rune_def split: if_splits list.splits)

lemma runes_are_runes: "c \<in> set (runes s) \<Longrightarrow> is_rune c"
proof (induction s rule: runes.induct)
  case (2 a s)
  then show ?case
    using is_rune_replacement is_rune_take [of a s]
    by (auto simp: runes.simps(2) Let_def simp del: rune_size.simps split: if_splits)
qed simp

text \<open>Encoding characters and reading them back.\<close>

lemma runes_concat: "list_all is_rune cs \<Longrightarrow> runes (concat cs) = cs"
  by (induction cs) (auto simp: runes_append)

lemma runes_runes: "runes (concat (runes s)) = runes s"
  using runes_are_runes by (intro runes_concat) (simp add: list_all_iff)

lemma is_rune_ascii: "byte a < 128 \<Longrightarrow> is_rune [a]"
  by (simp add: is_rune_def)

subsection \<open>Decimal numbers\<close>

definition digit :: "nat \<Rightarrow> char" where
  "digit d = char_of (48 + d)"

fun itoa :: "nat \<Rightarrow> string" where
  "itoa n = (if n < 10 then [digit n] else itoa (n div 10) @ [digit (n mod 10)])"

declare itoa.simps [simp del]

definition is_digit :: "char \<Rightarrow> bool" where
  "is_digit c \<longleftrightarrow> within 48 57 c"

text \<open>Reading digits from the front of a text.\<close>

fun read_nat :: "nat \<Rightarrow> string \<Rightarrow> nat \<times> string" where
  "read_nat acc [] = (acc, [])"
| "read_nat acc (c # s) =
     (if is_digit c then read_nat (10 * acc + (byte c - 48)) s else (acc, c # s))"

lemma digit_is_digit: "d < 10 \<Longrightarrow> is_digit (digit d)" "d < 10 \<Longrightarrow> byte (digit d) = 48 + d"
  by (simp_all add: digit_def is_digit_def within_def)

lemma read_nat_itoa_acc:
  "\<exists>k. \<forall>acc s. read_nat acc (itoa n @ s) = read_nat (acc * 10 ^ k + n) s"
proof (induction n rule: itoa.induct)
  case (1 n)
  show ?case
  proof (cases "n < 10")
    case True
    then have "read_nat acc (itoa n @ s) = read_nat (acc * 10 ^ 1 + n) s" for acc s
      by (simp add: itoa.simps [of n] digit_is_digit mult.commute)
    then show ?thesis by blast
  next
    case False
    then obtain k where k: "\<And>acc s. read_nat acc (itoa (n div 10) @ s) = read_nat (acc * 10 ^ k + n div 10) s"
      using "1.IH" by blast
    have "read_nat acc (itoa n @ s) = read_nat (acc * 10 ^ Suc k + n) s" for acc s
      using False by (simp add: itoa.simps [of n] k digit_is_digit algebra_simps)
    then show ?thesis by blast
  qed
qed

lemma read_nat_itoa:
  assumes "s = [] \<or> \<not> is_digit (hd s)"
  shows "read_nat 0 (itoa n @ s) = (n, s)"
proof -
  obtain k where "read_nat 0 (itoa n @ s) = read_nat (0 * 10 ^ k + n) s"
    using read_nat_itoa_acc by blast
  then show ?thesis using assms by (cases s) auto
qed

lemma itoa_nonempty [simp]: "itoa n \<noteq> []"
  by (simp add: itoa.simps [of n])

lemma itoa_digits: "c \<in> set (itoa n) \<Longrightarrow> is_digit c"
proof (induction n rule: itoa.induct)
  case (1 n)
  then show ?case
    by (cases "n < 10") (auto simp: itoa.simps [of n] digit_is_digit)
qed

subsection \<open>Joining texts\<close>

fun join :: "string \<Rightarrow> string list \<Rightarrow> string" where
  "join sep [] = []"
| "join sep [x] = x"
| "join sep (x # y # xs) = x @ sep @ join sep (y # xs)"

lemma join_snoc: "xs \<noteq> [] \<Longrightarrow> join sep (xs @ [y]) = join sep xs @ sep @ y"
  by (induction sep xs rule: join.induct) auto

lemma join_Cons: "join sep (x # xs) = x @ concat (map ((@) sep) xs)"
  by (induction xs arbitrary: x) auto

end
