(* ===== verification/GoStrings.thy ===== *)
theory GoStrings
  imports GoText
begin

section \<open>The functions of package strings that the web interface uses\<close>

text \<open>White space is what \<^verbatim>\<open>unicode.IsSpace\<close> accepts, each character as its UTF-8 bytes.\<close>

definition spaceRunes :: "string list" where
  "spaceRunes = map (map char_of)
     [[9 :: nat], [10], [11], [12], [13], [32], [194, 133], [194, 160], [225, 154, 128], [226, 128, 128], [226, 128, 129],
      [226, 128, 130], [226, 128, 131], [226, 128, 132], [226, 128, 133], [226, 128, 134], [226, 128, 135], [226, 128, 136],
      [226, 128, 137], [226, 128, 138], [226, 128, 168], [226, 128, 169], [226, 128, 175], [226, 129, 159], [227, 128, 128]]"

definition spaceAt :: "string \<Rightarrow> bool" where
  "spaceAt s \<longleftrightarrow> 0 < rune_size s \<and> take (rune_size s) s \<in> set spaceRunes"

function trimLeft :: "string \<Rightarrow> string" where
  "trimLeft s = (if spaceAt s then trimLeft (drop (rune_size s) s) else s)"
  by pat_completeness auto
termination
proof (relation "measure length", simp)
  fix s assume "spaceAt s"
  then have "0 < rune_size s" by (simp add: spaceAt_def)
  then show "(drop (rune_size s) s, s) \<in> measure length" using rune_size_le [of s] by (simp del: rune_size.simps)
qed

declare trimLeft.simps [simp del]

lemma spaceRunes_nonempty: "[] \<notin> set spaceRunes"
  by (simp add: spaceRunes_def)

text \<open>A text ends in a white space character exactly when it ends in its bytes.\<close>

definition endSpace :: "string \<Rightarrow> string option" where
  "endSpace s = find (\<lambda>r. drop (length s - length r) s = r) spaceRunes"

lemma endSpace_some: "endSpace s = Some r \<Longrightarrow> r \<noteq> [] \<and> length r \<le> length s"
proof -
  assume "endSpace s = Some r"
  then have r: "drop (length s - length r) s = r" "r \<in> set spaceRunes"
    unfolding endSpace_def find_Some_iff by (auto intro: nth_mem)
  have "length r = length s - (length s - length r)" using r(1) by (metis length_drop)
  then show ?thesis using r(2) spaceRunes_nonempty by (cases r) auto
qed

function trimRight :: "string \<Rightarrow> string" where
  "trimRight s = (case endSpace s of None \<Rightarrow> s | Some r \<Rightarrow> trimRight (take (length s - length r) s))"
  by pat_completeness auto
termination
proof (relation "measure length", simp)
  fix s r assume "endSpace s = Some r"
  from endSpace_some [OF this] show "(take (length s - length r) s, s) \<in> measure length" by (cases s) auto
qed

declare trimRight.simps [simp del]

definition TrimSpace :: "string \<Rightarrow> string" where
  "TrimSpace s = trimRight (trimLeft s)"

text \<open>\<^verbatim>\<open>strings.Fields\<close>: \<open>cur\<close> is the field being read.\<close>

function fields_loop :: "string \<Rightarrow> string \<Rightarrow> string list" where
  "fields_loop cur s =
     (if s = [] then (if cur = [] then [] else [cur])
      else if spaceAt s then (if cur = [] then [] else [cur]) @ fields_loop [] (drop (rune_size s) s)
      else let n = max 1 (rune_size s) in fields_loop (cur @ take n s) (drop n s))"
  by pat_completeness auto
termination
  by (relation "measure (\<lambda>(cur, s). length s)") (auto simp: spaceAt_def)

declare fields_loop.simps [simp del]

definition Fields :: "string \<Rightarrow> string list" where
  "Fields s = fields_loop [] s"

definition HasPrefix :: "string \<Rightarrow> string \<Rightarrow> bool" where
  "HasPrefix s p \<longleftrightarrow> take (length p) s = p"

definition TrimPrefix :: "string \<Rightarrow> string \<Rightarrow> string" where
  "TrimPrefix s p = (if HasPrefix s p then drop (length p) s else s)"

definition HasSuffix :: "string \<Rightarrow> string \<Rightarrow> bool" where
  "HasSuffix s p \<longleftrightarrow> length p \<le> length s \<and> drop (length s - length p) s = p"

definition TrimSuffix :: "string \<Rightarrow> string \<Rightarrow> string" where
  "TrimSuffix s p = (if HasSuffix s p then take (length s - length p) s else s)"

subsection \<open>Visible texts\<close>

text \<open>Printable ASCII has no white space in it.\<close>

definition visible :: "char \<Rightarrow> bool" where
  "visible c \<longleftrightarrow> 32 < byte c \<and> byte c < 127"

lemma spaceRunes_visible: "list_all (\<lambda>r. \<not> visible (hd r) \<and> \<not> visible (last r)) spaceRunes"
  by (simp add: spaceRunes_def visible_def)

lemma visible_rune: "visible c \<Longrightarrow> rune_size (c # s) = 1"
  by (simp add: visible_def)

lemma not_spaceAt_visible: "visible c \<Longrightarrow> \<not> spaceAt (c # s)"
  using spaceRunes_visible by (auto simp: spaceAt_def visible_rune list_all_iff)

lemma endSpace_visible:
  assumes "s \<noteq> []" "visible (last s)"
  shows "endSpace s = None"
proof (rule ccontr)
  assume "endSpace s \<noteq> None"
  then obtain r where e: "endSpace s = Some r" by blast
  then have r: "drop (length s - length r) s = r" "r \<in> set spaceRunes"
    unfolding endSpace_def find_Some_iff by (auto intro: nth_mem)
  have "r \<noteq> []" using endSpace_some [OF e] by simp
  then have "length s - length r < length s" using assms(1) by (cases r; cases s) auto
  then have "last r = last s" using r(1) by (metis last_drop)
  then show False using r(2) spaceRunes_visible assms(2) by (auto simp: list_all_iff)
qed

lemma TrimSpace_visible: "s \<noteq> [] \<Longrightarrow> visible (hd s) \<Longrightarrow> visible (last s) \<Longrightarrow> TrimSpace s = s"
  using not_spaceAt_visible [of "hd s" "tl s"] endSpace_visible [of s]
  by (simp add: TrimSpace_def trimLeft.simps [of s] trimRight.simps [of s])

lemma fields_visible: "\<forall>c \<in> set f. visible c \<Longrightarrow> fields_loop cur (f @ s) = fields_loop (cur @ f) s"
proof (induction f arbitrary: cur)
  case (Cons c f)
  then show ?case using not_spaceAt_visible [of c "f @ s"] visible_rune [of c "f @ s"]
    by (subst fields_loop.simps) (simp del: rune_size.simps)
qed simp

lemma spaceAt_blank: "spaceAt (CHR '' '' # s)" "rune_size (CHR '' '' # s) = 1"
proof -
  have "char_of (32 :: nat) = CHR '' ''" by code_simp
  then show "spaceAt (CHR '' '' # s)" "rune_size (CHR '' '' # s) = 1" by (simp_all add: spaceAt_def spaceRunes_def)
qed

lemma Fields_Nil [simp]: "Fields [] = []"
  by (simp add: Fields_def fields_loop.simps [of "[]" "[]"])

lemma Fields_one: "a \<noteq> [] \<Longrightarrow> \<forall>c \<in> set a. visible c \<Longrightarrow> Fields a = [a]"
  using fields_visible [of a "[]" "[]"] by (simp add: Fields_def fields_loop.simps [of a "[]"])

text \<open>Two visible fields with a blank between them.\<close>

lemma Fields_two:
  assumes "a \<noteq> []" "b \<noteq> []" "\<forall>c \<in> set a. visible c" "\<forall>c \<in> set b. visible c"
  shows "Fields (a @ '' '' @ b) = [a, b]"
proof -
  have "Fields (a @ '' '' @ b) = fields_loop a (CHR '' '' # b)"
    using fields_visible [OF assms(3), of "[]" "CHR '' '' # b"] by (simp add: Fields_def)
  also have "\<dots> = [a] @ fields_loop [] b"
    using assms(1) spaceAt_blank [of b] by (subst fields_loop.simps) (simp del: rune_size.simps)
  also have "\<dots> = [a, b]"
    using fields_visible [OF assms(4), of "[]" "[]"] assms(2) by (simp add: fields_loop.simps [of b "[]"])
  finally show ?thesis .
qed

end
