(* ===== verification/Regex.thy ===== *)
theory Regex
  imports GoText
begin

section \<open>Regular expressions as the regexp package runs them\<close>

text \<open>
  Go's \<^verbatim>\<open>regexp\<close> returns the match that a backtracking search would find first. \<open>matches\<close> lists the ways an
  expression matches at the front of a text in the order of that search; each way is the text that is left and the
  bounds of the group. The expressions of the program have one group, do not repeat an empty match, and
  treat all bytes of a character outside ASCII alike, so matching bytes is matching characters.
\<close>

datatype regex =
    REmpty
  | RSet "char \<Rightarrow> bool"
  | RSeq regex regex
  | RAlt regex regex
  | RStar regex
  | RGroup regex
  | RBegin
  | REnd

type_synonym way = "string \<times> (nat \<times> nat) option"

definition later :: "(nat \<times> nat) option \<Rightarrow> way \<Rightarrow> way" where
  "later g w = (fst w, case snd w of None \<Rightarrow> g | Some b \<Rightarrow> Some b)"

function matches :: "nat \<Rightarrow> regex \<Rightarrow> string \<Rightarrow> way list" where
  "matches n REmpty s = [(s, None)]"
| "matches n (RSet P) s = (case s of [] \<Rightarrow> [] | c # s' \<Rightarrow> if P c then [(s', None)] else [])"
| "matches n (RSeq a b) s = concat (map (\<lambda>w. map (later (snd w)) (matches n b (fst w))) (matches n a s))"
| "matches n (RAlt a b) s = matches n a s @ matches n b s"
| "matches n (RStar a) s = concat (map (\<lambda>w. if length (fst w) < length s
     then map (later (snd w)) (matches n (RStar a) (fst w)) else []) (matches n a s)) @ [(s, None)]"
| "matches n (RGroup a) s = map (\<lambda>w. (fst w, Some (n - length s, n - length (fst w)))) (matches n a s)"
| "matches n RBegin s = (if length s = n then [(s, None)] else [])"
| "matches n REnd s = (if s = [] then [(s, None)] else [])"
  by pat_completeness auto
termination
  by (relation "measures [\<lambda>(n, r, s). size r, \<lambda>(n, r, s). length s]") auto

declare matches.simps(5) [simp del]

text \<open>\<^verbatim>\<open>FindStringSubmatchIndex\<close>: the first position that matches, the end of the match, the group.\<close>

definition first :: "'a list \<Rightarrow> 'a option" where
  "first xs = (case xs of [] \<Rightarrow> None | x # _ \<Rightarrow> Some x)"

definition FindStringSubmatchIndex :: "regex \<Rightarrow> string \<Rightarrow> (nat \<times> nat \<times> (nat \<times> nat) option) option" where
  "FindStringSubmatchIndex r s =
     (let n = length s
      in first (concat (map (\<lambda>i. map (\<lambda>w. (i, n - length (fst w), snd w)) (matches n r (drop i s))) [0..<Suc n])))"

abbreviation RPlus :: "regex \<Rightarrow> regex" where
  "RPlus r \<equiv> RSeq r (RStar r)"

abbreviation ROpt :: "regex \<Rightarrow> regex" where
  "ROpt r \<equiv> RAlt r REmpty"

abbreviation RChar :: "char \<Rightarrow> regex" where
  "RChar c \<equiv> RSet (\<lambda>x. x = c)"

subsection \<open>The first way\<close>

lemma first_simps [simp]: "first [] = None" "first (x # xs) = Some x"
  by (simp_all add: first_def)

lemma first_append [simp]: "first (xs @ ys) = (case first xs of None \<Rightarrow> first ys | Some x \<Rightarrow> Some x)"
  by (cases xs) auto

lemma first_map [simp]: "first (map f xs) = map_option f (first xs)"
  by (cases xs) auto

lemma first_None [simp]: "first xs = None \<longleftrightarrow> xs = []"
  by (cases xs) auto

lemma first_concat_same:
  assumes "xs \<noteq> []" "\<And>x. x \<in> set xs \<Longrightarrow> x = a"
  shows "first (concat (map f xs)) = first (f a)"
proof -
  obtain y ys where xs: "xs = y # ys" using assms(1) by (cases xs) auto
  have y: "y = a" and "\<And>x. x \<in> set ys \<Longrightarrow> x = a" using assms(2) by (auto simp: xs)
  then have "concat (map f ys) = []" if "f a = []" using that by (auto simp: concat_eq_Nil_conv)
  then show ?thesis by (auto simp: xs y split: option.splits)
qed

lemma later_simps [simp]: "later None = (\<lambda>w. w)" "later g (s, None) = (s, g)" "later g (s, Some b) = (s, Some b)"
  by (auto simp: later_def prod_eq_iff split: option.splits)

subsection \<open>Repeating a set of characters\<close>

lemma drops_Cons:
  "map (\<lambda>k. (drop k (c # s), None :: (nat \<times> nat) option)) (rev [0..<Suc (Suc m)]) =
   map (\<lambda>k. (drop k s, None)) (rev [0..<Suc m]) @ [(c # s, None)]"
  by (induction m) auto

lemma matches_star_set:
  "matches n (RStar (RSet P)) s = map (\<lambda>k. (drop k s, None)) (rev [0..<Suc (length (takeWhile P s))])"
proof (induction s)
  case (Cons c s)
  have "matches n (RStar (RSet P)) (c # s) =
      (if P c then matches n (RStar (RSet P)) s @ [(c # s, None)] else [(c # s, None)])"
    by (subst matches.simps(5)) simp
  then show ?case using Cons drops_Cons [of c s] by (simp del: upt_Suc) simp
qed (simp add: matches.simps(5))

lemma first_star_set: "first (matches n (RStar (RSet P)) s) = Some (dropWhile P s, None)"
  unfolding matches_star_set by (simp add: dropWhile_eq_drop)

lemma star_set_iff:
  "w \<in> set (matches n (RStar (RSet P)) s) \<longleftrightarrow> (\<exists>k \<le> length (takeWhile P s). w = (drop k s, None))"
proof -
  have "set (rev [0..<Suc m]) = {k. k \<le> m}" for m by auto
  then show ?thesis unfolding matches_star_set set_map by auto
qed

text \<open>A greedy run of characters, followed by something that cannot start with one of them.\<close>

lemma first_run_then:
  assumes "\<And>c s. P c \<Longrightarrow> matches n r (c # s) = []"
  shows "first (matches n (RSeq (RStar (RSet P)) r) s) = first (matches n r (dropWhile P s))"
proof (induction s)
  case Nil
  show ?case by (simp add: matches.simps(5))
next
  case (Cons c s)
  show ?case
  proof (cases "P c")
    case True
    have "matches n (RStar (RSet P)) (c # s) = matches n (RStar (RSet P)) s @ [(c # s, None)]"
      using True unfolding matches_star_set by (simp add: drops_Cons del: upt_Suc)
    then have "matches n (RSeq (RStar (RSet P)) r) (c # s) = matches n (RSeq (RStar (RSet P)) r) s"
      using assms [OF True] by simp
    then show ?thesis using Cons True by simp
  next
    case False
    then show ?thesis by (simp add: matches_star_set)
  qed
qed

text \<open>The ways of a repetition and of a sequence.\<close>

lemma star_ways:
  "set (matches n (RStar a) s) = insert (s, None)
     (\<Union>v \<in> {v \<in> set (matches n a s). length (fst v) < length s}. later (snd v) ` set (matches n (RStar a) (fst v)))"
  by (subst matches.simps(5)) auto

lemma seq_ways: "set (matches n (RSeq a b) s) = (\<Union>v \<in> set (matches n a s). later (snd v) ` set (matches n b (fst v)))"
  by auto

lemma set_ways: "w \<in> set (matches n (RSet P) s) \<longleftrightarrow> (\<exists>c s'. s = c # s' \<and> P c \<and> w = (s', None))"
  by (auto split: list.splits)

lemma alt_ways: "set (matches n (RAlt a b) s) = set (matches n a s) \<union> set (matches n b s)"
  by simp

lemma char_ways: "set (matches n (RSet P) s) = (case s of [] \<Rightarrow> {} | c # s' \<Rightarrow> if P c then {(s', None)} else {})"
  by (auto split: list.splits)

end
