(* ===== verification/IfMatch.thy ===== *)
theory IfMatch
  imports GoStrings Regex
begin

section \<open>Parsing If-None-Match headers (web/httputil.go)\<close>

text \<open>
  \<^verbatim>\<open>ParseIfMatch\<close> repeats one regular expression along the header. The expression is written out as data; the
  theorems compare it with a scanner that reads entity tags directly, and show that every list of entity tags
  is read back.
\<close>

definition dquote :: char where
  "dquote = CHR 0x22"

definition backslash :: char where
  "backslash = CHR 0x5C"

text \<open>\<^verbatim>\<open>\s\<close>, and \<^verbatim>\<open>.\<close>, which is every character but a newline.\<close>

definition reSpace :: "char \<Rightarrow> bool" where
  "reSpace c \<longleftrightarrow> c \<in> {CHR 0x09, CHR 0x0A, CHR 0x0C, CHR 0x0D, CHR '' ''}"

definition reDot :: "char \<Rightarrow> bool" where
  "reDot c \<longleftrightarrow> c \<noteq> CHR 0x0A"

definition rePlain :: "char \<Rightarrow> bool" where
  "rePlain c \<longleftrightarrow> c \<noteq> dquote \<and> c \<noteq> backslash"

definition reQuoted :: regex where
  "reQuoted = RSeq (RStar (RAlt (RPlus (RSet rePlain)) (RSeq (RChar backslash) (RSet reDot)))) (RChar dquote)"

definition reEntity :: regex where
  "reEntity = RAlt (RChar (CHR ''*''))
     (RSeq (ROpt (RSeq (RChar (CHR ''W'')) (RChar (CHR ''/'')))) (RSeq (RChar dquote) reQuoted))"

definition reComma :: regex where
  "reComma = RSeq (RStar (RSet reSpace)) (RSeq (RChar (CHR '','')) (RStar (RSet reSpace)))"

definition tokenRegexp :: regex where
  "tokenRegexp = RAlt (RSeq RBegin (RSeq (RGroup reEntity) (RAlt reComma REnd))) (RSeq RBegin reComma)"

subsection \<open>The scanner\<close>

text \<open>What follows the closing quote, what follows an entity tag, what follows a comma.\<close>

fun scanQuoted :: "string \<Rightarrow> string option" where
  "scanQuoted [] = None"
| "scanQuoted (c # s) =
     (if c = dquote then Some s
      else if c = backslash then (case s of d # s' \<Rightarrow> if reDot d then scanQuoted s' else None | [] \<Rightarrow> None)
      else scanQuoted s)"

definition scanEntity :: "string \<Rightarrow> string option" where
  "scanEntity s =
     (case s of
        [] \<Rightarrow> None
      | c # s' \<Rightarrow>
          if c = CHR ''*'' then Some s'
          else if c = dquote then scanQuoted s'
          else if c = CHR ''W'' \<and> take 2 s' = [CHR ''/'', dquote] then scanQuoted (drop 2 s')
          else None)"

definition scanComma :: "string \<Rightarrow> string option" where
  "scanComma s = (case dropWhile reSpace s of
     [] \<Rightarrow> None | c # s' \<Rightarrow> if c = CHR '','' then Some (dropWhile reSpace s') else None)"

definition scanToken :: "string \<Rightarrow> ((nat \<times> nat) option \<times> string) option" where
  "scanToken s =
     (case scanEntity s of
        Some r \<Rightarrow> (case scanComma r of
            Some r' \<Rightarrow> Some (Some (0, length s - length r), r')
          | None \<Rightarrow> if r = [] then Some (Some (0, length s), []) else None)
      | None \<Rightarrow> (case scanComma s of Some r' \<Rightarrow> Some (None, r') | None \<Rightarrow> None))"

subsection \<open>The expression is the scanner\<close>

declare matches.simps [simp del]

abbreviation reItem :: regex where
  "reItem \<equiv> RAlt (RPlus (RSet rePlain)) (RSeq (RChar backslash) (RSet reDot))"

lemma empty_ways: "set (matches n REmpty s) = {(s, None)}"
  by (simp add: matches.simps(1))

lemma scanQuoted_plain: "k \<le> length (takeWhile rePlain s) \<Longrightarrow> scanQuoted (drop k s) = scanQuoted s"
proof (induction s arbitrary: k)
  case (Cons c s)
  show ?case
  proof (cases k)
    case (Suc j)
    then have "rePlain c" "j \<le> length (takeWhile rePlain s)" using Cons.prems by (auto split: if_splits)
    moreover from this have "c \<noteq> dquote" "c \<noteq> backslash" by (simp_all add: rePlain_def)
    ultimately show ?thesis using Cons.IH [of j] Suc by simp
  qed simp
qed simp

lemma item_scan:
  assumes "w \<in> set (matches n reItem s)"
  shows "snd w = None \<and> scanQuoted (fst w) = scanQuoted s \<and> length (fst w) < length s"
proof (cases s)
  case (Cons c s')
  have ne: "dquote \<noteq> backslash" by (simp add: dquote_def backslash_def)
  consider k where "rePlain c" "k \<le> length (takeWhile rePlain s')" "w = (drop k s', None)"
    | d s2 where "c = backslash" "s' = d # s2" "reDot d" "w = (s2, None)"
    using assms Cons by (auto simp: alt_ways seq_ways char_ways star_set_iff split: if_splits list.splits)
  then show ?thesis
  proof cases
    case 1
    then show ?thesis using scanQuoted_plain [OF 1(2)] Cons by (auto simp: rePlain_def)
  next
    case 2
    then show ?thesis using Cons ne by auto
  qed
qed (use assms in \<open>auto simp: alt_ways seq_ways char_ways\<close>)

lemma items_scan:
  "w \<in> set (matches n (RStar reItem) s) \<Longrightarrow> snd w = None \<and> scanQuoted (fst w) = scanQuoted s \<and> length (fst w) \<le> length s"
proof (induction s arbitrary: w rule: length_induct)
  case (1 s)
  show ?case
  proof (cases "w = (s, None)")
    case False
    then obtain v where v: "v \<in> set (matches n reItem s)" "w \<in> later (snd v) ` set (matches n (RStar reItem) (fst v))"
      using 1(2) unfolding star_ways [of n reItem s] by blast
    note i = item_scan [OF v(1)]
    then have "w \<in> set (matches n (RStar reItem) (fst v))" using v(2) by (simp only: later_simps image_ident)
    then have "snd w = None \<and> scanQuoted (fst w) = scanQuoted (fst v) \<and> length (fst w) \<le> length (fst v)"
      using 1(1) [rule_format, of "fst v" w] i by (simp only: simp_thms)
    then show ?thesis using i by (elim conjE) simp
  qed simp
qed

lemma items_step:
  assumes "(r, None) \<in> set (matches n (RStar reItem) s')" "(s', None) \<in> set (matches n reItem s)"
  shows "(r, None) \<in> set (matches n (RStar reItem) s)"
proof -
  have "(s', None) \<in> {v \<in> set (matches n reItem s). length (fst v) < length s}"
    using assms(2) item_scan [OF assms(2)] by (simp only: mem_Collect_eq fst_conv simp_thms)
  moreover have "(r, None) \<in> later (snd (s', None)) ` set (matches n (RStar reItem) (fst (s', None)))"
    using assms(1) by (simp only: snd_conv fst_conv later_simps image_ident)
  ultimately show ?thesis unfolding star_ways [of n reItem s] by blast
qed

lemma scan_items: "scanQuoted s = Some r \<Longrightarrow> (dquote # r, None) \<in> set (matches n (RStar reItem) s)"
proof (induction s rule: scanQuoted.induct)
  case (2 c s)
  consider "c = dquote" | d s2 where "c = backslash" "c \<noteq> dquote" "s = d # s2" "reDot d" "scanQuoted s2 = Some r"
    | "c \<noteq> dquote" "c \<noteq> backslash" "scanQuoted s = Some r"
    using 2(3) by (auto split: if_splits list.splits)
  then show ?case
  proof cases
    case 1
    then show ?thesis using 2(3) unfolding star_ways [of n reItem "c # s"] by simp
  next
    case 2: 2
    have "(s2, None) \<in> set (matches n reItem (c # s))" using 2 by (auto simp: alt_ways seq_ways char_ways)
    moreover have "(dquote # r, None) \<in> set (matches n (RStar reItem) s2)" using "2.IH"(1) 2 by simp
    ultimately show ?thesis using items_step by blast
  next
    case 3
    have "(s, None) \<in> set (matches n reItem (c # s))"
      using 3 by (auto simp: alt_ways seq_ways char_ways rePlain_def star_set_iff intro!: exI [of _ "0 :: nat"])
    moreover have "(dquote # r, None) \<in> set (matches n (RStar reItem) s)" using "2.IH"(2) 3 by simp
    ultimately show ?thesis using items_step by blast
  qed
qed simp

lemma quoted_ways: "set (matches n reQuoted s) = (case scanQuoted s of None \<Rightarrow> {} | Some r \<Rightarrow> {(r, None)})"
proof -
  have a: "snd w = None \<and> scanQuoted s = Some (fst w)" if w: "w \<in> set (matches n reQuoted s)" for w
  proof -
    obtain v where v: "v \<in> set (matches n (RStar reItem) s)" "w \<in> later (snd v) ` set (matches n (RChar dquote) (fst v))"
      using w unfolding reQuoted_def seq_ways by blast
    note i = items_scan [OF v(1)]
    then have "w \<in> set (matches n (RChar dquote) (fst v))" using v(2) by simp
    then obtain c s' where "fst v = dquote # s'" "w = (s', None)" unfolding set_ways by auto
    then show ?thesis using i by simp
  qed
  have b: "(r, None) \<in> set (matches n reQuoted s)" if "scanQuoted s = Some r" for r
  proof -
    have "(r, None) \<in> later (snd (dquote # r, None)) ` set (matches n (RChar dquote) (fst (dquote # r, None)))"
      by (simp only: char_ways snd_conv fst_conv later_simps image_ident list.case) simp
    then show ?thesis using scan_items [OF that, of n] unfolding reQuoted_def seq_ways by blast
  qed
  show ?thesis
  proof (cases "scanQuoted s")
    case None
    have "w \<notin> set (matches n reQuoted s)" for w using a [of w] None by (cases "w \<in> set (matches n reQuoted s)") simp_all
    then have "set (matches n reQuoted s) = {}" by (intro equals0I) (rule notE)
    then show ?thesis using None by simp
  next
    case (Some r)
    have "set (matches n reQuoted s) \<subseteq> {(r, None)}"
    proof
      fix w assume "w \<in> set (matches n reQuoted s)"
      from a [OF this] Some show "w \<in> {(r, None)}" by (simp add: prod_eq_iff)
    qed
    moreover have "{(r, None)} \<subseteq> set (matches n reQuoted s)" using b [OF Some] by simp
    ultimately have "set (matches n reQuoted s) = {(r, None)}" by (rule equalityI)
    then show ?thesis using Some by simp
  qed
qed

lemma dquote_ways:
  "set (matches n (RSeq (RChar dquote) reQuoted) t) =
   (case t of [] \<Rightarrow> {} | d # t' \<Rightarrow> if d = dquote then (case scanQuoted t' of None \<Rightarrow> {} | Some r \<Rightarrow> {(r, None)}) else {})"
  by (cases t) (auto simp: seq_ways char_ways quoted_ways)

lemma entity_ways: "set (matches n reEntity s) = (case scanEntity s of None \<Rightarrow> {} | Some r \<Rightarrow> {(r, None)})"
proof (cases s)
  case Nil
  then show ?thesis by (simp add: reEntity_def scanEntity_def alt_ways seq_ways char_ways empty_ways)
next
  case (Cons c s')
  have ne: "CHR ''*'' \<noteq> dquote" "CHR ''W'' \<noteq> dquote" "CHR ''W'' \<noteq> CHR ''*''" by (simp_all add: dquote_def)
  have w: "set (matches n (RSeq (RSeq (RChar (CHR ''W'')) (RChar (CHR ''/''))) (RSeq (RChar dquote) reQuoted)) s) =
      (if c = CHR ''W'' \<and> take 2 s' = [CHR ''/'', dquote] then (case scanQuoted (drop 2 s') of None \<Rightarrow> {} | Some r \<Rightarrow> {(r, None)}) else {})"
    unfolding seq_ways [of n _ "RSeq (RChar dquote) reQuoted"] dquote_ways
    using Cons by (cases s'; cases "tl s'") (auto simp: seq_ways char_ways)
  have "set (matches n reEntity s) = set (matches n (RChar (CHR ''*'')) s) \<union>
      (set (matches n (RSeq (RSeq (RChar (CHR ''W'')) (RChar (CHR ''/''))) (RSeq (RChar dquote) reQuoted)) s) \<union>
       set (matches n (RSeq (RChar dquote) reQuoted) s))"
    unfolding reEntity_def alt_ways seq_ways [of n "RAlt a b" for a b] empty_ways
    by (simp add: seq_ways [of n "RSeq a b" "RSeq c d" for a b c d] Un_commute)
  also have "\<dots> = (case scanEntity s of None \<Rightarrow> {} | Some r \<Rightarrow> {(r, None)})"
    unfolding w dquote_ways char_ways using Cons ne by (auto simp: scanEntity_def)
  finally show ?thesis .
qed

lemma comma_first: "first (matches n reComma s) = map_option (\<lambda>r. (r, None)) (scanComma s)"
proof -
  let ?c = "RSeq (RChar (CHR '','')) (RStar (RSet reSpace))"
  have c: "first (matches n ?c t) = (case t of [] \<Rightarrow> None | c # t' \<Rightarrow>
      if c = CHR '','' then Some (dropWhile reSpace t', None) else None)" for t
    by (cases t) (auto simp: matches.simps(2,3) first_star_set)
  have "matches n ?c (c # t) = []" if "reSpace c" for c t
    using that by (auto simp: matches.simps(2,3) reSpace_def)
  then have "first (matches n reComma s) = first (matches n ?c (dropWhile reSpace s))"
    unfolding reComma_def by (rule first_run_then)
  then show ?thesis unfolding c scanComma_def by (cases "dropWhile reSpace s") (simp_all only: list.case option.map if_distrib)
qed

lemma scanEntity_shorter: "scanEntity s = Some r \<Longrightarrow> length r < length s"
proof -
  have q: "scanQuoted t = Some r \<Longrightarrow> length r < length t" for t r
    by (induction t rule: scanQuoted.induct) (auto split: if_splits list.splits)
  show "scanEntity s = Some r \<Longrightarrow> length r < length s"
    by (auto simp: scanEntity_def dest!: q split: list.splits if_splits)
qed

lemma scanComma_shorter: "scanComma s = Some r \<Longrightarrow> length r < length s"
proof -
  assume "scanComma s = Some r"
  then obtain t where "dropWhile reSpace s = CHR '','' # t" "r = dropWhile reSpace t"
    by (auto simp: scanComma_def split: list.splits if_splits)
  then show ?thesis using length_dropWhile_le [of reSpace s] length_dropWhile_le [of reSpace t] by simp
qed

lemma entity_then:
  "first (matches (length s) (RSeq (RGroup reEntity) r) s) = (case scanEntity s of None \<Rightarrow> None
     | Some t \<Rightarrow> map_option (later (Some (0, length s - length t))) (first (matches (length s) r t)))"
proof (cases "scanEntity s")
  case None
  then have "matches (length s) reEntity s = []" using entity_ways [of "length s" s] by simp
  then show ?thesis using None by (simp add: matches.simps(3,6))
next
  case (Some t)
  let ?ws = "matches (length s) (RGroup reEntity) s" and ?a = "(t, Some (0, length s - length t))"
  have "set (matches (length s) reEntity s) = {(t, None)}" using entity_ways [of "length s" s] Some by simp
  then have set: "set ?ws = {?a}" by (simp add: matches.simps(6))
  have all: "w = ?a" if "w \<in> set ?ws" for w using that unfolding set by (rule singletonD)
  have ne: "?ws \<noteq> []" using set by (cases ?ws) simp_all
  let ?f = "\<lambda>w. map (later (snd w)) (matches (length s) r (fst w))"
  have "first (concat (map ?f ?ws)) = first (?f ?a)" using ne all by (rule first_concat_same)
  then have "first (matches (length s) (RSeq (RGroup reEntity) r) s) = first (?f ?a)" by (simp only: matches.simps(3))
  then show ?thesis using Some by simp
qed

lemma begin_then:
  "matches n (RSeq RBegin r) s = (if length s = n then matches n r s else [])"
  by (simp add: matches.simps(3,7))

lemma tokenRegexp_scans:
  "FindStringSubmatchIndex tokenRegexp s =
   map_option (\<lambda>(g, r). (0, length s - length r, g)) (scanToken s)"
proof -
  let ?n = "length s"
  have none: "matches ?n tokenRegexp (drop i s) = []" if "0 < i" "i \<le> ?n" for i
  proof -
    have "length (drop i s) \<noteq> ?n" using that by auto
    then show ?thesis unfolding tokenRegexp_def matches.simps(4) begin_then by simp
  qed
  have "map (\<lambda>w. (i, ?n - length (fst w), snd w)) (matches ?n tokenRegexp (drop i s)) = []" if "i \<in> set [1..<Suc ?n]" for i
  proof -
    have "0 < i" "i \<le> ?n" using that by auto
    from none [OF this] show ?thesis by (simp only: list.map)
  qed
  then have rest: "concat (map (\<lambda>i. map (\<lambda>w. (i, ?n - length (fst w), snd w)) (matches ?n tokenRegexp (drop i s))) [1..<Suc ?n]) = []"
    by (simp add: concat_eq_Nil_conv)
  have upt: "[0..<Suc ?n] = 0 # [1..<Suc ?n]" unfolding One_nat_def by (rule upt_conv_Cons) simp
  have "FindStringSubmatchIndex tokenRegexp s = first (map (\<lambda>w. (0, ?n - length (fst w), snd w)) (matches ?n tokenRegexp s))"
    unfolding FindStringSubmatchIndex_def Let_def upt by (simp only: list.map concat.simps drop_0 rest append_Nil2)
  moreover have "first (matches ?n tokenRegexp s) = map_option (\<lambda>(g, r). (r, g)) (scanToken s)"
  proof -
    have tail: "first (matches ?n (RAlt reComma REnd) t) =
        (case scanComma t of Some r \<Rightarrow> Some (r, None) | None \<Rightarrow> if t = [] then Some ([], None) else None)" for t
      by (auto simp: matches.simps(4,8) comma_first split: option.splits)
    have "scanComma s = None" if "scanEntity s \<noteq> None"
      using that by (cases s) (auto simp: scanEntity_def scanComma_def reSpace_def dquote_def split: if_splits list.splits)
    then show ?thesis
      unfolding tokenRegexp_def matches.simps(4) begin_then
      by (auto simp: entity_then tail comma_first scanToken_def split: option.splits)
  qed
  ultimately show ?thesis by (cases "scanToken s") auto
qed

lemma scanToken_shorter: "scanToken s = Some (g, r) \<Longrightarrow> length r < length s"
  by (auto simp: scanToken_def dest!: scanEntity_shorter scanComma_shorter split: option.splits if_splits)

subsection \<open>ParseIfMatch\<close>

text \<open>The loop ends because a token is never empty.\<close>

function parseTokens :: "string \<Rightarrow> string \<Rightarrow> string list \<Rightarrow> string + string list" where
  "parseTokens input s result =
     (case FindStringSubmatchIndex tokenRegexp s of
        None \<Rightarrow> Inl (''Error parsing If-[Not-]Match header '' @ input @ '' at '' @ s)
      | Some (i, e, g) \<Rightarrow>
          (let result = (case g of None \<Rightarrow> result | Some (a, b) \<Rightarrow> result @ [take (b - a) (drop a s)])
           in if e = length s then Inr result else parseTokens input (drop e s) result))"
  by pat_completeness auto
termination
proof (relation "measure (\<lambda>(input, s, result). length s)", simp)
  fix input s result x i y e g result'
  assume "FindStringSubmatchIndex tokenRegexp s = Some x" "(i, y) = x" "(e, g) = y"
  then obtain r where "scanToken s = Some (g, r)" "e = length s - length r"
    unfolding tokenRegexp_scans by auto
  then have "0 < e" "s \<noteq> []" using scanToken_shorter [of s g r] by auto
  then show "((input, drop e s, result'), input, s, result) \<in> measure (\<lambda>(input, s, result). length s)" by simp
qed

declare parseTokens.simps [simp del]

definition ParseIfMatch :: "string \<Rightarrow> string + string list" where
  "ParseIfMatch input = parseTokens input (TrimSpace input) []"

subsection \<open>Entity tags\<close>

definition entityTag :: "string \<Rightarrow> bool" where
  "entityTag t \<longleftrightarrow> scanEntity t = Some []"

definition separator :: "string \<Rightarrow> bool" where
  "separator sep \<longleftrightarrow> scanComma sep = Some []"

lemma parseTokens_scan:
  "parseTokens input s result = (case scanToken s of
     None \<Rightarrow> Inl (''Error parsing If-[Not-]Match header '' @ input @ '' at '' @ s)
   | Some (g, r) \<Rightarrow>
       (let result = (case g of None \<Rightarrow> result | Some (a, b) \<Rightarrow> result @ [take (b - a) (drop a s)])
        in if r = [] then Inr result else parseTokens input (drop (length s - length r) s) result))"
proof (cases "scanToken s")
  case None
  then show ?thesis by (subst parseTokens.simps) (simp add: tokenRegexp_scans)
next
  case (Some x)
  obtain g r where x: "x = (g, r)" by (cases x)
  have "length r < length s" using scanToken_shorter Some x by simp
  then have "length s - length r = length s \<longleftrightarrow> r = []" by (cases r) auto
  then show ?thesis using Some x by (subst parseTokens.simps) (simp add: tokenRegexp_scans Let_def)
qed

lemma scanQuoted_append: "scanQuoted s = Some r \<Longrightarrow> scanQuoted (s @ u) = Some (r @ u)"
  by (induction s rule: scanQuoted.induct) (auto split: if_splits list.splits)

lemma scanEntity_append: "scanEntity s = Some r \<Longrightarrow> scanEntity (s @ u) = Some (r @ u)"
proof (cases s)
  case (Cons c s')
  assume s: "scanEntity s = Some r"
  show ?thesis
  proof (cases "c = CHR ''W''")
    case True
    then have "take 2 s' = [CHR ''/'', dquote]" "scanQuoted (drop 2 s') = Some r" "length s' \<ge> 2"
      using s Cons by (auto simp: scanEntity_def dquote_def split: if_splits) (metis length_Cons length_take list.size(3) min.cobounded1 numeral_2_eq_2)
    then show ?thesis using Cons True scanQuoted_append [of "drop 2 s'" r u] by (auto simp: scanEntity_def dquote_def)
  next
    case False
    then show ?thesis using s Cons by (auto simp: scanEntity_def scanQuoted_append split: if_splits)
  qed
qed (simp add: scanEntity_def)

lemma scanQuoted_split: "scanQuoted s = Some r \<Longrightarrow> \<exists>p. s = p @ r \<and> scanQuoted p = Some []"
proof (induction s rule: scanQuoted.induct)
  case (2 c s)
  consider "c = dquote" "r = s" | d s2 where "c = backslash" "c \<noteq> dquote" "s = d # s2" "reDot d" "scanQuoted s2 = Some r"
    | "c \<noteq> dquote" "c \<noteq> backslash" "scanQuoted s = Some r"
    using 2(3) by (auto split: if_splits list.splits)
  then show ?case
  proof cases
    case 1
    then show ?thesis by (intro exI [of _ "[c]"]) simp
  next
    case 2: 2
    then obtain p where "s2 = p @ r" "scanQuoted p = Some []" using "2.IH"(1) by auto
    then show ?thesis using 2 by (intro exI [of _ "c # d # p"]) simp
  next
    case 3
    then obtain p where "s = p @ r" "scanQuoted p = Some []" using "2.IH"(2) by auto
    then show ?thesis using 3 by (intro exI [of _ "c # p"]) simp
  qed
qed simp

lemma scanEntity_split: "scanEntity s = Some r \<Longrightarrow> \<exists>p. s = p @ r \<and> entityTag p"
proof (cases s)
  case (Cons c s')
  assume s: "scanEntity s = Some r"
  have ne: "CHR ''*'' \<noteq> dquote" "CHR ''W'' \<noteq> dquote" by (simp_all add: dquote_def)
  consider "c = CHR ''*''" "r = s'" | "c = dquote" "scanQuoted s' = Some r"
    | "c = CHR ''W''" "take 2 s' = [CHR ''/'', dquote]" "scanQuoted (drop 2 s') = Some r"
    using s Cons by (auto simp: scanEntity_def split: if_splits)
  then show ?thesis
  proof cases
    case 1
    then show ?thesis using Cons by (intro exI [of _ "[c]"]) (simp add: entityTag_def scanEntity_def)
  next
    case 2
    then obtain p where "s' = p @ r" "scanQuoted p = Some []" using scanQuoted_split by blast
    then show ?thesis using 2 Cons ne by (intro exI [of _ "c # p"]) (simp add: entityTag_def scanEntity_def)
  next
    case 3
    then obtain p where "drop 2 s' = p @ r" "scanQuoted p = Some []" using scanQuoted_split by blast
    moreover have "s' = [CHR ''/'', dquote] @ drop 2 s'" using 3(2) append_take_drop_id [of 2 s'] by simp
    ultimately show ?thesis using 3 Cons ne
      by (intro exI [of _ "c # CHR ''/'' # dquote # p"]) (simp add: entityTag_def scanEntity_def)
  qed
qed (simp add: scanEntity_def)

lemma entityTag_ends:
  assumes "entityTag t"
  shows "t \<noteq> []" "hd t \<in> {CHR ''*'', CHR ''W'', dquote}" "last t \<in> {CHR ''*'', dquote}"
proof -
  have q: "scanQuoted p = Some [] \<Longrightarrow> p \<noteq> [] \<and> last p = dquote" for p
    by (induction p rule: scanQuoted.induct) (auto split: if_splits list.splits)
  obtain c s' where t: "t = c # s'" using assms by (cases t) (auto simp: entityTag_def scanEntity_def)
  show "t \<noteq> []" using t by simp
  show "hd t \<in> {CHR ''*'', CHR ''W'', dquote}"
    using assms t by (auto simp: entityTag_def scanEntity_def split: if_splits)
  show "last t \<in> {CHR ''*'', dquote}"
  proof (cases "take 2 s' = [CHR ''/'', dquote] \<and> c = CHR ''W''")
    case True
    then have "scanQuoted (drop 2 s') = Some []" using assms t by (auto simp: entityTag_def scanEntity_def dquote_def)
    then have "drop 2 s' \<noteq> []" "last (drop 2 s') = dquote" using q by blast+
    moreover from this have "s' \<noteq> []" "last (drop 2 s') = last s'" by (auto simp: last_drop)
    ultimately show ?thesis using t by simp
  next
    case False
    then show ?thesis using assms t q [of s'] by (auto simp: entityTag_def scanEntity_def split: if_splits)
  qed
qed

lemma scanComma_separator:
  assumes "separator sep" "u \<noteq> []" "\<not> reSpace (hd u)"
  shows "scanComma (sep @ u) = Some u"
proof -
  obtain t where t: "dropWhile reSpace sep = CHR '','' # t" "dropWhile reSpace t = []"
    using assms(1) by (auto simp: separator_def scanComma_def split: list.splits if_splits)
  have "dropWhile reSpace (sep @ u) = CHR '','' # t @ u"
    using t(1) by (metis append_Cons dropWhile_append dropWhile_append1 dropWhile_eq_Nil_conv list.distinct(1))
  moreover have "dropWhile reSpace (t @ u) = u"
    using t(2) assms(2,3) by (cases u) (auto simp: dropWhile_append)
  ultimately show ?thesis by (simp add: scanComma_def)
qed

lemma parseTokens_join:
  assumes "separator sep"
  shows "ts \<noteq> [] \<Longrightarrow> \<forall>t \<in> set ts. entityTag t \<Longrightarrow> parseTokens input (join sep ts) res = Inr (res @ ts)"
proof (induction ts arbitrary: res)
  case (Cons t ts)
  have t: "scanEntity t = Some []" using Cons.prems by (simp add: entityTag_def)
  show ?case
  proof (cases ts)
    case Nil
    then show ?thesis using t by (subst parseTokens_scan) (simp add: scanToken_def scanComma_def)
  next
    case (Cons t' ts')
    let ?J = "join sep ts"
    have "?J \<noteq> []" "\<not> reSpace (hd ?J)"
      using entityTag_ends [of t'] Cons.prems(2) Cons by (cases ts'; auto simp: reSpace_def dquote_def)+
    from scanComma_separator [OF assms this] have c: "scanComma (sep @ ?J) = Some ?J" .
    have e: "scanEntity (t @ sep @ ?J) = Some (sep @ ?J)" using scanEntity_append [OF t, of "sep @ ?J"] by simp
    have "parseTokens input (t @ sep @ ?J) res = parseTokens input ?J (res @ [t])"
      using \<open>?J \<noteq> []\<close> by (subst parseTokens_scan) (simp add: scanToken_def e c)
    also have "\<dots> = Inr ((res @ [t]) @ ts)" using Cons.IH Cons.prems Cons by simp
    finally show ?thesis using Cons by simp
  qed
qed simp

lemma parseTokens_sound:
  "parseTokens input s res = Inr out \<Longrightarrow> \<exists>ts. out = res @ ts \<and> (\<forall>t \<in> set ts. entityTag t)"
proof (induction s arbitrary: res rule: length_induct)
  case (1 s)
  obtain g r where tok: "scanToken s = Some (g, r)" using 1(2) by (subst (asm) parseTokens_scan) (auto split: option.splits)
  let ?res = "case g of None \<Rightarrow> res | Some (a, b) \<Rightarrow> res @ [take (b - a) (drop a s)]"
  have new: "\<exists>ts. ?res = res @ ts \<and> (\<forall>t \<in> set ts. entityTag t)"
  proof (cases g)
    case (Some ab)
    then obtain r1 where e: "scanEntity s = Some r1" "ab = (0, length s - length r1)"
      using tok by (auto simp: scanToken_def split: option.splits if_splits)
    then obtain p where "s = p @ r1" "entityTag p" using scanEntity_split by blast
    then show ?thesis using Some e by (intro exI [of _ "[p]"]) simp
  qed simp
  have out: "(if r = [] then Inr ?res else parseTokens input (drop (length s - length r) s) ?res) = Inr out"
    using 1(2) by (subst (asm) parseTokens_scan) (simp add: tok Let_def)
  show ?case
  proof (cases "r = []")
    case True
    then show ?thesis using out new by simp
  next
    case False
    have "length (drop (length s - length r) s) < length s" using scanToken_shorter [OF tok] by simp
    then obtain ts where "out = ?res @ ts" "\<forall>t \<in> set ts. entityTag t"
      using 1(1) out False by (metis (no_types, lifting))
    moreover obtain ts0 where "?res = res @ ts0" "\<forall>t \<in> set ts0. entityTag t" using new by blast
    ultimately show ?thesis by (intro exI [of _ "ts0 @ ts"]) auto
  qed
qed

lemma TrimSpace_tags:
  assumes "ts \<noteq> []" "\<forall>t \<in> set ts. entityTag t"
  shows "TrimSpace (join sep ts) = join sep ts"
proof (rule TrimSpace_visible)
  have vis: "visible c" if "c \<in> {CHR ''*'', CHR ''W'', dquote}" for c using that by (auto simp: visible_def dquote_def)
  obtain t ts' where ts: "ts = t # ts'" using assms(1) by (cases ts) auto
  have t: "entityTag t" "entityTag (last ts)" using assms(2) ts by auto
  show "join sep ts \<noteq> []" unfolding ts join_Cons using entityTag_ends [OF t(1)] by simp
  show "visible (hd (join sep ts))"
    unfolding ts join_Cons using entityTag_ends(1,2) [OF t(1)] vis by (simp add: hd_append)
  have "\<exists>p. join sep ts = p @ last ts"
  proof (cases "butlast ts = []")
    case True
    then show ?thesis using ts by (cases ts') auto
  next
    case False
    have "join sep ts = (join sep (butlast ts) @ sep) @ last ts"
      using join_snoc [OF False, of sep "last ts"] append_butlast_last_id [OF assms(1)] by simp
    then show ?thesis by blast
  qed
  then obtain p where "join sep ts = p @ last ts" by (elim exE)
  then have "last (join sep ts) = last (last ts)" using entityTag_ends(1) [OF t(2)] by simp
  then show "visible (last (join sep ts))" using entityTag_ends(3) [OF t(2)] vis [of "last (last ts)"] by auto
qed

text \<open>
  C18. \<^verbatim>\<open>ParseIfMatch\<close> reads the entity tags of a header and nothing else: tags written with a comma between them, and any
  white space around the comma, are read back exactly if each of them is an entity tag, that is \<^verbatim>\<open>*\<close> or a quoted string
  with or without \<^verbatim>\<open>W/\<close>. The loop always ends.
\<close>

theorem ParseIfMatch_roundtrip:
  assumes "ts \<noteq> []" "separator sep"
  shows "ParseIfMatch (join sep ts) = Inr ts \<longleftrightarrow> (\<forall>t \<in> set ts. entityTag t)"
proof
  assume "\<forall>t \<in> set ts. entityTag t"
  then show "ParseIfMatch (join sep ts) = Inr ts"
    using TrimSpace_tags [OF assms(1)] parseTokens_join [OF assms(2,1)] by (simp add: ParseIfMatch_def)
next
  assume "ParseIfMatch (join sep ts) = Inr ts"
  from parseTokens_sound [OF this [unfolded ParseIfMatch_def]] show "\<forall>t \<in> set ts. entityTag t" by simp
qed

theorem ParseIfMatch_roundtrip_witness:
  "ParseIfMatch (join '' , '' [[dquote, CHR ''a'', dquote], ''*'', [CHR ''W'', CHR ''/'', dquote, backslash, dquote, dquote]]) =
     Inr [[dquote, CHR ''a'', dquote], ''*'', [CHR ''W'', CHR ''/'', dquote, backslash, dquote, dquote]]"
proof -
  let ?ts = "[[dquote, CHR ''a'', dquote], ''*'', [CHR ''W'', CHR ''/'', dquote, backslash, dquote, dquote]]"
  have ne: "?ts \<noteq> []" by simp
  have sep: "separator '' , ''" by code_simp
  have "list_all entityTag ?ts" by code_simp
  then show ?thesis using ParseIfMatch_roundtrip [OF ne sep] by (simp add: list_all_iff)
qed

end
