(* ===== verification/Types.thy ===== *)
theory Types
  imports Prelude
begin

section \<open>Images, image lists and repositories (types.go)\<close>

text \<open>
  The data that the database stores and the web interface serves. A digest is a string. An embedded
  struct is a record extension: \<^verbatim>\<open>TaggedImage\<close> embeds \<^verbatim>\<open>Image\<close>, \<^verbatim>\<open>TaggedImageList\<close> embeds \<^verbatim>\<open>ImageList\<close>.
\<close>

record Image =
  Digest :: string
  MediaType :: string
  OS :: string
  Architecture :: string
  Annotations :: "string gomap"
  Labels :: "string gomap"

record TaggedImage = Image +
  Tags :: "string list"

record ImageList =
  listDigest :: string
  listMediaType :: string
  listImages :: "Image list"
  listAnnotations :: "string gomap"

record TaggedImageList = ImageList +
  listTags :: "string list"

record Repository =
  Name :: string
  Images :: "TaggedImage list"
  Lists :: "TaggedImageList list"

definition zeroImage :: Image where
  "zeroImage = \<lparr>Digest = '''', MediaType = '''', OS = '''', Architecture = '''',
     Annotations = [], Labels = []\<rparr>"

text \<open>The \<^verbatim>\<open>Image\<close> inside a \<^verbatim>\<open>TaggedImage\<close>, and a tagged image made from its parts.\<close>

definition untag :: "'a Image_scheme \<Rightarrow> Image" where
  "untag im = \<lparr>Digest = Digest im, MediaType = MediaType im, OS = OS im,
     Architecture = Architecture im, Annotations = Annotations im, Labels = Labels im\<rparr>"

definition withTags :: "Image \<Rightarrow> string list \<Rightarrow> TaggedImage" where
  "withTags im ts = \<lparr>Digest = Digest im, MediaType = MediaType im, OS = OS im,
     Architecture = Architecture im, Annotations = Annotations im, Labels = Labels im, Tags = ts\<rparr>"

definition untagList :: "'a ImageList_scheme \<Rightarrow> ImageList" where
  "untagList l = \<lparr>listDigest = listDigest l, listMediaType = listMediaType l,
     listImages = listImages l, listAnnotations = listAnnotations l\<rparr>"

definition listWithTags :: "ImageList \<Rightarrow> string list \<Rightarrow> TaggedImageList" where
  "listWithTags l ts = \<lparr>listDigest = listDigest l, listMediaType = listMediaType l,
     listImages = listImages l, listAnnotations = listAnnotations l, listTags = ts\<rparr>"

lemma withTags_simps [simp]:
  "Digest (withTags im ts) = Digest im" "Tags (withTags im ts) = ts" "untag (withTags im ts) = im"
  by (simp_all add: withTags_def untag_def)

lemma listWithTags_simps [simp]:
  "listDigest (listWithTags l ts) = listDigest l" "listTags (listWithTags l ts) = ts"
  "listImages (listWithTags l ts) = listImages l" "untagList (listWithTags l ts) = l"
  by (simp_all add: listWithTags_def untagList_def)

subsection \<open>Title, description, latest\<close>

definition Title :: "'a Image_scheme \<Rightarrow> string" where
  "Title im =
     (let v = gget0 '''' (Annotations im) ''org.opencontainers.image.title'' in if v \<noteq> '''' then v
      else let v = gget0 '''' (Labels im) ''org.label-schema.name'' in if v \<noteq> '''' then v
      else let v = gget0 '''' (Labels im) ''io.k8s.display-name'' in if v \<noteq> '''' then v
      else let v = gget0 '''' (Labels im) ''name'' in if v \<noteq> '''' then v
      else let v = gget0 '''' (Labels im) ''Name'' in if v \<noteq> '''' then v
      else '''')"

definition Description :: "'a Image_scheme \<Rightarrow> string" where
  "Description im =
     (let v = gget0 '''' (Annotations im) ''org.opencontainers.image.description'' in if v \<noteq> '''' then v
      else let v = gget0 '''' (Labels im) ''org.label-schema.description'' in if v \<noteq> '''' then v
      else let v = gget0 '''' (Labels im) ''io.k8s.description'' in if v \<noteq> '''' then v
      else let v = gget0 '''' (Labels im) ''description'' in if v \<noteq> '''' then v
      else let v = gget0 '''' (Labels im) ''Description'' in if v \<noteq> '''' then v
      else '''')"

fun IsLatest_loop :: "string list \<Rightarrow> bool" where
  "IsLatest_loop [] = False"
| "IsLatest_loop (tag # tags) = (if tag = ''latest'' then True else IsLatest_loop tags)"

definition IsLatest :: "TaggedImage \<Rightarrow> bool" where
  "IsLatest im = IsLatest_loop (Tags im)"

lemma IsLatest_iff: "IsLatest im \<longleftrightarrow> ''latest'' \<in> set (Tags im)"
proof -
  have "IsLatest_loop ts \<longleftrightarrow> ''latest'' \<in> set ts" for ts by (induction ts) auto
  then show ?thesis by (simp add: IsLatest_def)
qed

text \<open>
  The sources of a title, in the order of their precedence, and the first of them that is present and
  not empty.
\<close>

definition firstNonEmpty :: "string option list \<Rightarrow> string" where
  "firstNonEmpty vs = (case filter (\<lambda>v. v \<noteq> None \<and> v \<noteq> Some '''') vs of [] \<Rightarrow> '''' | v # _ \<Rightarrow> the v)"

lemma firstNonEmpty_Cons:
  "firstNonEmpty (gget m k # vs) = (if gget0 '''' m k \<noteq> '''' then gget0 '''' m k else firstNonEmpty vs)"
  by (cases "gget m k") (auto simp: firstNonEmpty_def)

lemma firstNonEmpty_Nil: "firstNonEmpty [] = ''''"
  by (simp add: firstNonEmpty_def)

text \<open>
  Title and description are the first non-empty value of their sources: the OCI annotation, then
  the label-schema, Kubernetes and plain labels.
\<close>

theorem title_description_precedence:
  "Title im = firstNonEmpty
     [gget (Annotations im) ''org.opencontainers.image.title'', gget (Labels im) ''org.label-schema.name'',
      gget (Labels im) ''io.k8s.display-name'', gget (Labels im) ''name'', gget (Labels im) ''Name''] \<and>
   Description im = firstNonEmpty
     [gget (Annotations im) ''org.opencontainers.image.description'',
      gget (Labels im) ''org.label-schema.description'', gget (Labels im) ''io.k8s.description'',
      gget (Labels im) ''description'', gget (Labels im) ''Description'']"
  by (simp only: Title_def Description_def Let_def firstNonEmpty_Cons firstNonEmpty_Nil)

end
