(* ===== verification/JsonValue.thy ===== *)
theory JsonValue
  imports Types
begin

section \<open>JSON values\<close>

text \<open>
  JSON at the level of values: what \<^verbatim>\<open>to_json\<close> and \<^verbatim>\<open>jsonb_agg\<close> make of a row, what \<^verbatim>\<open>json.Unmarshal\<close> stores
  into the program's structs, and what \<^verbatim>\<open>json.Marshal\<close> makes of the structs. A field name is matched
  without regard to case; a null leaves a field as it is; a value of another type is an error
  (\<^const>\<open>None\<close>). A number keeps its text. The text form of a value and its reading are inverse to each
  other for texts the database can hold and are not modelled here.
\<close>

datatype json =
    JNull
  | JBool bool
  | JNum string
  | JStr string
  | JArr "json list"
  | JObj "(string \<times> json) list"

subsection \<open>What the database writes\<close>

definition mapJson :: "string gomap \<Rightarrow> json" where
  "mapJson m = JObj (map (\<lambda>(k, v). (k, JStr v)) m)"

text \<open>The names of columns are folded to lower case.\<close>

definition imageRowJson :: "Image \<Rightarrow> json" where
  "imageRowJson im = JObj [(''digest'', JStr (Digest im)), (''mediatype'', JStr (MediaType im)),
     (''architecture'', JStr (Architecture im)), (''os'', JStr (OS im)),
     (''annotations'', mapJson (Annotations im)), (''labels'', mapJson (Labels im))]"

definition listRowJson :: "ImageList \<Rightarrow> json" where
  "listRowJson l = JObj [(''digest'', JStr (listDigest l)), (''mediatype'', JStr (listMediaType l)),
     (''annotations'', mapJson (listAnnotations l))]"

definition tagsJson :: "string list \<Rightarrow> json" where
  "tagsJson ts = JArr (map JStr ts)"

subsection \<open>json.Unmarshal\<close>

definition lower_char :: "char \<Rightarrow> char" where
  "lower_char c = (if 65 \<le> (of_char c :: nat) \<and> (of_char c :: nat) \<le> 90 then char_of ((of_char c :: nat) + 32) else c)"

definition lower :: "string \<Rightarrow> string" where
  "lower s = map lower_char s"

fun decodeString :: "json \<Rightarrow> string \<Rightarrow> string option" where
  "decodeString (JStr s) old = Some s"
| "decodeString JNull old = Some old"
| "decodeString _ old = None"

fun decodeEntries :: "(string \<times> json) list \<Rightarrow> string gomap \<Rightarrow> string gomap option" where
  "decodeEntries [] m = Some m"
| "decodeEntries ((k, v) # es) m =
     Option.bind (decodeString v '''') (\<lambda>s. decodeEntries es (gset k s m))"

fun decodeMap :: "json \<Rightarrow> string gomap \<Rightarrow> string gomap option" where
  "decodeMap (JObj es) old = decodeEntries es old"
| "decodeMap JNull old = Some []"
| "decodeMap _ old = None"

definition decodeImageField :: "string \<Rightarrow> json \<Rightarrow> Image \<Rightarrow> Image option" where
  "decodeImageField k v im =
     (if lower k = ''digest'' then map_option (\<lambda>s. im\<lparr>Digest := s\<rparr>) (decodeString v (Digest im))
      else if lower k = ''mediatype'' then map_option (\<lambda>s. im\<lparr>MediaType := s\<rparr>) (decodeString v (MediaType im))
      else if lower k = ''os'' then map_option (\<lambda>s. im\<lparr>OS := s\<rparr>) (decodeString v (OS im))
      else if lower k = ''architecture'' then
        map_option (\<lambda>s. im\<lparr>Architecture := s\<rparr>) (decodeString v (Architecture im))
      else if lower k = ''annotations'' then
        map_option (\<lambda>m. im\<lparr>Annotations := m\<rparr>) (decodeMap v (Annotations im))
      else if lower k = ''labels'' then map_option (\<lambda>m. im\<lparr>Labels := m\<rparr>) (decodeMap v (Labels im))
      else Some im)"

fun decodeImageFields :: "(string \<times> json) list \<Rightarrow> Image \<Rightarrow> Image option" where
  "decodeImageFields [] im = Some im"
| "decodeImageFields ((k, v) # es) im = Option.bind (decodeImageField k v im) (decodeImageFields es)"

text \<open>\<^verbatim>\<open>json.Unmarshal(imageJson, &image)\<close>. A column that is NULL gives an empty text, which is an
  error.\<close>

fun unmarshalImage :: "json option \<Rightarrow> Image \<Rightarrow> Image option" where
  "unmarshalImage (Some (JObj es)) im = decodeImageFields es im"
| "unmarshalImage (Some JNull) im = Some im"
| "unmarshalImage _ im = None"

definition decodeListField :: "string \<Rightarrow> json \<Rightarrow> ImageList \<Rightarrow> ImageList option" where
  "decodeListField k v l =
     (if lower k = ''digest'' then map_option (\<lambda>s. l\<lparr>listDigest := s\<rparr>) (decodeString v (listDigest l))
      else if lower k = ''mediatype'' then map_option (\<lambda>s. l\<lparr>listMediaType := s\<rparr>) (decodeString v (listMediaType l))
      else if lower k = ''annotations'' then
        map_option (\<lambda>m. l\<lparr>listAnnotations := m\<rparr>) (decodeMap v (listAnnotations l))
      else Some l)"

fun decodeListFields :: "(string \<times> json) list \<Rightarrow> ImageList \<Rightarrow> ImageList option" where
  "decodeListFields [] l = Some l"
| "decodeListFields ((k, v) # es) l = Option.bind (decodeListField k v l) (decodeListFields es)"

text \<open>The row of \<^verbatim>\<open>list\<close> has no column for the images or the tags.\<close>

fun unmarshalList :: "json option \<Rightarrow> ImageList \<Rightarrow> ImageList option" where
  "unmarshalList (Some (JObj es)) l = decodeListFields es l"
| "unmarshalList (Some JNull) l = Some l"
| "unmarshalList _ l = None"

fun decodeStrings :: "json list \<Rightarrow> string list option" where
  "decodeStrings [] = Some []"
| "decodeStrings (v # vs) = Option.bind (decodeString v '''') (\<lambda>s. map_option ((#) s) (decodeStrings vs))"

fun unmarshalStrings :: "json option \<Rightarrow> string list option" where
  "unmarshalStrings (Some (JArr vs)) = decodeStrings vs"
| "unmarshalStrings (Some JNull) = Some []"
| "unmarshalStrings _ = None"

fun decodeImages :: "json list \<Rightarrow> Image list option" where
  "decodeImages [] = Some []"
| "decodeImages (v # vs) =
     Option.bind (unmarshalImage (Some v) zeroImage) (\<lambda>im. map_option ((#) im) (decodeImages vs))"

fun unmarshalImages :: "json option \<Rightarrow> Image list option" where
  "unmarshalImages (Some (JArr vs)) = decodeImages vs"
| "unmarshalImages (Some JNull) = Some []"
| "unmarshalImages _ = None"

subsection \<open>Reading back what the database wrote\<close>

lemma decodeEntries_mapJson:
  "distinct (map fst (m @ es)) \<Longrightarrow> decodeEntries (map (\<lambda>(k, v). (k, JStr v)) es) m = Some (m @ es)"
proof (induction es arbitrary: m)
  case (Cons e es)
  obtain k v where e: "e = (k, v)" by (cases e)
  have "k \<notin> set (map fst m)" using Cons.prems e by auto
  then have "gset k v m = m @ [(k, v)]" by (induction m) auto
  then show ?case using Cons.IH [of "m @ [(k, v)]"] Cons.prems e by simp
qed simp

lemma decodeMap_mapJson: "gomap_wf m \<Longrightarrow> decodeMap (mapJson m) [] = Some m"
  using decodeEntries_mapJson [of "[]" m] by (simp add: mapJson_def)

lemma lower_simps:
  "lower ''digest'' = ''digest''" "lower ''mediatype'' = ''mediatype''" "lower ''os'' = ''os''"
  "lower ''architecture'' = ''architecture''" "lower ''annotations'' = ''annotations''"
  "lower ''labels'' = ''labels''"
  by (simp_all add: lower_def lower_char_def)

definition image_wf :: "Image \<Rightarrow> bool" where
  "image_wf im \<longleftrightarrow> gomap_wf (Annotations im) \<and> gomap_wf (Labels im)"

lemma unmarshalImage_row:
  "image_wf im \<Longrightarrow> unmarshalImage (Some (imageRowJson im)) zeroImage = Some im"
  by (simp add: imageRowJson_def decodeImageField_def lower_simps decodeMap_mapJson image_wf_def zeroImage_def)

lemma unmarshalList_row:
  "gomap_wf (listAnnotations l) \<Longrightarrow>
   unmarshalList (Some (listRowJson l)) \<lparr>listDigest = '''', listMediaType = '''', listImages = [], listAnnotations = []\<rparr> =
     Some (l\<lparr>listImages := []\<rparr>)"
  by (simp add: listRowJson_def decodeListField_def lower_simps decodeMap_mapJson)

lemma unmarshalStrings_tags: "unmarshalStrings (Some (tagsJson ts)) = Some ts"
proof -
  have "decodeStrings (map JStr ts) = Some ts" by (induction ts) auto
  then show ?thesis by (simp add: tagsJson_def)
qed

lemma unmarshalImages_rows:
  "list_all image_wf ims \<Longrightarrow> unmarshalImages (Some (JArr (map imageRowJson ims))) = Some ims"
proof -
  assume "list_all image_wf ims"
  then have "decodeImages (map imageRowJson ims) = Some ims"
    by (induction ims) (simp_all add: unmarshalImage_row)
  then show ?thesis by simp
qed

end
