(* ===== verification/Json.thy ===== *)
theory Json
  imports GoText
begin

section \<open>JSON objects of strings\<close>

text \<open>
  The one kind of JSON the program writes itself: \<^verbatim>\<open>json.Marshal\<close> of a \<^verbatim>\<open>map[string]string\<close>
  (annotations, labels, and the one-entry objects of a query). \<open>marshalString\<close> and \<open>marshalMap\<close>
  follow Go's encoder (HTML-safe escapes, keys in sorted order); \<open>jsonb_text\<close> reads the text the way
  a \<^verbatim>\<open>jsonb\<close> column does, which refuses the character U+0000.
\<close>

subsection \<open>Writing\<close>

definition hexDigit :: "nat \<Rightarrow> char" where
  "hexDigit d = (if d < 10 then char_of (48 + d) else char_of (87 + d))"

definition escapeByte :: "nat \<Rightarrow> string" where
  "escapeByte b = CHR 0x5C # ''u00'' @ [hexDigit (b div 16), hexDigit (b mod 16)]"

definition lineSep :: string where
  "lineSep = map char_of [226 :: nat, 128, 168]"

definition paraSep :: string where
  "paraSep = map char_of [226 :: nat, 128, 169]"

text \<open>One character of a string, given as its UTF-8 bytes.\<close>

definition marshalRune :: "string \<Rightarrow> string" where
  "marshalRune c =
     (if length c = 1 then
        let b = byte (hd c)
        in if b = 0x22 \<or> b = 0x5C then CHR 0x5C # c
           else if b = 10 then CHR 0x5C # ''n''
           else if b = 13 then CHR 0x5C # ''r''
           else if b = 9 then CHR 0x5C # ''t''
           else if b < 32 \<or> b = 0x3C \<or> b = 0x3E \<or> b = 0x26 then escapeByte b
           else c
      else if c = lineSep then CHR 0x5C # ''u2028''
      else if c = paraSep then CHR 0x5C # ''u2029''
      else c)"

text \<open>A byte that is not valid UTF-8 is written as the escape of U+FFFD.\<close>

function marshalBody :: "string \<Rightarrow> string" where
  "marshalBody [] = []"
| "marshalBody (a # s) =
     (let n = rune_size (a # s)
      in if n = 0 then CHR 0x5C # ''ufffd'' @ marshalBody s
         else marshalRune (take n (a # s)) @ marshalBody (drop n (a # s)))"
  by pat_completeness auto
termination
  by (relation "measure length") auto

declare marshalBody.simps(2) [simp del]

definition marshalString :: "string \<Rightarrow> string" where
  "marshalString s = CHR 0x22 # marshalBody s @ [CHR 0x22]"

fun marshalEntries :: "(string \<times> string) list \<Rightarrow> string" where
  "marshalEntries [] = []"
| "marshalEntries [(k, v)] = marshalString k @ '':'' @ marshalString v"
| "marshalEntries ((k, v) # e # es) =
     marshalString k @ '':'' @ marshalString v @ '','' @ marshalEntries (e # es)"

definition marshalMap :: "string gomap \<Rightarrow> string" where
  "marshalMap m = ''{'' @ marshalEntries (map (\<lambda>k. (k, gget0 [] m k)) (sort (gkeys m))) @ ''}''"

subsection \<open>Reading\<close>

definition unhex :: "char \<Rightarrow> nat option" where
  "unhex c = (if within 48 57 c then Some (byte c - 48)
     else if within 97 102 c then Some (byte c - 87)
     else if within 65 70 c then Some (byte c - 55) else None)"

definition unhex4 :: "char \<Rightarrow> char \<Rightarrow> char \<Rightarrow> char \<Rightarrow> nat option" where
  "unhex4 a b c d = (case (unhex a, unhex b, unhex c, unhex d) of
       (Some w, Some x, Some y, Some z) \<Rightarrow> Some (((w * 16 + x) * 16 + y) * 16 + z)
     | _ \<Rightarrow> None)"

text \<open>UTF-8 of a character below U+10000; surrogates and U+0000 are refused.\<close>

definition utf8 :: "nat \<Rightarrow> string option" where
  "utf8 n = (if n = 0 \<or> 0xD800 \<le> n \<and> n \<le> 0xDFFF \<or> 0x10000 \<le> n then None
     else if n < 0x80 then Some [char_of n]
     else if n < 0x800 then Some [char_of (192 + n div 64), char_of (128 + n mod 64)]
     else Some [char_of (224 + n div 4096), char_of (128 + (n div 64) mod 64), char_of (128 + n mod 64)])"

text \<open>The body of a string, after its opening quote: the contents and what follows the closing one.\<close>

fun readBody :: "string \<Rightarrow> (string \<times> string) option" where
  "readBody [] = None"
| "readBody (c # s) =
     (if c = CHR 0x22 then Some ([], s)
      else if c = CHR 0x5C then
        (case s of
           [] \<Rightarrow> None
         | e # s' \<Rightarrow>
             if e = CHR ''u'' then
               (case s' of a # b # x # y # s'' \<Rightarrow>
                  (case Option.bind (unhex4 a b x y) utf8 of None \<Rightarrow> None
                   | Some u \<Rightarrow> map_option (\<lambda>(t, r). (u @ t, r)) (readBody s''))
                | _ \<Rightarrow> None)
             else
               (case map_of [(CHR 0x22, CHR 0x22), (CHR 0x5C, CHR 0x5C), (CHR ''/'', CHR ''/''),
                   (CHR ''b'', char_of (8::nat)), (CHR ''f'', char_of (12::nat)),
                   (CHR ''n'', char_of (10::nat)), (CHR ''r'', char_of (13::nat)),
                   (CHR ''t'', char_of (9::nat))] e of None \<Rightarrow> None
                | Some u \<Rightarrow> map_option (\<lambda>(t, r). (u # t, r)) (readBody s')))
      else map_option (\<lambda>(t, r). (c # t, r)) (readBody s))"

declare readBody.simps(2) [simp del]

definition readString :: "string \<Rightarrow> (string \<times> string) option" where
  "readString s = (case s of c # r \<Rightarrow> if c = CHR 0x22 then readBody r else None | [] \<Rightarrow> None)"

lemma unhex_hexDigit: "d < 16 \<Longrightarrow> unhex (hexDigit d) = Some d"
  by (auto simp: unhex_def hexDigit_def within_def)

lemma readBody_quote: "readBody (CHR 0x22 # s) = Some ([], s)"
  by (simp add: readBody.simps(2))

lemma readBody_plain:
  "c \<noteq> CHR 0x22 \<Longrightarrow> c \<noteq> CHR 0x5C \<Longrightarrow> readBody (c # s) = map_option (\<lambda>(t, r). (c # t, r)) (readBody s)"
  by (simp add: readBody.simps(2))

lemma readBody_unicode:
  "unhex4 a b x y = Some n \<Longrightarrow> utf8 n = Some u \<Longrightarrow>
     readBody (CHR 0x5C # CHR ''u'' # a # b # x # y # s) = map_option (\<lambda>(t, r). (u @ t, r)) (readBody s)"
  by (simp add: readBody.simps(2))

lemma readBody_bytes:
  "\<forall>c \<in> set cs. 128 \<le> byte c \<Longrightarrow> readBody (cs @ s) = map_option (\<lambda>(t, r). (cs @ t, r)) (readBody s)"
proof (induction cs)
  case Nil
  show ?case by (cases "readBody s") auto
next
  case (Cons c cs)
  then have "c \<noteq> CHR 0x22" "c \<noteq> CHR 0x5C" by auto
  then show ?case using Cons by (cases "readBody s") (auto simp: readBody_plain)
qed

lemma rune_high_bytes:
  assumes "is_rune c" "length c \<noteq> 1"
  shows "\<forall>x \<in> set c. 128 \<le> byte x"
  using assms
  by (cases c) (auto simp: is_rune_def second_ok_def within_def split: if_splits list.splits)


lemma readBody_marshalRune:
  assumes "is_rune c" "c \<noteq> [char_of (0::nat)]"
  shows "readBody (marshalRune c @ s) = map_option (\<lambda>(t, r). (c @ t, r)) (readBody s)"
proof (cases "length c = 1")
  case True
  then obtain x where c: "c = [x]" by (cases c) auto
  have b: "byte x < 128" using assms(1) by (auto simp: c is_rune_def split: if_splits)
  have nz: "byte x \<noteq> 0" using assms(2) c by (metis char_of_char)
  have eq: "byte x = n \<Longrightarrow> x = char_of n" for n :: nat by (metis char_of_char)
  have esc: "readBody (escapeByte (byte x) @ s) = map_option (\<lambda>(t, r). ([x] @ t, r)) (readBody s)"
  proof -
    have "unhex (CHR ''0'') = Some 0" by (simp add: unhex_def within_def)
    then have "unhex4 (CHR ''0'') (CHR ''0'') (hexDigit (byte x div 16)) (hexDigit (byte x mod 16)) =
        Some (byte x div 16 * 16 + byte x mod 16)"
      using b by (simp add: unhex4_def unhex_hexDigit)
    then have "unhex4 (CHR ''0'') (CHR ''0'') (hexDigit (byte x div 16)) (hexDigit (byte x mod 16)) =
        Some (byte x)" by simp
    moreover have "utf8 (byte x) = Some [x]" using b nz by (simp add: utf8_def)
    ultimately show ?thesis by (simp add: escapeByte_def readBody_unicode)
  qed
  have q: "x = CHR 0x22 \<longleftrightarrow> byte x = 0x22" "x = CHR 0x5C \<longleftrightarrow> byte x = 0x5C"
    using of_char_eq_iff [of x "CHR 0x22", where 'a = nat] of_char_eq_iff [of x "CHR 0x5C", where 'a = nat]
    by simp_all
  consider "byte x = 0x22" | "byte x = 0x5C" | "byte x = 10" | "byte x = 13" | "byte x = 9"
    | "byte x \<notin> {0x22, 0x5C, 10, 13, 9}" "byte x < 32 \<or> byte x = 0x3C \<or> byte x = 0x3E \<or> byte x = 0x26"
    | "byte x \<notin> {0x22, 0x5C, 10, 13, 9}" "\<not> (byte x < 32 \<or> byte x = 0x3C \<or> byte x = 0x3E \<or> byte x = 0x26)"
    by auto
  then show ?thesis
  proof cases
    case 6
    then show ?thesis using esc by (simp add: c marshalRune_def Let_def)
  next
    case 7
    then show ?thesis using q by (simp add: c marshalRune_def Let_def readBody_plain)
  qed (use eq q in \<open>auto simp: c marshalRune_def Let_def readBody.simps(2)\<close>)
next
  case False
  have "unhex4 CHR ''2'' CHR ''0'' CHR ''2'' CHR ''8'' = Some 0x2028"
    "unhex4 CHR ''2'' CHR ''0'' CHR ''2'' CHR ''9'' = Some 0x2029"
    by (simp_all add: unhex4_def unhex_def within_def)
  moreover have "utf8 0x2028 = Some lineSep" "utf8 0x2029 = Some paraSep"
    by (simp_all add: utf8_def lineSep_def paraSep_def)
  ultimately show ?thesis
    using False readBody_bytes [OF rune_high_bytes [OF assms(1) False], of s]
    by (simp add: marshalRune_def readBody_unicode)
qed

lemma readBody_marshalBody:
  assumes "char_of (0::nat) \<notin> set s"
  shows "readBody (marshalBody s @ CHR 0x22 # r) = Some (concat (runes s), r)"
  using assms
proof (induction s rule: marshalBody.induct)
  case 1
  then show ?case by (simp add: readBody_quote)
next
  case (2 a s)
  let ?n = "rune_size (a # s)"
  show ?case
  proof (cases "?n = 0")
    case True
    have "unhex4 CHR ''f'' CHR ''f'' CHR ''f'' CHR ''d'' = Some 0xFFFD"
      by (simp add: unhex4_def unhex_def within_def)
    moreover have "utf8 0xFFFD = Some replacementChar"
      by (simp add: utf8_def replacementChar_def)
    ultimately show ?thesis
      using True "2.IH"(1) "2.prems"
      by (simp add: marshalBody.simps(2) runes.simps(2) Let_def readBody_unicode del: rune_size.simps)
  next
    case False
    let ?c = "take ?n (a # s)"
    have "?c \<noteq> [char_of (0::nat)]" using "2.prems" False by (cases ?n) auto
    moreover have "char_of (0::nat) \<notin> set (drop ?n (a # s))"
      using "2.prems" by (meson in_set_dropD)
    ultimately show ?thesis
      using False "2.IH"(2) readBody_marshalRune [OF is_rune_take [OF False]]
      by (simp add: marshalBody.simps(2) runes.simps(2) Let_def del: rune_size.simps take_Suc_Cons)
  qed
qed

lemma readString_marshalString:
  "char_of (0::nat) \<notin> set s \<Longrightarrow> readString (marshalString s @ r) = Some (concat (runes s), r)"
  using readBody_marshalBody [of s r] by (simp add: readString_def marshalString_def)


lemma readBody_shorter: "readBody s = Some (t, r) \<Longrightarrow> length r < length s"
proof (induction s arbitrary: t r rule: readBody.induct)
  case (2 c s)
  then show ?case
    by (auto simp: readBody.simps(2) split: if_splits list.splits option.splits)
      (fastforce+)
qed simp

lemma readString_shorter: "readString s = Some (t, r) \<Longrightarrow> length r < length s"
  by (auto simp: readString_def split: list.splits if_splits dest: readBody_shorter)

text \<open>The entries of an object, after its opening brace. The program's own texts contain no
  insignificant white space.\<close>

function readEntries :: "string \<Rightarrow> string gomap option" where
  "readEntries s =
     (case readString s of
        None \<Rightarrow> None
      | Some (k, r) \<Rightarrow>
          (case r of
             c # r' \<Rightarrow>
               if c \<noteq> CHR '':'' then None
               else (case readString r' of
                       None \<Rightarrow> None
                     | Some (v, r'') \<Rightarrow>
                         if r'' = ''}'' then Some [(k, v)]
                         else if r'' \<noteq> [] \<and> hd r'' = CHR '','' then
                           map_option (\<lambda>m. (k, v) # m) (readEntries (tl r''))
                         else None)
           | [] \<Rightarrow> None))"
  by pat_completeness auto
termination
  by (relation "measure length") (auto dest!: readString_shorter)

declare readEntries.simps [simp del]

text \<open>Of the entries with one key the last one counts.\<close>

definition lastWins :: "(string \<times> string) list \<Rightarrow> string gomap" where
  "lastWins es = fold (\<lambda>(k, v). gset k v) es []"

definition jsonb_text :: "string \<Rightarrow> string gomap option" where
  "jsonb_text s = (if s = ''{}'' then Some []
     else case s of c # r \<Rightarrow> if c = CHR ''{'' then map_option lastWins (readEntries r) else None | [] \<Rightarrow> None)"

lemma lastWins_wf: "gomap_wf (lastWins es)"
proof -
  have "gomap_wf m \<Longrightarrow> gomap_wf (fold (\<lambda>(k, v). gset k v) es m)" for m
    by (induction es arbitrary: m) (auto simp: distinct_update)
  then show ?thesis by (simp add: lastWins_def)
qed

lemma lastWins_keys:
  "gget (lastWins (map (\<lambda>k. (k, f k)) ks)) k = (if k \<in> set ks then Some (f k) else None)"
proof -
  have "gget (fold (\<lambda>(k, v). gset k v) (map (\<lambda>k. (k, f k)) ks) m) k =
      (if k \<in> set ks then Some (f k) else gget m k)" for m
    by (induction ks arbitrary: m) auto
  then show ?thesis by (simp add: lastWins_def)
qed

lemma jsonb_text_wf: "jsonb_text s = Some m \<Longrightarrow> gomap_wf m"
  by (auto simp: jsonb_text_def lastWins_wf split: if_splits list.splits)

definition json_safe :: "string \<Rightarrow> bool" where
  "json_safe s \<longleftrightarrow> char_of (0::nat) \<notin> set s"

definition normal :: "string \<Rightarrow> string" where
  "normal s = concat (runes s)"

lemma readString_marshal:
  "json_safe s \<Longrightarrow> readString (marshalString s @ r) = Some (normal s, r)"
  by (simp add: json_safe_def normal_def readString_marshalString)

lemma readEntries_marshal:
  assumes "es \<noteq> []" "\<forall>(k, v) \<in> set es. json_safe k \<and> json_safe v"
  shows "readEntries (marshalEntries es @ ''}'') = Some (map (\<lambda>(k, v). (normal k, normal v)) es)"
  using assms
proof (induction es rule: marshalEntries.induct)
  case (2 k v)
  then show ?case by (simp add: readEntries.simps readString_marshal)
next
  case (3 k v e es)
  then show ?case
    by (subst readEntries.simps) (simp add: readString_marshal)
qed simp


lemma marshalEntries_head: "es \<noteq> [] \<Longrightarrow> \<exists>r. marshalEntries es = CHR 0x22 # r"
  by (induction es rule: marshalEntries.induct) (auto simp: marshalString_def)

lemma jsonb_marshalMap:
  assumes "\<forall>k \<in> set (gkeys m). json_safe k \<and> json_safe (gget0 [] m k)"
  shows "jsonb_text (marshalMap m) =
    Some (lastWins (map (\<lambda>k. (normal k, normal (gget0 [] m k))) (sort (gkeys m))))"
proof (cases "m = []")
  case True
  then show ?thesis by (simp add: marshalMap_def jsonb_text_def lastWins_def)
next
  case False
  let ?es = "map (\<lambda>k. (k, gget0 [] m k)) (sort (gkeys m))"
  have ne: "?es \<noteq> []" using False by (metis length_0_conv length_map length_sort)
  obtain r where r: "marshalEntries ?es = CHR 0x22 # r" using marshalEntries_head [OF ne] by blast
  have "readEntries (marshalEntries ?es @ ''}'') = Some (map (\<lambda>(k, v). (normal k, normal v)) ?es)"
    using assms by (intro readEntries_marshal [OF ne]) auto
  then show ?thesis by (simp add: marshalMap_def jsonb_text_def r comp_def)
qed

text \<open>
  A map of strings survives the trip through the database: the JSON text that \<^verbatim>\<open>json.Marshal\<close> writes
  for it is read back by a \<^verbatim>\<open>jsonb\<close> column as the same map, for every map of valid UTF-8 strings without
  U+0000.
\<close>

theorem json_roundtrip:
  assumes "\<forall>k \<in> set (gkeys m). json_safe k \<and> json_safe (gget0 [] m k)"
    and "\<forall>k \<in> set (gkeys m). normal k = k \<and> normal (gget0 [] m k) = gget0 [] m k"
  shows "\<exists>m'. jsonb_text (marshalMap m) = Some m' \<and> (\<forall>k. gget m' k = gget m k)"
proof -
  have eq: "map (\<lambda>k. (normal k, normal (gget0 [] m k))) (sort (gkeys m)) =
      map (\<lambda>k. (k, gget0 [] m k)) (sort (gkeys m))"
    using assms(2) by auto
  have "gget (lastWins (map (\<lambda>k. (k, gget0 [] m k)) (sort (gkeys m)))) k = gget m k" for k
    unfolding lastWins_keys set_sort gkeys_iff by (cases "gget m k") auto
  then show ?thesis using jsonb_marshalMap [OF assms(1)] eq by simp
qed

theorem json_roundtrip_witness:
  "\<exists>m'. jsonb_text (marshalMap [(''vendor'', ''A&B''), (''name'', ''x'')]) = Some m' \<and>
     gget m' ''vendor'' = Some ''A&B''"
proof -
  let ?m = "[(''vendor'', ''A&B''), (''name'', ''x'')]"
  have "\<forall>k \<in> set (gkeys ?m). json_safe k \<and> json_safe (gget0 [] ?m k)"
    by (simp add: json_safe_def gget0_def char_of_def)
  moreover have "normal ''vendor'' = ''vendor''" by code_simp
  moreover have "normal ''name'' = ''name''" by code_simp
  moreover have "normal ''x'' = ''x''" by code_simp
  moreover have "normal ''A&B'' = ''A&B''" by code_simp
  ultimately show ?thesis using json_roundtrip [of ?m] by (simp add: gget0_def) (metis)
qed

end
