(* ===== verification/SqlWhere.thy ===== *)
theory SqlWhere
  imports Json Types
begin

section \<open>The WHERE clauses the database evaluates\<close>

text \<open>
  The SQL the program sends is text. Here is the part of the SQL language that its WHERE clauses use,
  as a reader of that text and a meaning for what it reads: \<^verbatim>\<open>OR\<close> binds weaker than \<^verbatim>\<open>AND\<close>, parentheses
  group, \<^verbatim>\<open>$n\<close> is the n-th argument. A condition is evaluated on a row of the join of a tag table
  \<^verbatim>\<open>t\<close> with the table \<^verbatim>\<open>image i\<close>. The pattern operator \<^verbatim>\<open>like\<close> is a parameter; what PostgreSQL documents of
  it is the locale \<open>like_operator\<close>.
\<close>

subsection \<open>The pattern operator\<close>

text \<open>Patterns and subjects are lists of characters, a character being its UTF-8 bytes.\<close>

type_synonym like_op = "string list \<Rightarrow> string list \<Rightarrow> bool"

locale like_operator =
  fixes like :: like_op
  assumes like_end: "like [] s \<longleftrightarrow> s = []"
    and like_percent: "like (''%'' # p) s \<longleftrightarrow> (\<exists>u v. s = u @ v \<and> like p v)"
    and like_underscore: "like (''_'' # p) s \<longleftrightarrow> (\<exists>c v. s = c # v \<and> like p v)"
    and like_escape: "like ([CHR 0x5C] # c # p) s \<longleftrightarrow> (\<exists>v. s = c # v \<and> like p v)"
    and like_literal: "c \<noteq> ''%'' \<Longrightarrow> c \<noteq> ''_'' \<Longrightarrow> c \<noteq> [CHR 0x5C] \<Longrightarrow>
      like (c # p) s \<longleftrightarrow> (\<exists>v. s = c # v \<and> like p v)"

text \<open>A matcher with these laws. A pattern that ends in the escape character is an error in
  PostgreSQL; this matcher lets it match nothing.\<close>

fun sql_like :: like_op where
  "sql_like [] s = (s = [])"
| "sql_like (p # ps) [] = (p = ''%'' \<and> sql_like ps [])"
| "sql_like (p # ps) (c # s) =
     (if p = ''%'' then sql_like ps (c # s) \<or> sql_like (p # ps) s
      else if p = ''_'' then sql_like ps s
      else if p = [CHR 0x5C] then (case ps of [] \<Rightarrow> False | e # ps' \<Rightarrow> e = c \<and> sql_like ps' s)
      else p = c \<and> sql_like ps s)"

lemma sql_like_percent: "sql_like (''%'' # p) s \<longleftrightarrow> (\<exists>u v. s = u @ v \<and> sql_like p v)"
proof (induction s)
  case Nil
  show ?case by simp
next
  case (Cons c s)
  have "(\<exists>u v. c # s = u @ v \<and> sql_like p v) \<longleftrightarrow> sql_like p (c # s) \<or> (\<exists>u v. s = u @ v \<and> sql_like p v)"
    by (metis Cons_eq_append_conv append_Nil)
  then show ?case using Cons by simp
qed

interpretation pg_like: like_operator sql_like
proof (unfold_locales, goal_cases)
  case (2 p s) show ?case by (rule sql_like_percent)
next
  case (3 p s) show ?case by (cases s) simp_all
next
  case (4 c p s) show ?case by (cases s) auto
next
  case (5 c p s) then show ?case by (cases s) auto
qed simp

subsection \<open>Conditions\<close>

datatype column = ColRepository | ColTag | ColOS | ColArchitecture

datatype mapColumn = ColAnnotations | ColLabels

datatype atom =
    AtomEq column nat
  | AtomLike column nat
  | AtomContains mapColumn nat
  | AtomFieldLike mapColumn nat nat
  | AtomHasKey mapColumn nat

datatype cond_exp = Atom atom | And cond_exp cond_exp | Or cond_exp cond_exp

record join_row =
  rowRepository :: string
  rowTag :: string
  rowImage :: Image

fun column_value :: "column \<Rightarrow> join_row \<Rightarrow> string" where
  "column_value ColRepository r = rowRepository r"
| "column_value ColTag r = rowTag r"
| "column_value ColOS r = OS (rowImage r)"
| "column_value ColArchitecture r = Architecture (rowImage r)"

fun map_value :: "mapColumn \<Rightarrow> join_row \<Rightarrow> string gomap" where
  "map_value ColAnnotations r = Annotations (rowImage r)"
| "map_value ColLabels r = Labels (rowImage r)"

text \<open>\<^verbatim>\<open>$n\<close> counts from 1.\<close>

definition param :: "string list \<Rightarrow> nat \<Rightarrow> string option" where
  "param as n = (if 0 < n \<and> n \<le> length as then Some (as ! (n - 1)) else None)"

definition contains_all :: "string gomap \<Rightarrow> string gomap \<Rightarrow> bool" where
  "contains_all m o' = list_all (\<lambda>(k, v). gget m k = Some v) o'"

text \<open>\<^const>\<open>None\<close> is a statement that fails: a missing argument, or one that is not JSON where JSON is
  needed. \<^verbatim>\<open>jsonb_object_field_text\<close> of a missing key is NULL, and NULL is not true.\<close>

fun eval_atom :: "like_op \<Rightarrow> string list \<Rightarrow> join_row \<Rightarrow> atom \<Rightarrow> bool option" where
  "eval_atom like as r (AtomEq c n) = map_option (\<lambda>a. column_value c r = a) (param as n)"
| "eval_atom like as r (AtomLike c n) =
     map_option (\<lambda>a. like (runes a) (runes (column_value c r))) (param as n)"
| "eval_atom like as r (AtomContains c n) =
     map_option (\<lambda>m. contains_all (map_value c r) m) (Option.bind (param as n) jsonb_text)"
| "eval_atom like as r (AtomFieldLike c k n) =
     Option.bind (param as k) (\<lambda>key. Option.bind (param as n) (\<lambda>a.
       Some (case gget (map_value c r) key of None \<Rightarrow> False | Some v \<Rightarrow> like (runes a) (runes v))))"
| "eval_atom like as r (AtomHasKey c n) =
     map_option (\<lambda>key. gget (map_value c r) key \<noteq> None) (param as n)"

fun eval_cond :: "like_op \<Rightarrow> string list \<Rightarrow> join_row \<Rightarrow> cond_exp \<Rightarrow> bool option" where
  "eval_cond like as r (Atom a) = eval_atom like as r a"
| "eval_cond like as r (And a b) =
     Option.bind (eval_cond like as r a) (\<lambda>x. map_option (\<lambda>y. x \<and> y) (eval_cond like as r b))"
| "eval_cond like as r (Or a b) =
     Option.bind (eval_cond like as r a) (\<lambda>x. map_option (\<lambda>y. x \<or> y) (eval_cond like as r b))"

subsection \<open>Reading a clause\<close>

fun strip :: "string \<Rightarrow> string \<Rightarrow> string option" where
  "strip [] s = Some s"
| "strip (p # ps) [] = None"
| "strip (p # ps) (c # s) = (if p = c then strip ps s else None)"

definition read_param :: "string \<Rightarrow> (nat \<times> string) option" where
  "read_param s = (case s of c # d # r \<Rightarrow>
       if c = CHR ''$'' \<and> is_digit d then Some (read_nat 0 (d # r)) else None
     | _ \<Rightarrow> None)"

text \<open>Each form of a condition: the text before its argument, and what it reads as.\<close>

definition atom_forms :: "(string \<times> (nat \<Rightarrow> atom)) list" where
  "atom_forms =
    [(''t.Repository = '', AtomEq ColRepository), (''t.Repository like '', AtomLike ColRepository),
     (''t.Tag = '', AtomEq ColTag), (''t.Tag like '', AtomLike ColTag),
     (''i.OS = '', AtomEq ColOS), (''i.OS like '', AtomLike ColOS),
     (''i.Architecture = '', AtomEq ColArchitecture), (''i.Architecture like '', AtomLike ColArchitecture),
     (''i.Annotations @> '', AtomContains ColAnnotations), (''i.Annotations ? '', AtomHasKey ColAnnotations),
     (''i.Labels @> '', AtomContains ColLabels), (''i.Labels ? '', AtomHasKey ColLabels)]"

definition field_forms :: "(string \<times> mapColumn) list" where
  "field_forms =
    [(''jsonb_object_field_text(i.Annotations, '', ColAnnotations),
     (''jsonb_object_field_text(i.Labels, '', ColLabels)]"

fun read_forms :: "(string \<times> (nat \<Rightarrow> atom)) list \<Rightarrow> string \<Rightarrow> (atom \<times> string) option" where
  "read_forms [] s = None"
| "read_forms ((p, f) # fs) s =
     (case strip p s of None \<Rightarrow> read_forms fs s
      | Some r \<Rightarrow> map_option (\<lambda>(n, r'). (f n, r')) (read_param r))"

fun read_fields :: "(string \<times> mapColumn) list \<Rightarrow> string \<Rightarrow> (atom \<times> string) option" where
  "read_fields [] s = None"
| "read_fields ((p, c) # fs) s =
     (case strip p s of None \<Rightarrow> read_fields fs s
      | Some r \<Rightarrow> Option.bind (read_param r) (\<lambda>(k, r1). Option.bind (strip '') like '' r1) (\<lambda>r2.
          map_option (\<lambda>(n, r3). (AtomFieldLike c k n, r3)) (read_param r2))))"

definition read_atom :: "string \<Rightarrow> (atom \<times> string) option" where
  "read_atom s = (case read_forms atom_forms s of Some x \<Rightarrow> Some x | None \<Rightarrow> read_fields field_forms s)"

text \<open>\<open>read_or\<close>, \<open>read_and\<close> and \<open>read_prim\<close> are the levels of the grammar. The number bounds the
  nesting of calls; the length of the text is always enough for it.\<close>

fun read_or :: "nat \<Rightarrow> string \<Rightarrow> (cond_exp \<times> string) option"
  and read_and :: "nat \<Rightarrow> string \<Rightarrow> (cond_exp \<times> string) option"
  and read_prim :: "nat \<Rightarrow> string \<Rightarrow> (cond_exp \<times> string) option" where
  "read_or 0 s = None"
| "read_or (Suc n) s = Option.bind (read_and n s) (\<lambda>(a, r).
     case strip '' OR '' r of None \<Rightarrow> Some (a, r)
     | Some r' \<Rightarrow> map_option (\<lambda>(b, r''). (Or a b, r'')) (read_or n r'))"
| "read_and 0 s = None"
| "read_and (Suc n) s = Option.bind (read_prim n s) (\<lambda>(a, r).
     case strip '' AND '' r of None \<Rightarrow> Some (a, r)
     | Some r' \<Rightarrow> map_option (\<lambda>(b, r''). (And a b, r'')) (read_and n r'))"
| "read_prim 0 s = None"
| "read_prim (Suc n) s = (case s of
     c # r \<Rightarrow> if c = CHR ''('' then Option.bind (read_or n r) (\<lambda>(a, r'). map_option (\<lambda>r''. (a, r'')) (strip '')'' r'))
              else map_option (\<lambda>(a, r'). (Atom a, r')) (read_atom s)
   | [] \<Rightarrow> None)"

text \<open>The condition of a statement: no WHERE clause accepts every row; a clause has to be read to its
  end. \<^const>\<open>None\<close> is a syntax error.\<close>

definition read_where :: "string \<Rightarrow> cond_exp option option" where
  "read_where s = (if s = '''' then Some None
     else Option.bind (strip '' WHERE '' s) (\<lambda>r.
       case read_or (3 * length r + 3) r of Some (e, []) \<Rightarrow> Some (Some e) | _ \<Rightarrow> None))"

definition sql_where :: "like_op \<Rightarrow> string \<Rightarrow> string list \<Rightarrow> join_row \<Rightarrow> bool option" where
  "sql_where like clause as r = Option.bind (read_where clause) (\<lambda>e.
     case e of None \<Rightarrow> Some True | Some c \<Rightarrow> eval_cond like as r c)"

end
