(* ===== verification/Query.thy ===== *)
theory Query
  imports Types
begin

section \<open>Queries (database/database.go)\<close>

text \<open>
  A query collects, per attribute of an image, the terms of which one has to hold. The builder
  methods mutate the query in place and return it; here they return the new query. \<open>query_wf\<close> is what
  they keep: only annotations and labels are ever tested for existence, and every key of the two maps
  has at least one term.
\<close>

datatype QueryType = QueryIs | QueryExists | QueryMatches

record QueryTerm =
  queryType :: QueryType
  argument :: string

record Query =
  qRepository :: "QueryTerm list"
  qTag :: "QueryTerm list"
  qOS :: "QueryTerm list"
  qArchitecture :: "QueryTerm list"
  qAnnotations :: "QueryTerm list gomap"
  qLabels :: "QueryTerm list gomap"

definition NewQuery :: Query where
  "NewQuery = \<lparr>qRepository = [], qTag = [], qOS = [], qArchitecture = [], qAnnotations = [], qLabels = []\<rparr>"

definition Repository_q :: "string \<Rightarrow> Query \<Rightarrow> Query" where
  "Repository_q r q = q\<lparr>qRepository := qRepository q @ [\<lparr>queryType = QueryIs, argument = r\<rparr>]\<rparr>"

definition Tag_q :: "string \<Rightarrow> Query \<Rightarrow> Query" where
  "Tag_q t q = q\<lparr>qTag := qTag q @ [\<lparr>queryType = QueryIs, argument = t\<rparr>]\<rparr>"

definition TagMatches :: "string \<Rightarrow> Query \<Rightarrow> Query" where
  "TagMatches t q = q\<lparr>qTag := qTag q @ [\<lparr>queryType = QueryMatches, argument = t\<rparr>]\<rparr>"

definition OS_q :: "string \<Rightarrow> Query \<Rightarrow> Query" where
  "OS_q os q = q\<lparr>qOS := qOS q @ [\<lparr>queryType = QueryIs, argument = os\<rparr>]\<rparr>"

definition Architecture_q :: "string \<Rightarrow> Query \<Rightarrow> Query" where
  "Architecture_q a q = q\<lparr>qArchitecture := qArchitecture q @ [\<lparr>queryType = QueryIs, argument = a\<rparr>]\<rparr>"

text \<open>\<^verbatim>\<open>m[key] = append(m[key], term)\<close>\<close>

definition appendTerm :: "string \<Rightarrow> QueryTerm \<Rightarrow> QueryTerm list gomap \<Rightarrow> QueryTerm list gomap" where
  "appendTerm key term m = gset key (gget0 [] m key @ [term]) m"

definition AnnotationExists :: "string \<Rightarrow> Query \<Rightarrow> Query" where
  "AnnotationExists a q =
     q\<lparr>qAnnotations := appendTerm a \<lparr>queryType = QueryExists, argument = ''''\<rparr> (qAnnotations q)\<rparr>"

definition AnnotationIs :: "string \<Rightarrow> string \<Rightarrow> Query \<Rightarrow> Query" where
  "AnnotationIs a v q =
     q\<lparr>qAnnotations := appendTerm a \<lparr>queryType = QueryIs, argument = v\<rparr> (qAnnotations q)\<rparr>"

definition AnnotationMatches :: "string \<Rightarrow> string \<Rightarrow> Query \<Rightarrow> Query" where
  "AnnotationMatches a p q =
     q\<lparr>qAnnotations := appendTerm a \<lparr>queryType = QueryMatches, argument = p\<rparr> (qAnnotations q)\<rparr>"

definition LabelExists :: "string \<Rightarrow> Query \<Rightarrow> Query" where
  "LabelExists l q =
     q\<lparr>qLabels := appendTerm l \<lparr>queryType = QueryExists, argument = ''''\<rparr> (qLabels q)\<rparr>"

definition LabelIs :: "string \<Rightarrow> string \<Rightarrow> Query \<Rightarrow> Query" where
  "LabelIs l v q =
     q\<lparr>qLabels := appendTerm l \<lparr>queryType = QueryIs, argument = v\<rparr> (qLabels q)\<rparr>"

definition LabelMatches :: "string \<Rightarrow> string \<Rightarrow> Query \<Rightarrow> Query" where
  "LabelMatches l p q =
     q\<lparr>qLabels := appendTerm l \<lparr>queryType = QueryMatches, argument = p\<rparr> (qLabels q)\<rparr>"

lemmas query_ops = Repository_q_def Tag_q_def TagMatches_def OS_q_def Architecture_q_def
  AnnotationExists_def AnnotationIs_def AnnotationMatches_def LabelExists_def LabelIs_def
  LabelMatches_def

subsection \<open>Well-formed queries\<close>

definition plain_terms :: "QueryTerm list \<Rightarrow> bool" where
  "plain_terms ts \<longleftrightarrow> (\<forall>t \<in> set ts. queryType t \<noteq> QueryExists)"

definition query_wf :: "Query \<Rightarrow> bool" where
  "query_wf q \<longleftrightarrow> plain_terms (qRepository q) \<and> plain_terms (qTag q) \<and> plain_terms (qOS q) \<and>
     plain_terms (qArchitecture q) \<and> gomap_wf (qAnnotations q) \<and> gomap_wf (qLabels q) \<and>
     (\<forall>k ts. gget (qAnnotations q) k = Some ts \<longrightarrow> ts \<noteq> []) \<and>
     (\<forall>k ts. gget (qLabels q) k = Some ts \<longrightarrow> ts \<noteq> [])"

lemma gget_appendTerm:
  "gget (appendTerm k t m) x = (if x = k then Some (gget0 [] m k @ [t]) else gget m x)"
  by (simp add: appendTerm_def)

lemma query_wf_New: "query_wf NewQuery"
  by (simp add: query_wf_def NewQuery_def plain_terms_def)

lemma query_wf_ops:
  assumes "query_wf q"
  shows "query_wf (Repository_q x q)" "query_wf (Tag_q x q)" "query_wf (TagMatches x q)"
    "query_wf (OS_q x q)" "query_wf (Architecture_q x q)"
    "query_wf (AnnotationExists x q)" "query_wf (AnnotationIs x v q)" "query_wf (AnnotationMatches x v q)"
    "query_wf (LabelExists x q)" "query_wf (LabelIs x v q)" "query_wf (LabelMatches x v q)"
  using assms
  by (auto simp: query_wf_def query_ops plain_terms_def gget_appendTerm appendTerm_def distinct_update
      split: if_splits)

end
