(* ===== verification/WhereBuilder.thy ===== *)
theory WhereBuilder
  imports SqlWhere Query
begin

section \<open>Building the WHERE clause (database/wherebuilder.go)\<close>

text \<open>
  The builder collects one piece of SQL per query term, an empty piece after the terms of each
  attribute, and the arguments the pieces refer to; \<open>flatten\<close> joins the terms of an attribute with
  \<^verbatim>\<open>OR\<close> and the attributes with \<^verbatim>\<open>AND\<close>. The methods mutate the builder; here they return the new one.
  Every argument the program adds is a string. The first half is the code, the second half shows that
  the clause means what the query says.
\<close>

record whereBuilder =
  pieces :: "string list"
  args :: "string list"

subsection \<open>The code\<close>

text \<open>The loop of \<open>flatten\<close>: the pieces still to visit, \<^verbatim>\<open>in_or\<close>, \<^verbatim>\<open>n_ands\<close>, \<^verbatim>\<open>n_ors\<close> and \<^verbatim>\<open>result\<close>. The next
  piece, \<^verbatim>\<open>wb.pieces[i+1]\<close>, is the head of the remaining ones.\<close>

fun flatten_loop :: "string list \<Rightarrow> bool \<Rightarrow> nat \<Rightarrow> nat \<Rightarrow> string \<Rightarrow> string" where
  "flatten_loop [] in_or n_ands n_ors result = (if n_ors > 1 then result @ '')'' else result)"
| "flatten_loop (p # ps) in_or n_ands n_ors result =
     (if p = '''' then
        (if in_or then flatten_loop ps False n_ands 0 (if n_ors > 1 then result @ '')'' else result)
         else flatten_loop ps in_or n_ands n_ors result)
      else if \<not> in_or then
        (let r1 = (if n_ands > 0 then result @ '' AND '' else result);
             r2 = (if ps \<noteq> [] \<and> hd ps \<noteq> '''' then r1 @ ''('' else r1)
         in flatten_loop ps True (n_ands + 1) (n_ors + 1) (r2 @ p))
      else flatten_loop ps in_or n_ands (n_ors + 1)
             ((if n_ors > 0 then result @ '' OR '' else result) @ p))"

definition flatten :: "whereBuilder \<Rightarrow> string" where
  "flatten wb = flatten_loop (pieces wb) False 0 0 ''''"

definition likeRune :: "string \<Rightarrow> string" where
  "likeRune c =
     (if c = ''%'' \<or> c = ''_'' then CHR 0x5C # c
      else if c = ''*'' then ''%''
      else if c = ''?'' then ''_''
      else c)"

fun likePattern_loop :: "string list \<Rightarrow> string \<Rightarrow> string" where
  "likePattern_loop [] pattern = pattern"
| "likePattern_loop (c # cs) pattern = likePattern_loop cs (pattern @ likeRune c)"

definition likePattern :: "string \<Rightarrow> string" where
  "likePattern globPattern = likePattern_loop (runes globPattern) ''''"

definition addArg :: "string \<Rightarrow> whereBuilder \<Rightarrow> string \<times> whereBuilder" where
  "addArg arg wb = (let wb' = wb\<lparr>args := args wb @ [arg]\<rparr> in (''$'' @ itoa (length (args wb')), wb'))"

definition addPiece :: "string \<Rightarrow> whereBuilder \<Rightarrow> whereBuilder" where
  "addPiece piece wb = wb\<lparr>pieces := pieces wb @ [piece]\<rparr>"

text \<open>\<^const>\<open>Inl\<close> is the panic.\<close>

fun whereTerms :: "string \<Rightarrow> QueryTerm list \<Rightarrow> whereBuilder \<Rightarrow> string + whereBuilder" where
  "whereTerms subject [] wb = Inr wb"
| "whereTerms subject (term # terms) wb =
     (case queryType term of
        QueryIs \<Rightarrow> (let (p, wb') = addArg (argument term) wb
                    in whereTerms subject terms (addPiece (subject @ '' = '' @ p) wb'))
      | QueryMatches \<Rightarrow> (let (p, wb') = addArg (likePattern (argument term)) wb
                    in whereTerms subject terms (addPiece (subject @ '' like '' @ p) wb'))
      | QueryExists \<Rightarrow> Inl ''QueryExists cannot be handled generically'')"

definition makeWhereSubclause ::
    "string \<Rightarrow> QueryTerm list \<Rightarrow> whereBuilder \<Rightarrow> string + whereBuilder" where
  "makeWhereSubclause subject terms wb =
     (case whereTerms subject terms wb of Inl e \<Rightarrow> Inl e | Inr wb' \<Rightarrow> Inr (addPiece '''' wb'))"

fun mapTerms :: "string \<Rightarrow> string \<Rightarrow> QueryTerm list \<Rightarrow> whereBuilder \<Rightarrow> whereBuilder" where
  "mapTerms name key [] wb = wb"
| "mapTerms name key (term # terms) wb =
     (case queryType term of
        QueryIs \<Rightarrow>
          (let (p, wb') = addArg (marshalMap [(key, argument term)]) wb
           in mapTerms name key terms (addPiece (''i.'' @ name @ '' @> '' @ p) wb'))
      | QueryMatches \<Rightarrow>
          (let (p, wb1) = addArg key wb; (p', wb2) = addArg (likePattern (argument term)) wb1
           in mapTerms name key terms
                (addPiece (''jsonb_object_field_text(i.'' @ name @ '', '' @ p @ '') '' @ ''like '' @ p') wb2))
      | QueryExists \<Rightarrow>
          (let (p, wb') = addArg key wb
           in mapTerms name key terms (addPiece (''i.'' @ name @ '' ? '' @ p) wb')))"

definition makeMapSubclause :: "string \<Rightarrow> string \<Rightarrow> QueryTerm list \<Rightarrow> whereBuilder \<Rightarrow> whereBuilder" where
  "makeMapSubclause name key terms wb = addPiece '''' (mapTerms name key terms wb)"

text \<open>The \<^verbatim>\<open>range\<close> loop over the annotations or the labels, for the order in which it visits the keys.\<close>

fun mapSubclauses ::
    "string \<Rightarrow> QueryTerm list gomap \<Rightarrow> string list \<Rightarrow> whereBuilder \<Rightarrow> whereBuilder" where
  "mapSubclauses name m [] wb = wb"
| "mapSubclauses name m (key # ks) wb =
     mapSubclauses name m ks (makeMapSubclause name key (gget0 [] m key) wb)"

definition optSubclause ::
    "string \<Rightarrow> QueryTerm list \<Rightarrow> whereBuilder \<Rightarrow> string + whereBuilder" where
  "optSubclause subject terms wb =
     (if length terms > 0 then makeWhereSubclause subject terms wb else Inr wb)"

definition makeWhereClause ::
    "(nat \<Rightarrow> string list \<Rightarrow> string list) \<Rightarrow> Query \<Rightarrow> string + (string \<times> string list)" where
  "makeWhereClause ord query =
     (case optSubclause ''t.Repository'' (qRepository query) \<lparr>pieces = [], args = []\<rparr> of
        Inl e \<Rightarrow> Inl e
      | Inr wb \<Rightarrow> (case optSubclause ''t.Tag'' (qTag query) wb of
        Inl e \<Rightarrow> Inl e
      | Inr wb \<Rightarrow> (case optSubclause ''i.OS'' (qOS query) wb of
        Inl e \<Rightarrow> Inl e
      | Inr wb \<Rightarrow> (case optSubclause ''i.Architecture'' (qArchitecture query) wb of
        Inl e \<Rightarrow> Inl e
      | Inr wb \<Rightarrow>
          (let wb = mapSubclauses ''Annotations'' (qAnnotations query) (ord 0 (gkeys (qAnnotations query))) wb;
               wb = mapSubclauses ''Labels'' (qLabels query) (ord 1 (gkeys (qLabels query))) wb
           in Inr (if length (pieces wb) > 0 then '' WHERE '' @ flatten wb else '''', args wb))))))"

subsection \<open>What flatten computes\<close>

text \<open>The pieces between the separators, empty runs left out.\<close>

function groups :: "string list \<Rightarrow> string list list" where
  "groups [] = []"
| "groups (p # ps) = (if p = '''' then groups ps
     else (p # takeWhile (\<lambda>q. q \<noteq> '''') ps) # groups (dropWhile (\<lambda>q. q \<noteq> '''') ps))"
  by pat_completeness auto
termination
  by (relation "measure length") (auto simp: length_dropWhile_le le_imp_less_Suc)

definition group_text :: "string list \<Rightarrow> string" where
  "group_text g = (if length g > 1 then ''('' @ join '' OR '' g @ '')'' else join '' OR '' g)"

lemma flatten_loop_group:
  assumes "n_ors > 0" "\<forall>q \<in> set g. q \<noteq> ''''"
  shows "flatten_loop (g @ rest) True n_ands n_ors result =
    flatten_loop rest True n_ands (n_ors + length g) (result @ concat (map (\<lambda>q. '' OR '' @ q) g))"
  using assms by (induction g arbitrary: n_ors result) auto

lemma flatten_loop_close:
  assumes "rest = [] \<or> hd rest = ''''"
  shows "flatten_loop rest True n_ands n_ors result =
    flatten_loop rest False n_ands 0 (if n_ors > 1 then result @ '')'' else result)"
  using assms by (cases rest) auto

lemma flatten_loop_groups:
  "flatten_loop ps False n_ands 0 result = result @
     concat (map (\<lambda>g. '' AND '' @ group_text g) (if n_ands > 0 then groups ps else [])) @
     (if n_ands > 0 then '''' else join '' AND '' (map group_text (groups ps)))"
proof (induction ps arbitrary: n_ands result rule: groups.induct)
  case (2 p ps)
  show ?case
  proof (cases "p = ''''")
    case True
    then show ?thesis using "2.IH"(1) by simp
  next
    case False
    define g where "g = takeWhile (\<lambda>q. q \<noteq> '''') ps"
    define rest where "rest = dropWhile (\<lambda>q. q \<noteq> '''') ps"
    have ps: "ps = g @ rest" by (simp add: g_def rest_def)
    have gs: "groups (p # ps) = (p # g) # groups rest" using False by (simp add: g_def rest_def)
    have g: "\<forall>q \<in> set g. q \<noteq> ''''" by (auto simp: g_def dest: set_takeWhileD)
    have rest: "rest = [] \<or> hd rest = ''''" unfolding rest_def by (induction ps) auto
    have open': "ps \<noteq> [] \<and> hd ps \<noteq> '''' \<longleftrightarrow> g \<noteq> []" by (cases ps) (auto simp: g_def)
    let ?sep = "if n_ands > 0 then '' AND '' else ''''"
    let ?r = "result @ ?sep @ (if g \<noteq> [] then ''('' else '''') @ p"
    have "flatten_loop (p # ps) False n_ands 0 result = flatten_loop ps True (n_ands + 1) 1 ?r"
      unfolding flatten_loop.simps Let_def open' using False by simp
    also have "\<dots> = flatten_loop rest True (n_ands + 1) (1 + length g)
        (?r @ concat (map (\<lambda>q. '' OR '' @ q) g))"
      unfolding ps using g by (rule flatten_loop_group [OF zero_less_one])
    also have "\<dots> = flatten_loop rest False (n_ands + 1) 0 (result @ ?sep @ group_text (p # g))"
      unfolding flatten_loop_close [OF rest] by (simp add: group_text_def join_Cons)
    also have "\<dots> = result @ ?sep @ group_text (p # g) @
        concat (map (\<lambda>g. '' AND '' @ group_text g) (groups rest))"
      using "2.IH"(2) [OF False, of "n_ands + 1"] by (simp add: rest_def)
    finally show ?thesis unfolding gs by (simp add: join_Cons comp_def del: flatten_loop.simps)
  qed
qed simp

text \<open>
  The clause text is the non-empty runs of pieces, each joined with OR and parenthesised when it
  has more than one piece, joined with AND.
\<close>

theorem flatten_groups: "flatten wb = join '' AND '' (map group_text (groups (pieces wb)))"
  using flatten_loop_groups [of "pieces wb" 0 "''''"] by (simp add: flatten_def)

subsection \<open>Patterns\<close>

text \<open>What a glob pattern means: \<^verbatim>\<open>*\<close> is any sequence of characters, \<^verbatim>\<open>?\<close> any one character, any other
  character itself.\<close>

fun glob_match :: "string list \<Rightarrow> string list \<Rightarrow> bool" where
  "glob_match [] s = (s = [])"
| "glob_match (p # ps) [] = (p = ''*'' \<and> glob_match ps [])"
| "glob_match (p # ps) (c # s) =
     (if p = ''*'' then glob_match ps (c # s) \<or> glob_match (p # ps) s
      else (p = ''?'' \<or> p = c) \<and> glob_match ps s)"

lemma glob_match_star: "glob_match (''*'' # p) s \<longleftrightarrow> (\<exists>u v. s = u @ v \<and> glob_match p v)"
proof (induction s)
  case (Cons c s)
  have "(\<exists>u v. c # s = u @ v \<and> glob_match p v) \<longleftrightarrow> glob_match p (c # s) \<or> (\<exists>u v. s = u @ v \<and> glob_match p v)"
    by (metis Cons_eq_append_conv append_Nil)
  then show ?case using Cons by simp
qed simp

lemma likePattern_concat: "likePattern g = concat (map likeRune (runes g))"
proof -
  have "likePattern_loop cs pattern = pattern @ concat (map likeRune cs)" for cs pattern
    by (induction cs arbitrary: pattern) auto
  then show ?thesis by (simp add: likePattern_def)
qed

text \<open>The characters of the pattern that one character of the glob turns into.\<close>

definition likeRunes :: "string \<Rightarrow> string list" where
  "likeRunes c =
     (if c = ''%'' \<or> c = ''_'' then [[CHR 0x5C], c]
      else if c = ''*'' then [''%''] else if c = ''?'' then [''_''] else [c])"

lemma likeRune_runes: "is_rune c \<Longrightarrow> likeRune c = concat (likeRunes c) \<and> list_all is_rune (likeRunes c)"
  by (auto simp: likeRune_def likeRunes_def is_rune_ascii)

lemma runes_likePattern: "runes (likePattern g) = concat (map likeRunes (runes g))"
proof -
  have "concat (map likeRune cs) = concat (concat (map likeRunes cs)) \<and>
      list_all is_rune (concat (map likeRunes cs))" if "list_all is_rune cs" for cs
    using that by (induction cs) (simp_all add: likeRune_runes)
  moreover have "list_all is_rune (runes g)" using runes_are_runes by (simp add: list_all_iff)
  ultimately show ?thesis by (simp add: likePattern_concat runes_concat)
qed

definition no_backslash :: "string \<Rightarrow> bool" where
  "no_backslash g \<longleftrightarrow> [CHR 0x5C] \<notin> set (runes g)"

context like_operator
begin

lemma like_likeRunes:
  assumes "[CHR 0x5C] \<notin> set cs"
  shows "like (concat (map likeRunes cs)) s \<longleftrightarrow> glob_match cs s"
  using assms
proof (induction cs arbitrary: s)
  case Nil
  show ?case by (simp add: like_end)
next
  case (Cons c cs)
  then have IH: "like (concat (map likeRunes cs)) v \<longleftrightarrow> glob_match cs v" for v by simp
  consider "c = ''%'' \<or> c = ''_''" | "c = ''*''" | "c = ''?''" | "c \<notin> {''%'', ''_'', ''*'', ''?''}"
    by blast
  then show ?case
  proof cases
    case 1
    then have "likeRunes c = [[CHR 0x5C], c]" "c \<noteq> ''*''" "c \<noteq> ''?''" by (auto simp: likeRunes_def)
    then show ?thesis by (cases s) (auto simp: like_escape IH)
  next
    case 2
    then have "likeRunes c = [''%'']" by (simp add: likeRunes_def)
    then show ?thesis using 2 by (simp only: list.map concat.simps append.simps like_percent IH glob_match_star)
  next
    case 3
    then have "likeRunes c = [''_'']" by (simp add: likeRunes_def)
    then show ?thesis using 3 by (cases s) (simp_all add: like_underscore IH)
  next
    case 4
    then have "likeRunes c = [c]" by (simp add: likeRunes_def)
    then show ?thesis using 4 Cons.prems by (cases s) (auto simp: like_literal IH)
  qed
qed

lemma like_likePattern:
  "no_backslash g \<Longrightarrow> like (runes (likePattern g)) s \<longleftrightarrow> glob_match (runes g) s"
  by (simp add: runes_likePattern like_likeRunes no_backslash_def)

end

text \<open>
  C35. For a pattern without backslashes, LIKE on the translated pattern accepts exactly the texts that the
  glob pattern describes.
\<close>

theorem likePattern_correct:
  assumes "like_operator like" "no_backslash g"
  shows "like (runes (likePattern g)) (runes s) \<longleftrightarrow> glob_match (runes g) (runes s)"
  using assms by (rule like_operator.like_likePattern)

theorem likePattern_correct_witness:
  "no_backslash ''fed*_?'' \<and> sql_like (runes (likePattern ''fed*_?'')) (runes ''fedora_7'') \<and>
   \<not> sql_like (runes (likePattern ''fed*_?'')) (runes ''fedora-7'')"
proof -
  have nb: "no_backslash ''fed*_?''" by code_simp
  have "glob_match (runes ''fed*_?'') (runes ''fedora_7'')" by code_simp
  moreover have "\<not> glob_match (runes ''fed*_?'') (runes ''fedora-7'')" by code_simp
  ultimately show ?thesis
    using nb likePattern_correct [OF pg_like.like_operator_axioms nb] by simp
qed

text \<open>
  A backslash is not escaped: the glob made of a backslash and the letter \<^verbatim>\<open>x\<close> does not match the
  two-character text it spells, and matches the text \<^verbatim>\<open>x\<close>.
\<close>

theorem likePattern_backslash:
  "glob_match (runes [CHR 0x5C, CHR ''x'']) (runes [CHR 0x5C, CHR ''x'']) \<and>
   \<not> sql_like (runes (likePattern [CHR 0x5C, CHR ''x''])) (runes [CHR 0x5C, CHR ''x'']) \<and>
   sql_like (runes (likePattern [CHR 0x5C, CHR ''x''])) (runes ''x'')"
  by code_simp

subsection \<open>Reading the pieces back\<close>

fun column_text :: "column \<Rightarrow> string" where
  "column_text ColRepository = ''t.Repository''"
| "column_text ColTag = ''t.Tag''"
| "column_text ColOS = ''i.OS''"
| "column_text ColArchitecture = ''i.Architecture''"

fun map_text :: "mapColumn \<Rightarrow> string" where
  "map_text ColAnnotations = ''Annotations''"
| "map_text ColLabels = ''Labels''"

fun atom_text :: "atom \<Rightarrow> string" where
  "atom_text (AtomEq c n) = column_text c @ '' = '' @ ''$'' @ itoa n"
| "atom_text (AtomLike c n) = column_text c @ '' like '' @ ''$'' @ itoa n"
| "atom_text (AtomContains c n) = ''i.'' @ map_text c @ '' @> '' @ ''$'' @ itoa n"
| "atom_text (AtomFieldLike c k n) =
     ''jsonb_object_field_text(i.'' @ map_text c @ '', '' @ (''$'' @ itoa k) @ '') '' @ ''like '' @ ''$'' @ itoa n"
| "atom_text (AtomHasKey c n) = ''i.'' @ map_text c @ '' ? '' @ ''$'' @ itoa n"

definition ends :: "string \<Rightarrow> bool" where
  "ends rest \<longleftrightarrow> rest = [] \<or> \<not> is_digit (hd rest)"

lemma read_param_itoa: "ends rest \<Longrightarrow> read_param (CHR ''$'' # itoa n @ rest) = Some (n, rest)"
proof -
  assume e: "ends rest"
  obtain d ds where d: "itoa n = d # ds" using itoa_nonempty by (metis neq_Nil_conv)
  then have "is_digit d" using itoa_digits [of d n] by simp
  moreover have "read_nat 0 (itoa n @ rest) = (n, rest)" using e by (intro read_nat_itoa) (simp add: ends_def)
  ultimately show ?thesis by (simp add: read_param_def d)
qed

lemma ends_paren: "ends (CHR '')'' # r)" by (simp add: ends_def is_digit_def within_def)

lemma read_atom_text: "ends rest \<Longrightarrow> read_atom (atom_text a @ rest) = Some (a, rest)"
proof (cases a)
  case (AtomEq c n)
  assume "ends rest"
  then show ?thesis using AtomEq
    by (cases c) (simp_all add: read_atom_def atom_forms_def read_param_itoa)
next
  case (AtomLike c n)
  assume "ends rest"
  then show ?thesis using AtomLike
    by (cases c) (simp_all add: read_atom_def atom_forms_def read_param_itoa)
next
  case (AtomContains c n)
  assume "ends rest"
  then show ?thesis using AtomContains
    by (cases c) (simp_all add: read_atom_def atom_forms_def read_param_itoa)
next
  case (AtomFieldLike c k n)
  assume "ends rest"
  then show ?thesis using AtomFieldLike
    by (cases c) (simp_all add: read_atom_def atom_forms_def field_forms_def read_param_itoa ends_paren)
next
  case (AtomHasKey c n)
  assume "ends rest"
  then show ?thesis using AtomHasKey
    by (cases c) (simp_all add: read_atom_def atom_forms_def read_param_itoa)
qed

lemma atom_text_head: "\<exists>c r. atom_text a = c # r \<and> c \<noteq> CHR ''(''"
  by (cases a rule: atom_text.cases; rename_tac c n; case_tac c) auto

lemma read_prim_atom:
  "ends rest \<Longrightarrow> 0 < n \<Longrightarrow> read_prim n (atom_text a @ rest) = Some (Atom a, rest)"
  using atom_text_head [of a] read_atom_text [of rest a] by (cases n) auto

text \<open>The expressions that the terms of one attribute, and all attributes together, are read as.\<close>

fun or_exp :: "atom list \<Rightarrow> cond_exp" where
  "or_exp [] = Atom (AtomEq ColTag 0)"
| "or_exp [a] = Atom a"
| "or_exp (a # b # as) = Or (Atom a) (or_exp (b # as))"

fun and_exp :: "atom list list \<Rightarrow> cond_exp" where
  "and_exp [] = Atom (AtomEq ColTag 0)"
| "and_exp [g] = or_exp g"
| "and_exp (g # h # gs) = And (or_exp g) (and_exp (h # gs))"

definition closes :: "string \<Rightarrow> bool" where
  "closes rest \<longleftrightarrow> rest = [] \<or> hd rest = CHR '')''"

lemma closes_simps:
  assumes "closes rest"
  shows "ends rest" "strip '' AND '' rest = None" "strip '' OR '' rest = None"
  using assms by (cases rest; auto simp: closes_def ends_def is_digit_def within_def)+

lemma ends_space: "ends (CHR '' '' # r)" by (simp add: ends_def is_digit_def within_def)

lemma read_and_atom:
  "ends rest \<Longrightarrow> strip '' AND '' rest = None \<Longrightarrow> 1 < n \<Longrightarrow>
   read_and n (atom_text a @ rest) = Some (Atom a, rest)"
  by (cases n) (simp_all add: read_prim_atom)

lemma read_or_group:
  assumes "g \<noteq> []" "closes rest" "length g + 2 \<le> n"
  shows "read_or n (join '' OR '' (map atom_text g) @ rest) = Some (or_exp g, rest)"
  using assms
proof (induction g arbitrary: n rule: or_exp.induct)
  case (2 a)
  then obtain m where "n = Suc m" "1 < m" by (cases n) auto
  then show ?case using 2 by (simp add: read_and_atom closes_simps)
next
  case (3 a b as)
  then obtain m where m: "n = Suc m" "1 < m" "length (b # as) + 2 \<le> m" by (cases n) auto
  have "read_or m (join '' OR '' (map atom_text (b # as)) @ rest) = Some (or_exp (b # as), rest)"
    using "3.IH" m(3) "3.prems" by simp
  then show ?case using m by (simp add: read_and_atom ends_space)
qed simp

lemma read_prim_group:
  assumes "g \<noteq> []" "ends rest" "length g + 3 \<le> n"
  shows "read_prim n (group_text (map atom_text g) @ rest) = Some (or_exp g, rest)"
proof (cases "length g > 1")
  case True
  obtain m where m: "n = Suc m" "length g + 2 \<le> m" using assms(3) by (cases n) auto
  have "read_or m (join '' OR '' (map atom_text g) @ (CHR '')'' # rest)) = Some (or_exp g, CHR '')'' # rest)"
    using assms(1) m(2) by (intro read_or_group) (simp_all add: closes_def)
  then show ?thesis using True m(1) by (simp add: group_text_def)
next
  case False
  then obtain a where "g = [a]" using assms(1) by (cases g) auto
  then show ?thesis using assms by (simp add: group_text_def read_prim_atom)
qed

abbreviation groups_text :: "atom list list \<Rightarrow> string" where
  "groups_text gs \<equiv> join '' AND '' (map (\<lambda>g. group_text (map atom_text g)) gs)"

lemma read_and_groups:
  assumes "gs \<noteq> []" "\<forall>g \<in> set gs. g \<noteq> [] \<and> length g \<le> k" "length gs + k + 3 \<le> n"
  shows "read_and n (groups_text gs) = Some (and_exp gs, [])"
  using assms
proof (induction gs arbitrary: n rule: and_exp.induct)
  case (2 g)
  then obtain m where "n = Suc m" "length g + 3 \<le> m" by (cases n) auto
  then show ?case using 2 read_prim_group [of g "[]" m] by (simp add: ends_def)
next
  case (3 g h gs)
  then obtain m where m: "n = Suc m" "length g + 3 \<le> m" "length (h # gs) + k + 3 \<le> m"
    by (cases n) auto
  have "read_prim m (group_text (map atom_text g) @ CHR '' '' # r) = Some (or_exp g, CHR '' '' # r)" for r
    using "3.prems" m(2) by (intro read_prim_group) (simp_all add: ends_space)
  moreover have "read_and m (groups_text (h # gs)) = Some (and_exp (h # gs), [])"
    using "3.IH" m(3) "3.prems" by simp
  ultimately show ?case using m(1) by simp
qed simp

lemma join_length_elem: "x \<in> set xs \<Longrightarrow> length x \<le> length (join sep xs)"
  by (induction sep xs rule: join.induct) auto

lemma join_length: "\<forall>x \<in> set xs. x \<noteq> [] \<Longrightarrow> length xs \<le> length (join sep xs)"
proof (induction sep xs rule: join.induct)
  case (2 sep x)
  then show ?case by (cases x) auto
next
  case (3 sep x y xs)
  then have "length x \<ge> 1" by (cases x) auto
  then show ?case using 3 by simp
qed simp

lemma atom_text_nonempty: "atom_text a \<noteq> []"
  using atom_text_head [of a] by auto

lemma group_text_length: "length g \<le> length (group_text (map atom_text g))"
  using join_length [of "map atom_text g" "'' OR ''"] by (auto simp: group_text_def atom_text_nonempty)

lemma group_text_nonempty: "g \<noteq> [] \<Longrightarrow> group_text (map atom_text g) \<noteq> []"
  using group_text_length [of g] by (cases g) auto

lemma read_or_groups:
  assumes "gs \<noteq> []" "\<forall>g \<in> set gs. g \<noteq> []"
  shows "read_or (3 * length (groups_text gs) + 3) (groups_text gs) = Some (and_exp gs, [])"
proof -
  let ?t = "groups_text gs"
  have len: "length g \<le> length ?t" if "g \<in> set gs" for g
    using group_text_length [of g] that
      join_length_elem [of "group_text (map atom_text g)" "map (\<lambda>g. group_text (map atom_text g)) gs" "'' AND ''"]
    by force
  have "\<forall>x \<in> set (map (\<lambda>g. group_text (map atom_text g)) gs). x \<noteq> []"
    using assms(2) group_text_nonempty by auto
  from join_length [OF this, of "'' AND ''"] have lt: "length gs \<le> length ?t" by (simp only: length_map)
  moreover have "0 < length gs" using assms(1) by simp
  ultimately have "1 \<le> length ?t" by linarith
  with lt have "read_and (3 * length ?t + 2) ?t = Some (and_exp gs, [])"
    using assms len by (intro read_and_groups) auto
  moreover have "3 * length ?t + 3 = Suc (3 * length ?t + 2)" by simp
  ultimately show ?thesis by (simp only: read_or.simps) simp
qed

subsection \<open>What a query says\<close>

definition term_holds :: "QueryTerm \<Rightarrow> string \<Rightarrow> bool" where
  "term_holds t v = (case queryType t of
      QueryIs \<Rightarrow> v = argument t
    | QueryMatches \<Rightarrow> glob_match (runes (argument t)) (runes v)
    | QueryExists \<Rightarrow> True)"

definition terms_hold :: "QueryTerm list \<Rightarrow> string \<Rightarrow> bool" where
  "terms_hold ts v \<longleftrightarrow> ts = [] \<or> (\<exists>t \<in> set ts. term_holds t v)"

definition map_terms_hold :: "QueryTerm list gomap \<Rightarrow> string gomap \<Rightarrow> bool" where
  "map_terms_hold m vs \<longleftrightarrow>
     (\<forall>k \<in> set (gkeys m). \<exists>v. gget vs k = Some v \<and> (\<exists>t \<in> set (gget0 [] m k). term_holds t v))"

text \<open>A row is asked for when every attribute the query mentions has one of the values it allows.\<close>

definition query_matches :: "Query \<Rightarrow> join_row \<Rightarrow> bool" where
  "query_matches q r \<longleftrightarrow>
     terms_hold (qRepository q) (rowRepository r) \<and> terms_hold (qTag q) (rowTag r) \<and>
     terms_hold (qOS q) (OS (rowImage r)) \<and> terms_hold (qArchitecture q) (Architecture (rowImage r)) \<and>
     map_terms_hold (qAnnotations q) (Annotations (rowImage r)) \<and>
     map_terms_hold (qLabels q) (Labels (rowImage r))"

text \<open>Texts that the database can hold, and patterns without the escape character.\<close>

definition text_ok :: "string \<Rightarrow> bool" where
  "text_ok s \<longleftrightarrow> json_safe s \<and> normal s = s"

definition term_ok :: "QueryTerm \<Rightarrow> bool" where
  "term_ok t \<longleftrightarrow> text_ok (argument t) \<and> (queryType t = QueryMatches \<longrightarrow> no_backslash (argument t))"

definition map_terms_ok :: "QueryTerm list gomap \<Rightarrow> bool" where
  "map_terms_ok m \<longleftrightarrow> (\<forall>(k, ts) \<in> set m. text_ok k \<and> list_all term_ok ts)"

definition query_text_ok :: "Query \<Rightarrow> bool" where
  "query_text_ok q \<longleftrightarrow> list_all term_ok (qRepository q) \<and> list_all term_ok (qTag q) \<and>
     list_all term_ok (qOS q) \<and> list_all term_ok (qArchitecture q) \<and>
     map_terms_ok (qAnnotations q) \<and> map_terms_ok (qLabels q)"

subsection \<open>The clause means what the query says\<close>

definition evals :: "like_op \<Rightarrow> join_row \<Rightarrow> string list \<Rightarrow> atom list \<Rightarrow> bool list \<Rightarrow> bool" where
  "evals like r as atms bs \<longleftrightarrow> (\<forall>ys. map (eval_atom like (as @ ys) r) atms = map Some bs)"

lemma evals_extend: "evals like r as atms bs \<Longrightarrow> evals like r (as @ xs) atms bs"
  by (simp add: evals_def)

lemma evals_append:
  "evals like r as atms bs \<Longrightarrow> evals like r as atms' bs' \<Longrightarrow> evals like r as (atms @ atms') (bs @ bs')"
  by (simp add: evals_def)

lemma eval_or_exp:
  "atms \<noteq> [] \<Longrightarrow> map (eval_atom like as r) atms = map Some bs \<Longrightarrow>
   eval_cond like as r (or_exp atms) = Some (list_ex id bs)"
proof (induction atms arbitrary: bs rule: or_exp.induct)
  case (2 a)
  then show ?case by (cases bs) auto
next
  case (3 a b as')
  then obtain x bs' where "bs = x # bs'" by (cases bs) auto
  then show ?case using 3 by simp
qed simp

text \<open>\<open>built\<close>: what the builder holds after some attributes, given the atoms of its pieces and whether
  the row satisfies the attributes so far.\<close>

definition built :: "like_op \<Rightarrow> join_row \<Rightarrow> whereBuilder \<Rightarrow> (atom list \<times> bool list) list \<Rightarrow> bool \<Rightarrow> bool" where
  "built like r wb gs b \<longleftrightarrow>
     pieces wb = concat (map (\<lambda>g. map atom_text g @ ['''']) (map fst gs)) \<and>
     (\<forall>(g, bs) \<in> set gs. g \<noteq> [] \<and> evals like r (args wb) g bs) \<and>
     (b \<longleftrightarrow> list_all (\<lambda>(g, bs). list_ex id bs) gs)"

lemma built_add:
  assumes "built like r wb gs b" "g \<noteq> []" "args wb' = args wb @ xs"
    and "pieces wb' = pieces wb @ map atom_text g @ ['''']" "evals like r (args wb') g bs"
  shows "built like r wb' (gs @ [(g, bs)]) (b \<and> list_ex id bs)"
  using assms unfolding built_def by (auto simp: evals_extend)

lemma param_last [simp]:
  "param ((as @ [x]) @ ys) (Suc (length as)) = Some x"
  "param (as @ x # ys) (Suc (length as)) = Some x"
  "param (as @ y # x # ys) (Suc (Suc (length as))) = Some x"
  by (simp_all add: param_def nth_append)

lemma jsonb_single:
  "text_ok k \<Longrightarrow> text_ok v \<Longrightarrow> jsonb_text (marshalMap [(k, v)]) = Some [(k, v)]"
  using jsonb_marshalMap [of "[(k, v)]"] by (simp add: text_ok_def gget0_def lastWins_def)

context like_operator
begin

lemma whereTerms_built:
  assumes "plain_terms ts" "list_all term_ok ts"
  shows "\<exists>atms xs wb'. whereTerms (column_text c) ts wb = Inr wb' \<and>
    pieces wb' = pieces wb @ map atom_text atms \<and> args wb' = args wb @ xs \<and>
    length atms = length ts \<and>
    evals like r (args wb') atms (map (\<lambda>t. term_holds t (column_value c r)) ts)"
  using assms
proof (induction ts arbitrary: wb)
  case Nil
  show ?case by (auto simp: evals_def)
next
  case (Cons t ts)
  define x where "x = (if queryType t = QueryIs then argument t else likePattern (argument t))"
  define a where "a = (if queryType t = QueryIs then AtomEq else AtomLike) c (Suc (length (args wb)))"
  define wb1 where "wb1 = wb\<lparr>args := args wb @ [x], pieces := pieces wb @ [atom_text a]\<rparr>"
  have t: "queryType t \<noteq> QueryExists" "plain_terms ts" "term_ok t" "list_all term_ok ts"
    using Cons.prems by (auto simp: plain_terms_def)
  have step: "whereTerms (column_text c) (t # ts) wb = whereTerms (column_text c) ts wb1"
    using t(1) by (cases "queryType t")
      (simp_all add: addArg_def addPiece_def Let_def wb1_def a_def x_def)
  have eval: "evals like r (args wb1) [a] [term_holds t (column_value c r)]"
    using t(1,3) by (cases "queryType t")
      (auto simp: evals_def wb1_def a_def x_def term_holds_def term_ok_def like_likePattern)
  from Cons.IH [OF t(2,4), of wb1] obtain atms xs wb' where
    IH: "whereTerms (column_text c) ts wb1 = Inr wb'" "pieces wb' = pieces wb1 @ map atom_text atms"
      "args wb' = args wb1 @ xs" "length atms = length ts"
      "evals like r (args wb') atms (map (\<lambda>t. term_holds t (column_value c r)) ts)"
    by blast
  have "evals like r (args wb') [a] [term_holds t (column_value c r)]"
    unfolding IH(3) by (rule evals_extend [OF eval])
  from evals_append [OF this IH(5)] show ?case
    using IH step by (intro exI [of _ "a # atms"] exI [of _ "x # xs"] exI [of _ wb']) (simp add: wb1_def)
qed

lemma optSubclause_built:
  assumes "built like r wb gs b" "plain_terms ts" "list_all term_ok ts"
  shows "\<exists>gs' wb'. optSubclause (column_text c) ts wb = Inr wb' \<and>
    built like r wb' gs' (b \<and> terms_hold ts (column_value c r))"
proof (cases "ts = []")
  case True
  then show ?thesis using assms(1) by (auto simp: optSubclause_def terms_hold_def)
next
  case False
  obtain atms xs wb1 where w: "whereTerms (column_text c) ts wb = Inr wb1"
      "pieces wb1 = pieces wb @ map atom_text atms" "args wb1 = args wb @ xs" "length atms = length ts"
      "evals like r (args wb1) atms (map (\<lambda>t. term_holds t (column_value c r)) ts)"
    using whereTerms_built [OF assms(2,3)] by blast
  let ?bs = "map (\<lambda>t. term_holds t (column_value c r)) ts"
  have "built like r (addPiece '''' wb1) (gs @ [(atms, ?bs)]) (b \<and> list_ex id ?bs)"
    using w False by (intro built_add [OF assms(1)]) (auto simp: addPiece_def)
  moreover have "list_ex id ?bs \<longleftrightarrow> terms_hold ts (column_value c r)"
    using False by (auto simp: terms_hold_def list_ex_iff)
  ultimately show ?thesis using w(1) False by (auto simp: optSubclause_def makeWhereSubclause_def)
qed

abbreviation field_holds :: "string gomap \<Rightarrow> string \<Rightarrow> QueryTerm \<Rightarrow> bool" where
  "field_holds vs key t \<equiv> (case gget vs key of None \<Rightarrow> False | Some v \<Rightarrow> term_holds t v)"

lemma mapTerms_built:
  assumes "text_ok key" "list_all term_ok ts"
  shows "\<exists>atms xs. pieces (mapTerms (map_text c) key ts wb) = pieces wb @ map atom_text atms \<and>
    args (mapTerms (map_text c) key ts wb) = args wb @ xs \<and> length atms = length ts \<and>
    evals like r (args wb @ xs) atms (map (field_holds (map_value c r) key) ts)"
  using assms
proof (induction ts arbitrary: wb)
  case Nil
  show ?case by (auto simp: evals_def)
next
  case (Cons t ts)
  define n where "n = Suc (length (args wb))"
  define x where "x = (case queryType t of QueryIs \<Rightarrow> [marshalMap [(key, argument t)]]
      | QueryMatches \<Rightarrow> [key, likePattern (argument t)] | QueryExists \<Rightarrow> [key])"
  define a where "a = (case queryType t of QueryIs \<Rightarrow> AtomContains c n
      | QueryMatches \<Rightarrow> AtomFieldLike c n (Suc n) | QueryExists \<Rightarrow> AtomHasKey c n)"
  define wb1 where "wb1 = wb\<lparr>args := args wb @ x, pieces := pieces wb @ [atom_text a]\<rparr>"
  have t: "term_ok t" "list_all term_ok ts" using Cons.prems by simp_all
  have step: "mapTerms (map_text c) key (t # ts) wb = mapTerms (map_text c) key ts wb1"
    by (cases "queryType t") (simp_all add: addArg_def addPiece_def Let_def wb1_def a_def x_def n_def)
  have eval: "evals like r (args wb @ x) [a] [field_holds (map_value c r) key t]"
    using t(1) Cons.prems(1) by (cases "queryType t")
      (auto simp: evals_def a_def x_def n_def term_holds_def term_ok_def like_likePattern
        jsonb_single contains_all_def split: option.splits)
  from Cons.IH [OF Cons.prems(1) t(2), of wb1] obtain atms xs where
    IH: "pieces (mapTerms (map_text c) key ts wb1) = pieces wb1 @ map atom_text atms"
      "args (mapTerms (map_text c) key ts wb1) = args wb1 @ xs" "length atms = length ts"
      "evals like r (args wb1 @ xs) atms (map (field_holds (map_value c r) key) ts)"
    by blast
  have "evals like r (args wb1 @ xs) [a] [field_holds (map_value c r) key t]"
    using evals_extend [OF eval, of xs] by (simp add: wb1_def)
  from evals_append [OF this IH(4)] show ?case
    unfolding step using IH by (intro exI [of _ "a # atms"] exI [of _ "x @ xs"]) (simp add: wb1_def)
qed

lemma mapSubclauses_built:
  assumes "built like r wb gs b" "map_terms_ok m" "gomap_wf m"
    and "\<forall>k \<in> set ks. gget0 [] m k \<noteq> []"
  shows "\<exists>gs'. built like r (mapSubclauses (map_text c) m ks wb) gs'
    (b \<and> (\<forall>k \<in> set ks. \<exists>t \<in> set (gget0 [] m k). field_holds (map_value c r) k t))"
  using assms(1,4)
proof (induction ks arbitrary: wb gs b)
  case (Cons k ks)
  let ?ts = "gget0 [] m k"
  let ?wb = "makeMapSubclause (map_text c) k ?ts wb"
  have "(k, ?ts) \<in> set m" using Cons.prems(2) map_of_SomeD [of m k] by (cases "gget m k") auto
  then have ok: "text_ok k" "list_all term_ok ?ts" using assms(2) by (auto simp: map_terms_ok_def)
  let ?bs = "map (field_holds (map_value c r) k) ?ts"
  obtain atms xs where w: "pieces (mapTerms (map_text c) k ?ts wb) = pieces wb @ map atom_text atms"
      "args (mapTerms (map_text c) k ?ts wb) = args wb @ xs" "length atms = length ?ts"
      "evals like r (args wb @ xs) atms ?bs"
    using mapTerms_built [OF ok] by blast
  have "built like r ?wb (gs @ [(atms, ?bs)]) (b \<and> list_ex id ?bs)"
    using w Cons.prems(2) by (intro built_add [OF Cons.prems(1)]) (auto simp: makeMapSubclause_def addPiece_def)
  from Cons.IH [OF this] Cons.prems(2) show ?case
    by (simp add: list_ex_iff conj_assoc Bex_def)
qed auto

end

lemma groups_pieces:
  "\<forall>g \<in> set gs. g \<noteq> [] \<Longrightarrow>
   groups (concat (map (\<lambda>g. map atom_text g @ ['''']) gs)) = map (map atom_text) gs"
proof (induction gs)
  case (Cons g gs)
  then obtain a as where g: "g = a # as" by (cases g) auto
  have "takeWhile (\<lambda>q. q \<noteq> '''') (map atom_text xs @ '''' # r) = map atom_text xs"
    "dropWhile (\<lambda>q. q \<noteq> '''') (map atom_text xs @ '''' # r) = '''' # r" for xs r
    by (induction xs) (simp_all add: atom_text_nonempty)
  then show ?case using Cons by (simp add: g atom_text_nonempty)
qed simp

lemma eval_and_exp:
  assumes "gs \<noteq> []" "\<forall>(g, bs) \<in> set gs. g \<noteq> [] \<and> evals like r as g bs"
  shows "eval_cond like as r (and_exp (map fst gs)) = Some (list_all (\<lambda>(g, bs). list_ex id bs) gs)"
proof -
  have or: "eval_cond like as r (or_exp g) = Some (list_ex id bs)" if "(g, bs) \<in> set gs" for g bs
  proof (rule eval_or_exp)
    show "g \<noteq> []" using assms(2) that by auto
    have "evals like r as g bs" using assms(2) that by auto
    then have "map (eval_atom like (as @ []) r) g = map Some bs" unfolding evals_def by (rule spec)
    then show "map (eval_atom like as r) g = map Some bs" by simp
  qed
  show ?thesis using assms(1) or
  proof (induction "map fst gs" arbitrary: gs rule: and_exp.induct)
    case (2 g)
    then show ?case by (cases gs) auto
  next
    case (3 g h rest)
    then obtain bs gs' where gs: "gs = (g, bs) # gs'" "map fst gs' = h # rest" by auto
    have "gs' \<noteq> []" using gs(2) by auto
    then have "eval_cond like as r (and_exp (map fst gs')) = Some (list_all (\<lambda>(g, bs). list_ex id bs) gs')"
      using 3(1) [of gs'] gs "3.prems" by auto
    then show ?case using gs "3.prems"(2) [of g bs] by (simp add: gs)
  qed simp
qed

lemma built_meaning:
  assumes "built like r wb gs b"
  shows "sql_where like (if length (pieces wb) > 0 then '' WHERE '' @ flatten wb else '''') (args wb) r = Some b"
proof (cases "gs = []")
  case True
  then show ?thesis using assms by (simp add: built_def sql_where_def read_where_def)
next
  case False
  have ps: "pieces wb = concat (map (\<lambda>g. map atom_text g @ ['''']) (map fst gs))"
    using assms by (simp add: built_def)
  have gs: "\<forall>g \<in> set (map fst gs). g \<noteq> []" using assms by (auto simp: built_def)
  have "pieces wb \<noteq> []" using ps False by (cases gs) auto
  have "flatten wb = groups_text (map fst gs)"
    unfolding flatten_def flatten_loop_groups ps groups_pieces [OF gs] by (simp add: comp_def)
  then have "read_or (3 * length (flatten wb) + 3) (flatten wb) = Some (and_exp (map fst gs), [])"
    using read_or_groups [OF _ gs] False by simp
  moreover have "eval_cond like (args wb) r (and_exp (map fst gs)) = Some b"
    using eval_and_exp [OF False, of like r "args wb"] assms by (simp add: built_def)
  ultimately show ?thesis using \<open>pieces wb \<noteq> []\<close>
    by (simp add: sql_where_def read_where_def)
qed

lemma built_empty: "built like r \<lparr>pieces = [], args = []\<rparr> [] True"
  by (simp add: built_def)

lemma map_terms_hold_iff:
  assumes "range_order ord"
  shows "(\<forall>k \<in> set (ord n (gkeys m)). \<exists>t \<in> set (gget0 [] m k).
      case gget vs k of None \<Rightarrow> False | Some v \<Rightarrow> term_holds t v) \<longleftrightarrow> map_terms_hold m vs"
  unfolding map_terms_hold_def range_order_set [OF assms]
  by (intro ball_cong refl) (auto split: option.splits)

lemma query_wf_keys:
  assumes "\<forall>k ts. gget m k = Some ts \<longrightarrow> ts \<noteq> []" "range_order ord"
  shows "\<forall>k \<in> set (ord n (gkeys m)). gget0 [] m k \<noteq> []"
proof
  fix k assume "k \<in> set (ord n (gkeys m))"
  then have "gget m k \<noteq> None" unfolding range_order_set [OF assms(2)] gkeys_iff .
  then show "gget0 [] m k \<noteq> []" using assms(1) by (cases "gget m k") auto
qed

lemma mapSubclauses_means:
  assumes "like_operator like" "built like r wb gs b" "map_terms_ok m" "gomap_wf m"
    and "\<forall>k ts. gget m k = Some ts \<longrightarrow> ts \<noteq> []" "range_order ord"
  shows "\<exists>gs'. built like r (mapSubclauses (map_text c) m (ord n (gkeys m)) wb) gs'
    (b \<and> map_terms_hold m (map_value c r))"
  using like_operator.mapSubclauses_built [OF assms(1-4) query_wf_keys [OF assms(5,6), of n], of c]
  unfolding map_terms_hold_iff [OF assms(6)] .

lemma makeWhereClause_means:
  assumes "like_operator like" "range_order ord" "query_wf q" "query_text_ok q"
  shows "\<exists>clause as. makeWhereClause ord q = Inr (clause, as) \<and>
    sql_where like clause as r = Some (query_matches q r)"
proof -
  note opt = like_operator.optSubclause_built [OF assms(1)]
  note maps = mapSubclauses_means [OF assms(1)]
  note wf = assms(3) [unfolded query_wf_def] and tx = assms(4) [unfolded query_text_ok_def]
  obtain g1 w1 where 1: "optSubclause ''t.Repository'' (qRepository q) \<lparr>pieces = [], args = []\<rparr> = Inr w1"
      "built like r w1 g1 (True \<and> terms_hold (qRepository q) (rowRepository r))"
    using opt [OF built_empty [of like r], of "qRepository q" ColRepository] wf tx by auto
  obtain g2 w2 where 2: "optSubclause ''t.Tag'' (qTag q) w1 = Inr w2"
      "built like r w2 g2 ((True \<and> terms_hold (qRepository q) (rowRepository r)) \<and> terms_hold (qTag q) (rowTag r))"
    using opt [OF 1(2), of "qTag q" ColTag] wf tx by auto
  obtain g3 w3 where 3: "optSubclause ''i.OS'' (qOS q) w2 = Inr w3"
      "built like r w3 g3 (((True \<and> terms_hold (qRepository q) (rowRepository r)) \<and> terms_hold (qTag q) (rowTag r)) \<and>
         terms_hold (qOS q) (OS (rowImage r)))"
    using opt [OF 2(2), of "qOS q" ColOS] wf tx by auto
  obtain b4 g4 w4 where 4: "optSubclause ''i.Architecture'' (qArchitecture q) w3 = Inr w4"
      "built like r w4 g4 b4"
      "b4 \<longleftrightarrow> terms_hold (qRepository q) (rowRepository r) \<and> terms_hold (qTag q) (rowTag r) \<and>
         terms_hold (qOS q) (OS (rowImage r)) \<and> terms_hold (qArchitecture q) (Architecture (rowImage r))"
    using opt [OF 3(2), of "qArchitecture q" ColArchitecture] wf tx by auto
  let ?w5 = "mapSubclauses ''Annotations'' (qAnnotations q) (ord 0 (gkeys (qAnnotations q))) w4"
  let ?w6 = "mapSubclauses ''Labels'' (qLabels q) (ord 1 (gkeys (qLabels q))) ?w5"
  obtain g5 where 5: "built like r ?w5 g5 (b4 \<and> map_terms_hold (qAnnotations q) (Annotations (rowImage r)))"
    using maps [OF 4(2) _ _ _ assms(2), of "qAnnotations q" ColAnnotations 0] wf tx by auto
  obtain g6 where 6: "built like r ?w6 g6 ((b4 \<and> map_terms_hold (qAnnotations q) (Annotations (rowImage r))) \<and>
      map_terms_hold (qLabels q) (Labels (rowImage r)))"
    using maps [OF 5 _ _ _ assms(2), of "qLabels q" ColLabels 1] wf tx by auto
  have "makeWhereClause ord q = Inr (if length (pieces ?w6) > 0 then '' WHERE '' @ flatten ?w6 else '''', args ?w6)"
    unfolding makeWhereClause_def 1(1) sum.case 2(1) 3(1) 4(1) Let_def ..
  moreover have "((b4 \<and> map_terms_hold (qAnnotations q) (Annotations (rowImage r))) \<and>
      map_terms_hold (qLabels q) (Labels (rowImage r))) = query_matches q r"
    by (simp add: query_matches_def 4(3))
  ultimately show ?thesis using built_meaning [OF 6] by (intro exI conjI) simp_all
qed

text \<open>
  C2. The WHERE clause means what the query says: for every query the builder methods produce (with texts
  a database can hold and patterns without backslashes), \<^verbatim>\<open>makeWhereClause\<close> does not panic, its text is
  read by the database without error, every \<^verbatim>\<open>$n\<close> in it names its own argument, and the condition accepts
  exactly the rows the query asks for, whatever the order in which the maps are visited.
\<close>

theorem makeWhereClause_correct:
  assumes "like_operator like" "range_order ord" "query_wf q" "query_text_ok q"
  shows "\<exists>clause as. makeWhereClause ord q = Inr (clause, as) \<and>
    (\<forall>r. sql_where like clause as r = Some (query_matches q r))"
proof -
  obtain clause as where m: "makeWhereClause ord q = Inr (clause, as)"
    using makeWhereClause_means [OF assms] by blast
  then have "sql_where like clause as r = Some (query_matches q r)" for r
    using makeWhereClause_means [OF assms, of r] by auto
  with m show ?thesis by blast
qed

theorem makeWhereClause_correct_witness:
  "\<exists>clause as. makeWhereClause (\<lambda>_ ks. ks) (AnnotationIs ''k'' ''x'' (TagMatches ''v*'' (Repository_q ''app'' NewQuery))) =
      Inr (clause, as) \<and>
    (\<forall>r. sql_where sql_like clause as r =
      Some (query_matches (AnnotationIs ''k'' ''x'' (TagMatches ''v*'' (Repository_q ''app'' NewQuery))) r))"
proof (rule makeWhereClause_correct)
  show "like_operator sql_like" by (rule pg_like.like_operator_axioms)
  show "range_order (\<lambda>_ ks. ks)" by (rule range_order_id)
  show "query_wf (AnnotationIs ''k'' ''x'' (TagMatches ''v*'' (Repository_q ''app'' NewQuery)))"
    by (intro query_wf_ops query_wf_New)
  show "query_text_ok (AnnotationIs ''k'' ''x'' (TagMatches ''v*'' (Repository_q ''app'' NewQuery)))"
    by code_simp
qed

lemma whereTerms_panics:
  "plain_terms ts \<Longrightarrow> \<exists>wb'. whereTerms subject ts wb = Inr wb'"
  "\<not> plain_terms ts \<Longrightarrow> whereTerms subject ts wb = Inl ''QueryExists cannot be handled generically''"
proof (induction ts arbitrary: wb)
  case (Cons t ts)
  {
    case 1
    then show ?case using Cons(1) by (cases "queryType t") (auto simp: plain_terms_def Let_def addArg_def)
  next
    case 2
    then show ?case using Cons(2) by (cases "queryType t") (auto simp: plain_terms_def Let_def addArg_def)
  }
qed (simp_all add: plain_terms_def)

lemma optSubclause_panics:
  assumes "\<And>w. f w = Inl ''QueryExists cannot be handled generically'' \<longleftrightarrow> P"
  shows "(case optSubclause subject ts wb of Inl e \<Rightarrow> Inl e | Inr w \<Rightarrow> f w) =
      Inl ''QueryExists cannot be handled generically'' \<longleftrightarrow> \<not> plain_terms ts \<or> P"
proof (cases "plain_terms ts")
  case True
  then obtain w where "optSubclause subject ts wb = Inr w"
    using whereTerms_panics(1) [OF True, of subject wb]
    by (cases "ts = []") (auto simp: optSubclause_def makeWhereSubclause_def)
  then show ?thesis using True assms by simp
next
  case False
  then have "ts \<noteq> []" by (auto simp: plain_terms_def)
  then show ?thesis using whereTerms_panics(2) [OF False]
    by (simp add: optSubclause_def makeWhereSubclause_def False)
qed

text \<open>
  C30. \<^verbatim>\<open>makeWhereClause\<close> panics exactly for the queries that test the existence of a plain attribute; no
  builder method makes one.
\<close>

theorem makeWhereClause_panics:
  "makeWhereClause ord q = Inl ''QueryExists cannot be handled generically'' \<longleftrightarrow>
   \<not> (plain_terms (qRepository q) \<and> plain_terms (qTag q) \<and> plain_terms (qOS q) \<and> plain_terms (qArchitecture q))"
  unfolding makeWhereClause_def de_Morgan_conj
  by (intro optSubclause_panics) (simp add: optSubclause_panics [where P = False] Let_def)

end
