(* ===== verification/Tables.thy ===== *)
theory Tables
  imports JsonValue WhereBuilder
begin

section \<open>The database: tables and statements (schema.sql)\<close>

text \<open>
  The tables of the schema and what each SQL statement of the program does to them: PostgreSQL as far as
  the program uses it. Rows of a tag table are keyed by repository and tag (its unique index). A
  statement fails, as a value of the type \<open>error\<close>, when it names no table or column, breaks a foreign
  key, or has an argument that is not text in the database's encoding. The names of tables and columns
  in a statement are texts that the program puts together, and are resolved without regard to case.
\<close>

datatype error =
    UndefinedTable string
  | UndefinedColumn string
  | ForeignKeyViolation
  | InvalidText
  | InvalidJson
  | SyntaxError
  | InFailedTransaction
  | TxDone
  | ConnError
  | GoPanic string
  | RegistryError string
  | UnhandledManifest
  | EOF

type_synonym tag_rows = "((string \<times> string) \<times> string) list"

record tables =
  modTime :: nat
  imageT :: "Image gomap"
  imageTagT :: tag_rows
  listT :: "ImageList gomap"
  listTagT :: tag_rows
  listEntryT :: "(string \<times> string) list"

subsection \<open>The two tag tables\<close>

datatype tag_table = TagImage | TagList

definition tagTable :: "string \<Rightarrow> tag_table option" where
  "tagTable name = (if lower name = ''imagetag'' then Some TagImage
     else if lower name = ''listtag'' then Some TagList else None)"

fun targetColumn :: "tag_table \<Rightarrow> string" where
  "targetColumn TagImage = ''image''"
| "targetColumn TagList = ''list''"

fun tagRows :: "tag_table \<Rightarrow> tables \<Rightarrow> tag_rows" where
  "tagRows TagImage t = imageTagT t"
| "tagRows TagList t = listTagT t"

fun setTagRows :: "tag_table \<Rightarrow> tag_rows \<Rightarrow> tables \<Rightarrow> tables" where
  "setTagRows TagImage rs t = t\<lparr>imageTagT := rs\<rparr>"
| "setTagRows TagList rs t = t\<lparr>listTagT := rs\<rparr>"

fun targetExists :: "tag_table \<Rightarrow> tables \<Rightarrow> string \<Rightarrow> bool" where
  "targetExists TagImage t d = (gget (imageT t) d \<noteq> None)"
| "targetExists TagList t d = (gget (listT t) d \<noteq> None)"

text \<open>Resolving the table and its target column in a statement, and checking its text arguments.\<close>

definition onTagTable ::
    "string \<Rightarrow> string \<Rightarrow> string list \<Rightarrow> (tag_table \<Rightarrow> error + 'a) \<Rightarrow> error + 'a" where
  "onTagTable name col as f =
     (if \<not> list_all text_ok as then Inl InvalidText
      else case tagTable name of None \<Rightarrow> Inl (UndefinedTable name)
        | Some tb \<Rightarrow> if lower col = targetColumn tb then f tb else Inl (UndefinedColumn col))"

subsection \<open>Statements on tag rows\<close>

text \<open>\<^verbatim>\<open>SELECT Tag FROM <name> WHERE <col> = $1\<close>\<close>

definition selectTags :: "string \<Rightarrow> string \<Rightarrow> string \<Rightarrow> tables \<Rightarrow> error + string list" where
  "selectTags name col dgst t = onTagTable name col [dgst] (\<lambda>tb.
     Inr (map (\<lambda>((r, g), d). g) (filter (\<lambda>((r, g), d). d = dgst) (tagRows tb t))))"

text \<open>\<^verbatim>\<open>INSERT INTO <name> (Repository, Tag, <col>) VALUES ($1, $2, $3) ON CONFLICT (Repository, Tag) DO
  UPDATE SET <col> = $3\<close>\<close>

definition upsertTag :: "string \<Rightarrow> string \<Rightarrow> string \<Rightarrow> string \<Rightarrow> string \<Rightarrow> tables \<Rightarrow> error + nat \<times> tables" where
  "upsertTag name col repo tag dgst t = onTagTable name col [repo, tag, dgst] (\<lambda>tb.
     if targetExists tb t dgst
     then Inr (1, setTagRows tb (AList.update (repo, tag) dgst (tagRows tb t)) t)
     else Inl ForeignKeyViolation)"

text \<open>\<^verbatim>\<open>DELETE FROM ... WHERE\<close> with a condition on the row: the number of rows deleted, and the rest.\<close>

definition deleteRows :: "('a \<Rightarrow> bool) \<Rightarrow> 'a list \<Rightarrow> nat \<times> 'a list" where
  "deleteRows P rs = (length (filter P rs), filter (\<lambda>x. \<not> P x) rs)"

definition deleteTagRows ::
    "string \<Rightarrow> string \<Rightarrow> string list \<Rightarrow> ((string \<times> string) \<times> string \<Rightarrow> bool) \<Rightarrow> tables \<Rightarrow> error + nat \<times> tables" where
  "deleteTagRows name col as P t = onTagTable name col as (\<lambda>tb.
     let (n, rs) = deleteRows P (tagRows tb t) in Inr (n, setTagRows tb rs t))"

text \<open>\<^verbatim>\<open>DELETE FROM <name> WHERE Repository = $1 AND Tag = $2 AND <col> = $3\<close>\<close>

definition deleteTag :: "string \<Rightarrow> string \<Rightarrow> string \<Rightarrow> string \<Rightarrow> string \<Rightarrow> tables \<Rightarrow> error + nat \<times> tables" where
  "deleteTag name col repo tag dgst =
     deleteTagRows name col [repo, tag, dgst] (\<lambda>((r, g), d). r = repo \<and> g = tag \<and> d = dgst)"

text \<open>\<^verbatim>\<open>DELETE FROM <name> WHERE Repository = $1 AND <col> = $2\<close>\<close>

definition deleteTarget :: "string \<Rightarrow> string \<Rightarrow> string \<Rightarrow> string \<Rightarrow> tables \<Rightarrow> error + nat \<times> tables" where
  "deleteTarget name col repo dgst =
     deleteTagRows name col [repo, dgst] (\<lambda>((r, g), d). r = repo \<and> d = dgst)"

text \<open>\<^verbatim>\<open>SELECT DISTINCT Repository FROM <name>\<close> and \<^verbatim>\<open>DELETE FROM <name> WHERE Repository = $1\<close>, which name no
  target column.\<close>

definition selectRepos :: "string \<Rightarrow> tables \<Rightarrow> error + string list" where
  "selectRepos name t = (case tagTable name of None \<Rightarrow> Inl (UndefinedTable name)
     | Some tb \<Rightarrow> Inr (remdups (map (\<lambda>((r, g), d). r) (tagRows tb t))))"

definition deleteRepo :: "string \<Rightarrow> string \<Rightarrow> tables \<Rightarrow> error + nat \<times> tables" where
  "deleteRepo name repo t =
     (case tagTable name of None \<Rightarrow> Inl (UndefinedTable name)
      | Some tb \<Rightarrow> deleteTagRows name (targetColumn tb) [repo] (\<lambda>((r, g), d). r = repo) t)"

subsection \<open>Statements on images and lists\<close>

text \<open>\<^verbatim>\<open>INSERT INTO image ... ON CONFLICT (digest) DO NOTHING\<close>: the two maps travel as JSON texts. The text of
  a JSON argument is checked before the conflict is looked for.\<close>

definition insertImage ::
    "string \<Rightarrow> string \<Rightarrow> string \<Rightarrow> string \<Rightarrow> string \<Rightarrow> string \<Rightarrow> tables \<Rightarrow> error + nat \<times> tables" where
  "insertImage dgst mediaType architecture os annotationsJson labelsJson t =
     (if \<not> list_all text_ok [dgst, mediaType, architecture, os] then Inl InvalidText
      else case (jsonb_text annotationsJson, jsonb_text labelsJson) of
        (Some an, Some lb) \<Rightarrow>
          if gget (imageT t) dgst \<noteq> None then Inr (0, t)
          else Inr (1, t\<lparr>imageT := imageT t @ [(dgst, \<lparr>Digest = dgst, MediaType = mediaType, OS = os,
            Architecture = architecture, Annotations = an, Labels = lb\<rparr>)]\<rparr>)
      | _ \<Rightarrow> Inl InvalidJson)"

definition insertList :: "string \<Rightarrow> string \<Rightarrow> string \<Rightarrow> tables \<Rightarrow> error + nat \<times> tables" where
  "insertList dgst mediaType annotationsJson t =
     (if \<not> list_all text_ok [dgst, mediaType] then Inl InvalidText
      else case jsonb_text annotationsJson of
        None \<Rightarrow> Inl InvalidJson
      | Some an \<Rightarrow>
          if gget (listT t) dgst \<noteq> None then Inr (0, t)
          else Inr (1, t\<lparr>listT := listT t @ [(dgst, \<lparr>listDigest = dgst, listMediaType = mediaType,
            listImages = [], listAnnotations = an\<rparr>)]\<rparr>))"

definition insertListEntry :: "string \<Rightarrow> string \<Rightarrow> tables \<Rightarrow> error + nat \<times> tables" where
  "insertListEntry l im t =
     (if \<not> list_all text_ok [l, im] then Inl InvalidText
      else if (l, im) \<in> set (listEntryT t) then Inr (0, t)
      else if gget (listT t) l = None \<or> gget (imageT t) im = None then Inl ForeignKeyViolation
      else Inr (1, t\<lparr>listEntryT := listEntryT t @ [(l, im)]\<rparr>))"

text \<open>\<^verbatim>\<open>DELETE FROM list WHERE NOT EXISTS (SELECT * FROM listTag WHERE listTag.List = list.Digest)\<close>; the
  entries of a deleted list go with it (\<^verbatim>\<open>ON DELETE CASCADE\<close>).\<close>

definition deleteUnusedLists :: "tables \<Rightarrow> error + nat \<times> tables" where
  "deleteUnusedLists t =
     (let used = map snd (listTagT t);
          (n, ls) = deleteRows (\<lambda>(d, l). d \<notin> set used) (listT t)
      in Inr (n, t\<lparr>listT := ls, listEntryT := filter (\<lambda>(l, im). l \<in> set (map fst ls)) (listEntryT t)\<rparr>))"

definition deleteUnusedImages :: "tables \<Rightarrow> error + nat \<times> tables" where
  "deleteUnusedImages t =
     (let (n, ims) = deleteRows (\<lambda>(d, im). d \<notin> set (map snd (imageTagT t)) \<and> d \<notin> set (map snd (listEntryT t)))
                       (imageT t)
      in Inr (n, t\<lparr>imageT := ims\<rparr>))"

text \<open>\<^verbatim>\<open>UPDATE modification SET ModificationTime = now() RETURNING ModificationTime\<close>\<close>

definition touchModification :: "nat \<Rightarrow> tables \<Rightarrow> error + nat \<times> tables" where
  "touchModification now t = Inr (now, t\<lparr>modTime := now\<rparr>)"

subsection \<open>The two queries\<close>

text \<open>SQL leaves the order of rows open, and so the order in which \<^verbatim>\<open>jsonb_agg\<close> collects values. A
  parameter \<open>p\<close> gives a permutation of positions for every set of rows, named by a text, of a given
  size.\<close>

type_synonym row_perm = "string \<Rightarrow> nat \<Rightarrow> nat list"

definition row_perm_ok :: "row_perm \<Rightarrow> bool" where
  "row_perm_ok p \<longleftrightarrow> (\<forall>name n. mset (p name n) = mset [0..<n])"

definition shuffle :: "row_perm \<Rightarrow> string \<Rightarrow> 'a list \<Rightarrow> 'a list" where
  "shuffle p name xs = map (\<lambda>i. xs ! i) (p name (length xs))"

lemma shuffle_mset: "row_perm_ok p \<Longrightarrow> mset (shuffle p name xs) = mset xs"
proof -
  assume "row_perm_ok p"
  then have "mset (shuffle p name xs) = mset (map (\<lambda>i. xs ! i) [0..<length xs])"
    unfolding shuffle_def row_perm_ok_def mset_map by metis
  then show ?thesis by (simp add: map_nth)
qed

lemma shuffle_set: "row_perm_ok p \<Longrightarrow> set (shuffle p name xs) = set xs"
  using shuffle_mset by (metis set_mset_mset)

text \<open>The rows a WHERE clause keeps. A clause that cannot be read or evaluated fails the statement.\<close>

definition whereRows ::
    "like_op \<Rightarrow> string \<Rightarrow> string list \<Rightarrow> ('a \<Rightarrow> join_row) \<Rightarrow> 'a list \<Rightarrow> error + 'a list" where
  "whereRows like clause as row xs =
     (if \<not> list_all text_ok as then Inl InvalidText
      else if read_where clause = None \<or> (\<exists>x \<in> set xs. sql_where like clause as (row x) = None) then Inl SyntaxError
      else Inr (filter (\<lambda>x. sql_where like clause as (row x) = Some True) xs))"

definition joinImages :: "tables \<Rightarrow> (string \<times> string \<times> Image) list" where
  "joinImages t = concat (map (\<lambda>((r, g), d).
     case gget (imageT t) d of None \<Rightarrow> [] | Some im \<Rightarrow> [(r, g, im)]) (imageTagT t))"

definition imageRow :: "string \<times> string \<times> Image \<Rightarrow> join_row" where
  "imageRow x = (case x of (r, g, im) \<Rightarrow> \<lparr>rowRepository = r, rowTag = g, rowImage = im\<rparr>)"

definition jsonb_agg :: "json list \<Rightarrow> json option" where
  "jsonb_agg vs = (if vs = [] then None else Some (JArr vs))"

text \<open>\<^verbatim>\<open>jsonb_agg(t.Tag) ... where t.Image = x.Image and t.Repository = Repository\<close>. The unqualified
  \<^verbatim>\<open>Repository\<close> is the column of the innermost table that has one, which is \<^verbatim>\<open>t\<close> itself: the second
  condition holds of every row. The list query has no second condition.\<close>

definition aggTags :: "row_perm \<Rightarrow> tag_rows \<Rightarrow> string \<Rightarrow> json option" where
  "aggTags p rows dgst = jsonb_agg (map JStr (shuffle p dgst
     (map (\<lambda>((r, g), d). g) (filter (\<lambda>((r, g), d). d = dgst) rows))))"

definition imageQuery ::
    "like_op \<Rightarrow> (string \<Rightarrow> string) \<Rightarrow> string \<Rightarrow> string list \<Rightarrow> row_perm \<Rightarrow> tables \<Rightarrow>
     error + (string \<times> json option \<times> json option) list" where
  "imageQuery like collate clause as p t =
     (case whereRows like clause as imageRow (joinImages t) of
        Inl e \<Rightarrow> Inl e
      | Inr rows \<Rightarrow>
          Inr (sort_key (\<lambda>(r, _). collate r) (shuffle p ''''
            (map (\<lambda>(r, d). (r, map_option imageRowJson (gget (imageT t) d), aggTags p (imageTagT t) d))
              (remdups (map (\<lambda>(r, g, im). (r, Digest im)) rows))))))"

text \<open>The images of a list, by its entries, and the rows of the join over them.\<close>

definition entryImages :: "tables \<Rightarrow> string \<Rightarrow> Image list" where
  "entryImages t l = concat (map (\<lambda>(l', d).
     if l' = l then (case gget (imageT t) d of None \<Rightarrow> [] | Some im \<Rightarrow> [im]) else []) (listEntryT t))"

definition joinLists :: "tables \<Rightarrow> (string \<times> string \<times> string \<times> Image) list" where
  "joinLists t = concat (map (\<lambda>((r, g), l). map (\<lambda>im. (r, g, l, im)) (entryImages t l)) (listTagT t))"

definition listRow :: "string \<times> string \<times> string \<times> Image \<Rightarrow> join_row" where
  "listRow x = (case x of (r, g, l, im) \<Rightarrow> \<lparr>rowRepository = r, rowTag = g, rowImage = im\<rparr>)"

text \<open>The second query groups by repository and list. It has no \<^verbatim>\<open>ORDER BY\<close>.\<close>

definition listQuery ::
    "like_op \<Rightarrow> string \<Rightarrow> string list \<Rightarrow> row_perm \<Rightarrow> tables \<Rightarrow>
     error + (string \<times> json option \<times> json option \<times> json option) list" where
  "listQuery like clause as p t =
     (case whereRows like clause as listRow (joinLists t) of
        Inl e \<Rightarrow> Inl e
      | Inr rows \<Rightarrow>
          (let x = filter (\<lambda>(r, l, d). gget (listT t) l \<noteq> None)
                     (remdups (map (\<lambda>(r, g, l, im). (r, l, Digest im)) rows))
           in Inr (shuffle p '''' (map (\<lambda>(r, l).
                (r, map_option listRowJson (gget (listT t) l),
                 jsonb_agg (shuffle p (r @ l) (map (\<lambda>(r', l', d).
                   case gget (imageT t) d of None \<Rightarrow> JNull | Some im \<Rightarrow> imageRowJson im)
                   (filter (\<lambda>(r', l', d). r' = r \<and> l' = l) x))),
                 aggTags p (listTagT t) l))
               (remdups (map (\<lambda>(r, l, d). (r, l)) x))))))"

end
