(* ===== verification/Postgres.thy ===== *)
theory Postgres
  imports Tables
begin

section \<open>The PostgreSQL backend (database/postgres.go)\<close>

text \<open>
  A transaction works on its own copy of the tables until it commits. Every statement can fail; after a
  failure the transaction refuses everything but to be rolled back, and its commit reports an error. What
  the outside decides is collected in the record \<open>env\<close>: which statements fail, where the reading of
  result rows breaks off (the program never asks \<^verbatim>\<open>rows.Err\<close>), in which order rows and map keys come,
  how the commit ends. The methods of \<^verbatim>\<open>postgresTransaction\<close> have a value receiver: they get a copy of
  the struct and cannot change the caller's.
\<close>

subsection \<open>Transactions of database/sql\<close>

datatype commit_outcome = CommitOk | CommitLost | CommitUnknown

record env =
  faultAt :: "nat \<Rightarrow> bool"
  rowsCut :: "nat \<Rightarrow> nat option"
  rowPerm :: "nat \<Rightarrow> row_perm"
  mapOrd :: "nat \<Rightarrow> string list \<Rightarrow> string list"
  likeOp :: like_op
  collation :: "string \<Rightarrow> string"
  beginFault :: bool
  commitOutcome :: commit_outcome
  now :: nat

record sqlTx =
  work :: tables
  failed :: bool
  txDone :: bool
  stmts :: nat

type_synonym ('s, 'a) op = "'s \<Rightarrow> (error + 'a) \<times> 's"

text \<open>\<^verbatim>\<open>x, err := m(); if err != nil { return err }; ...\<close>\<close>

definition tryM :: "('s, 'a) op \<Rightarrow> ('a \<Rightarrow> ('s, 'b) op) \<Rightarrow> ('s, 'b) op" where
  "tryM m f s = (case m s of (Inl e, s') \<Rightarrow> (Inl e, s') | (Inr x, s') \<Rightarrow> f x s')"

definition ret :: "'a \<Rightarrow> ('s, 'a) op" where
  "ret x s = (Inr x, s)"

definition throw :: "error \<Rightarrow> ('s, 'a) op" where
  "throw e s = (Inl e, s)"

definition runStmt :: "env \<Rightarrow> (tables \<Rightarrow> error + 'a \<times> tables) \<Rightarrow> (sqlTx, 'a) op" where
  "runStmt env f s =
     (if txDone s then (Inl TxDone, s)
      else let k = stmts s; s1 = s\<lparr>stmts := Suc k\<rparr>
      in if failed s then (Inl InFailedTransaction, s1)
         else if faultAt env k then (Inl ConnError, s1\<lparr>failed := True\<rparr>)
         else case f (work s) of
             Inl e \<Rightarrow> (Inl e, s1\<lparr>failed := True\<rparr>)
           | Inr (x, t) \<Rightarrow> (Inr x, s1\<lparr>work := t\<rparr>))"

text \<open>A query and the loop over its rows: when the rows break off, \<^verbatim>\<open>rows.Next\<close> reports their end.\<close>

definition runQuery :: "env \<Rightarrow> (row_perm \<Rightarrow> tables \<Rightarrow> error + 'a list) \<Rightarrow> (sqlTx, 'a list) op" where
  "runQuery env f s =
     (if txDone s then (Inl TxDone, s)
      else let k = stmts s; s1 = s\<lparr>stmts := Suc k\<rparr>
      in if failed s then (Inl InFailedTransaction, s1)
         else if faultAt env k then (Inl ConnError, s1\<lparr>failed := True\<rparr>)
         else case f (rowPerm env k) (work s) of
             Inl e \<Rightarrow> (Inl e, s1\<lparr>failed := True\<rparr>)
           | Inr rows \<Rightarrow> (case rowsCut env k of
               None \<Rightarrow> (Inr rows, s1)
             | Some n \<Rightarrow> (Inr (take n rows), s1\<lparr>failed := True\<rparr>)))"

definition sqlCommit :: "env \<Rightarrow> sqlTx \<Rightarrow> tables \<Rightarrow> (error + unit) \<times> sqlTx \<times> tables" where
  "sqlCommit env s db =
     (if txDone s then (Inl TxDone, s, db)
      else let s1 = s\<lparr>txDone := True\<rparr>
      in if failed s then (Inl InFailedTransaction, s1, db)
         else case commitOutcome env of
             CommitOk \<Rightarrow> (Inr (), s1, work s)
           | CommitLost \<Rightarrow> (Inl ConnError, s1, db)
           | CommitUnknown \<Rightarrow> (Inl ConnError, s1, work s))"

definition sqlRollback :: "sqlTx \<Rightarrow> tables \<Rightarrow> (error + unit) \<times> sqlTx \<times> tables" where
  "sqlRollback s db = (if txDone s then (Inl TxDone, s, db) else (Inr (), s\<lparr>txDone := True\<rparr>, db))"

subsection \<open>postgresTransaction\<close>

record postgresTransaction =
  modify :: bool
  modificationTime :: nat

definition Begin :: "env \<Rightarrow> tables \<Rightarrow> error + (postgresTransaction \<times> sqlTx)" where
  "Begin env db =
     (let ptx = \<lparr>modify = False, modificationTime = 0\<rparr>
      in if beginFault env then Inl ConnError
         else Inr (ptx, \<lparr>work = db, failed = False, txDone = False, stmts = 0\<rparr>))"

definition Commit :: "env \<Rightarrow> postgresTransaction \<Rightarrow> sqlTx \<Rightarrow> tables \<Rightarrow> (error + unit) \<times> sqlTx \<times> tables" where
  "Commit env ptx s db =
     (if modify ptx then
        (case runStmt env (touchModification (now env)) s of
           (Inl e, s') \<Rightarrow> (let (_, s'', db') = sqlRollback s' db in (Inl e, s'', db'))
         | (Inr t, s') \<Rightarrow> (let ptx = ptx\<lparr>modificationTime := t\<rparr> in sqlCommit env s' db))
      else sqlCommit env s db)"

definition Rollback :: "postgresTransaction \<Rightarrow> sqlTx \<Rightarrow> tables \<Rightarrow> (error + unit) \<times> sqlTx \<times> tables" where
  "Rollback ptx s db = sqlRollback s db"

definition Modified :: "postgresTransaction \<Rightarrow> bool \<times> nat" where
  "Modified ptx = (modify ptx, modificationTime ptx)"

text \<open>\<^verbatim>\<open>exec\<close> sets \<^verbatim>\<open>modify\<close> in its own copy of the receiver, which is gone when it returns.\<close>

definition exec ::
    "env \<Rightarrow> postgresTransaction \<Rightarrow> (tables \<Rightarrow> error + nat \<times> tables) \<Rightarrow> (sqlTx, nat) op" where
  "exec env ptx f = tryM (runStmt env f) (\<lambda>rowsAffected.
     let ptx = (if rowsAffected > 0 then ptx\<lparr>modify := True\<rparr> else ptx) in ret rowsAffected)"

subsection \<open>Queries\<close>

definition newRepository :: "string \<Rightarrow> Repository" where
  "newRepository n = \<lparr>Name = n, Images = [], Lists = []\<rparr>"

definition modifyLast :: "('a \<Rightarrow> 'a) \<Rightarrow> 'a list \<Rightarrow> 'a list" where
  "modifyLast f xs = butlast xs @ [f (last xs)]"

text \<open>\<^verbatim>\<open>currentRepository\<close> is the last element of \<^verbatim>\<open>result\<close>.\<close>

definition enterRepository :: "string \<Rightarrow> Repository list \<Rightarrow> Repository list" where
  "enterRepository repository result =
     (if result = [] \<or> repository \<noteq> Name (last result) then result @ [newRepository repository] else result)"

fun imageRows_loop :: "(string \<times> json option \<times> json option) list \<Rightarrow> Repository list \<Rightarrow> Repository list" where
  "imageRows_loop [] result = result"
| "imageRows_loop ((repository, imageJson, tgsJson) # rows) result =
     (let result = enterRepository repository result
      in case unmarshalImage imageJson zeroImage of
           None \<Rightarrow> imageRows_loop rows result
         | Some im \<Rightarrow> (case unmarshalStrings tgsJson of
             None \<Rightarrow> imageRows_loop rows result
           | Some tags \<Rightarrow> imageRows_loop rows
               (modifyLast (\<lambda>repo. repo\<lparr>Images := Images repo @ [withTags im tags]\<rparr>) result)))"

definition zeroList :: ImageList where
  "zeroList = \<lparr>listDigest = '''', listMediaType = '''', listImages = [], listAnnotations = []\<rparr>"

fun listRows_loop ::
    "(string \<times> json option \<times> json option \<times> json option) list \<Rightarrow> Repository list \<Rightarrow> Repository list" where
  "listRows_loop [] result = result"
| "listRows_loop ((repository, listJson, imagesJson, tgsJson) # rows) result =
     (case unmarshalList listJson zeroList of
        None \<Rightarrow> listRows_loop rows result
      | Some l \<Rightarrow> (case unmarshalImages imagesJson of
        None \<Rightarrow> listRows_loop rows result
      | Some ims \<Rightarrow> (case unmarshalStrings tgsJson of
        None \<Rightarrow> listRows_loop rows result
      | Some tags \<Rightarrow> listRows_loop rows
          (modifyLast (\<lambda>repo. repo\<lparr>Lists := Lists repo @ [listWithTags (l\<lparr>listImages := ims\<rparr>) tags]\<rparr>)
            (enterRepository repository result)))))"

text \<open>A loop over a Go map inside a transaction is numbered by the statements run before it.\<close>

definition loopOrd :: "env \<Rightarrow> sqlTx \<Rightarrow> nat \<Rightarrow> string list \<Rightarrow> string list" where
  "loopOrd env s i = mapOrd env (10 * stmts s + i)"

definition doImageQuery :: "env \<Rightarrow> Query \<Rightarrow> (sqlTx, Repository list) op" where
  "doImageQuery env query s =
     (case makeWhereClause (loopOrd env s) query of
        Inl e \<Rightarrow> throw (GoPanic e) s
      | Inr (whereClause, as) \<Rightarrow>
          tryM (runQuery env (imageQuery (likeOp env) (collation env) whereClause as)) (\<lambda>rows.
            ret (imageRows_loop rows [])) s)"

definition doListQuery :: "env \<Rightarrow> Query \<Rightarrow> (sqlTx, Repository list) op" where
  "doListQuery env query s =
     (case makeWhereClause (loopOrd env s) query of
        Inl e \<Rightarrow> throw (GoPanic e) s
      | Inr (whereClause, as) \<Rightarrow>
          tryM (runQuery env (listQuery (likeOp env) whereClause as)) (\<lambda>rows.
            ret (listRows_loop rows [])) s)"

text \<open>The merge loop of \<^verbatim>\<open>DoQuery\<close>; the two arguments are what is left from \<^verbatim>\<open>i\<close> and from \<^verbatim>\<open>j\<close> on.\<close>

fun mergeRepos :: "Repository list \<Rightarrow> Repository list \<Rightarrow> Repository list" where
  "mergeRepos (x # xs) (y # ys) =
     (if Name x = Name y then x\<lparr>Lists := Lists y\<rparr> # mergeRepos xs ys
      else if Name x < Name y then x # mergeRepos xs (y # ys)
      else y # mergeRepos (x # xs) ys)"
| "mergeRepos (x # xs) [] = x # mergeRepos xs []"
| "mergeRepos [] (y # ys) = y # mergeRepos [] ys"
| "mergeRepos [] [] = []"

definition sortTags :: "Repository \<Rightarrow> Repository" where
  "sortTags repo = repo\<lparr>Images := map (\<lambda>im. im\<lparr>Tags := sort (Tags im)\<rparr>) (Images repo),
     Lists := map (\<lambda>l. l\<lparr>listTags := sort (listTags l)\<rparr>) (Lists repo)\<rparr>"

definition DoQuery :: "env \<Rightarrow> postgresTransaction \<Rightarrow> Query \<Rightarrow> (sqlTx, Repository list) op" where
  "DoQuery env ptx query =
     tryM (doImageQuery env query) (\<lambda>imageRepos.
     tryM (doListQuery env query) (\<lambda>listRepos.
     ret (map sortTags (mergeRepos imageRepos listRepos))))"

text \<open>\<^verbatim>\<open>postgresDatabase.DoQuery\<close>: the result, the transaction it leaves behind, the tables. A query that
  fails is not rolled back.\<close>

definition pdb_DoQuery ::
    "env \<Rightarrow> Query \<Rightarrow> tables \<Rightarrow> (error + Repository list) \<times> sqlTx option \<times> tables" where
  "pdb_DoQuery env query db =
     (case Begin env db of
        Inl e \<Rightarrow> (Inl e, None, db)
      | Inr (ptx, s) \<Rightarrow> (case DoQuery env ptx query s of
          (Inl e, s') \<Rightarrow> (Inl e, Some s', db)
        | (Inr results, s') \<Rightarrow> (case Commit env ptx s' db of
            (Inl e, s'', db') \<Rightarrow> (Inl e, Some s'', db')
          | (Inr _, s'', db') \<Rightarrow> (Inr results, Some s'', db'))))"

definition pdb_ModificationTime :: "env \<Rightarrow> tables \<Rightarrow> error + nat" where
  "pdb_ModificationTime env db = (if faultAt env 0 then Inl ConnError else Inr (modTime db))"

subsection \<open>Tags\<close>

fun addTags :: "string list \<Rightarrow> bool gomap \<Rightarrow> bool gomap" where
  "addTags [] result = result"
| "addTags (tag # tags) result = addTags tags (gset tag True result)"

text \<open>\<^verbatim>\<open>getTags\<close> does not use its first argument.\<close>

definition getTags :: "env \<Rightarrow> postgresTransaction \<Rightarrow> string \<Rightarrow> string \<Rightarrow> string \<Rightarrow> (sqlTx, bool gomap) op" where
  "getTags env ptx repo target dgst =
     tryM (runQuery env (\<lambda>p t. case selectTags (target @ ''Tag'') target dgst t of
         Inl e \<Rightarrow> Inl e | Inr tags \<Rightarrow> Inr (shuffle p '''' tags))) (\<lambda>rows.
     ret (addTags rows []))"

fun setTags_insert ::
    "env \<Rightarrow> postgresTransaction \<Rightarrow> string \<Rightarrow> string \<Rightarrow> string \<Rightarrow> string \<Rightarrow> string list \<Rightarrow> bool gomap \<Rightarrow>
     (sqlTx, bool gomap) op" where
  "setTags_insert env ptx repo target targetUpper dgst [] oldTags = ret oldTags"
| "setTags_insert env ptx repo target targetUpper dgst (tag # tags) oldTags =
     (let oldTags = gdel tag oldTags
      in tryM (exec env ptx (upsertTag (target @ ''Tag'') targetUpper repo tag dgst)) (\<lambda>_.
         setTags_insert env ptx repo target targetUpper dgst tags oldTags))"

fun setTags_delete ::
    "env \<Rightarrow> postgresTransaction \<Rightarrow> string \<Rightarrow> string \<Rightarrow> string \<Rightarrow> string \<Rightarrow> string list \<Rightarrow> (sqlTx, unit) op" where
  "setTags_delete env ptx repo target targetUpper dgst [] = ret ()"
| "setTags_delete env ptx repo target targetUpper dgst (tag # tags) =
     tryM (exec env ptx (deleteTag (target @ ''Tag'') targetUpper repo tag dgst)) (\<lambda>_.
     setTags_delete env ptx repo target targetUpper dgst tags)"

definition setTags ::
    "env \<Rightarrow> postgresTransaction \<Rightarrow> string \<Rightarrow> string \<Rightarrow> string \<Rightarrow> string \<Rightarrow> string list \<Rightarrow> (sqlTx, unit) op" where
  "setTags env ptx repo target targetUpper dgst tags =
     tryM (getTags env ptx repo target dgst) (\<lambda>oldTags.
     tryM (setTags_insert env ptx repo target targetUpper dgst tags oldTags) (\<lambda>oldTags.
     (\<lambda>s. setTags_delete env ptx repo target targetUpper dgst (loopOrd env s 0 (gkeys oldTags)) s)))"

definition SetImageTags ::
    "env \<Rightarrow> postgresTransaction \<Rightarrow> string \<Rightarrow> string \<Rightarrow> string list \<Rightarrow> (sqlTx, unit) op" where
  "SetImageTags env ptx repo dgst tags = setTags env ptx repo ''image'' ''Image'' dgst tags"

definition SetImageListTags ::
    "env \<Rightarrow> postgresTransaction \<Rightarrow> string \<Rightarrow> string \<Rightarrow> string list \<Rightarrow> (sqlTx, unit) op" where
  "SetImageListTags env ptx repo dgst tags = setTags env ptx repo ''list'' ''List'' dgst tags"

subsection \<open>Storing and deleting\<close>

definition storeImage :: "env \<Rightarrow> postgresTransaction \<Rightarrow> string \<Rightarrow> Image \<Rightarrow> (sqlTx, unit) op" where
  "storeImage env ptx repo im =
     (let annotationsJson = marshalMap (Annotations im); labelsJson = marshalMap (Labels im)
      in tryM (exec env ptx (insertImage (Digest im) (MediaType im) (Architecture im) (OS im)
                 annotationsJson labelsJson)) (\<lambda>_. ret ()))"

definition StoreImage :: "env \<Rightarrow> postgresTransaction \<Rightarrow> string \<Rightarrow> TaggedImage \<Rightarrow> (sqlTx, unit) op" where
  "StoreImage env ptx repo im =
     tryM (storeImage env ptx repo (untag im)) (\<lambda>_.
     SetImageTags env ptx repo (Digest im) (Tags im))"

fun storeListImages :: "env \<Rightarrow> postgresTransaction \<Rightarrow> string \<Rightarrow> string \<Rightarrow> Image list \<Rightarrow> (sqlTx, unit) op" where
  "storeListImages env ptx repo l [] = ret ()"
| "storeListImages env ptx repo l (im # ims) =
     tryM (storeImage env ptx repo im) (\<lambda>_.
     tryM (exec env ptx (insertListEntry l (Digest im))) (\<lambda>_.
     storeListImages env ptx repo l ims))"

definition storeImageList :: "env \<Rightarrow> postgresTransaction \<Rightarrow> string \<Rightarrow> ImageList \<Rightarrow> (sqlTx, unit) op" where
  "storeImageList env ptx repo l =
     (let annotationsJson = marshalMap (listAnnotations l)
      in tryM (exec env ptx (insertList (listDigest l) (listMediaType l) annotationsJson)) (\<lambda>affected.
         if affected = 0 then ret ()
         else storeListImages env ptx repo (listDigest l) (listImages l)))"

definition StoreImageList :: "env \<Rightarrow> postgresTransaction \<Rightarrow> string \<Rightarrow> TaggedImageList \<Rightarrow> (sqlTx, unit) op" where
  "StoreImageList env ptx repo l =
     tryM (storeImageList env ptx repo (untagList l)) (\<lambda>_.
     SetImageListTags env ptx repo (listDigest l) (listTags l))"

definition DeleteImage :: "env \<Rightarrow> postgresTransaction \<Rightarrow> string \<Rightarrow> string \<Rightarrow> (sqlTx, unit) op" where
  "DeleteImage env ptx repo dgst =
     tryM (exec env ptx (deleteTarget ''ImageTag'' ''Image'' repo dgst)) (\<lambda>_. ret ())"

definition DeleteImageList :: "env \<Rightarrow> postgresTransaction \<Rightarrow> string \<Rightarrow> string \<Rightarrow> (sqlTx, unit) op" where
  "DeleteImageList env ptx repo dgst =
     tryM (exec env ptx (deleteTarget ''listTag'' ''List'' repo dgst)) (\<lambda>_. ret ())"

fun deleteRepos :: "env \<Rightarrow> postgresTransaction \<Rightarrow> string \<Rightarrow> string list \<Rightarrow> (sqlTx, unit) op" where
  "deleteRepos env ptx table [] = ret ()"
| "deleteRepos env ptx table (repo # toDelete) =
     tryM (exec env ptx (deleteRepo (table @ ''Tag'') repo)) (\<lambda>_. deleteRepos env ptx table toDelete)"

definition deleteMissingReposFromTable ::
    "env \<Rightarrow> postgresTransaction \<Rightarrow> string \<Rightarrow> bool gomap \<Rightarrow> (sqlTx, unit) op" where
  "deleteMissingReposFromTable env ptx table allRepos =
     tryM (runQuery env (\<lambda>p t. case selectRepos table t of Inl e \<Rightarrow> Inl e | Inr rs \<Rightarrow> Inr (shuffle p '''' rs))) (\<lambda>rows.
     deleteRepos env ptx table (filter (\<lambda>repo. \<not> gget0 False allRepos repo) rows))"

definition DeleteMissingRepos :: "env \<Rightarrow> postgresTransaction \<Rightarrow> bool gomap \<Rightarrow> (sqlTx, unit) op" where
  "DeleteMissingRepos env ptx allRepos =
     tryM (deleteMissingReposFromTable env ptx ''imageTag'' allRepos) (\<lambda>_.
     tryM (deleteMissingReposFromTable env ptx ''listTag'' allRepos) (\<lambda>_. ret ()))"

definition DeleteUnused :: "env \<Rightarrow> postgresTransaction \<Rightarrow> (sqlTx, unit) op" where
  "DeleteUnused env ptx =
     tryM (runStmt env deleteUnusedLists) (\<lambda>_.
     tryM (runStmt env deleteUnusedImages) (\<lambda>_. ret ()))"

end
