(* ===== verification/Transactions.thy ===== *)
theory Transactions
  imports Postgres
begin

section \<open>Rules for operations in a transaction\<close>

text \<open>
  Two facts hold of every operation, whatever statements it runs: it never repairs a failed transaction
  (\<open>sticky\<close>), and it keeps every invariant of the tables that its statements keep (\<open>keeps\<close>). Both are
  proved once for the statements and for \<^const>\<open>tryM\<close>, and then for the operations by the collections
  \<open>tx_sticky\<close> and \<open>tx_keeps\<close>. The invariant is that of the schema: keys are unique and every reference
  has its target.
\<close>

named_theorems tx_sticky \<open>operations never repair a failed transaction\<close>
named_theorems tx_keeps \<open>operations keep invariants of the tables\<close>

subsection \<open>Failures stay\<close>

definition sticky :: "(sqlTx, 'a) op \<Rightarrow> bool" where
  "sticky m \<longleftrightarrow> (\<forall>s. (failed s \<longrightarrow> failed (snd (m s))) \<and> txDone (snd (m s)) = txDone s)"

lemma stickyD:
  "sticky m \<Longrightarrow> m s = (x, s') \<Longrightarrow> failed s \<Longrightarrow> failed s'"
  "sticky m \<Longrightarrow> m s = (x, s') \<Longrightarrow> txDone s' = txDone s"
  unfolding sticky_def by (metis snd_conv)+

lemma sticky_snd: "sticky m \<Longrightarrow> failed s \<Longrightarrow> failed (snd (m s))" "sticky m \<Longrightarrow> txDone (snd (m s)) = txDone s"
  by (simp_all add: sticky_def)

lemma sticky_tryM [tx_sticky]:
  assumes "sticky m" "\<And>x. sticky (f x)"
  shows "sticky (tryM m f)"
  using assms unfolding sticky_def tryM_def by (auto split: prod.splits sum.splits) (metis snd_conv)+

lemma sticky_ret [tx_sticky]: "sticky (ret x)"
  by (simp add: sticky_def ret_def)

lemma sticky_throw [tx_sticky]: "sticky (throw e)"
  by (simp add: sticky_def throw_def)

lemma sticky_runStmt [tx_sticky]: "sticky (runStmt env f)"
  by (auto simp: sticky_def runStmt_def Let_def split: sum.splits)

lemma sticky_runQuery [tx_sticky]: "sticky (runQuery env f)"
  by (auto simp: sticky_def runQuery_def Let_def split: sum.splits option.splits)

lemma sticky_state: "(\<And>x. sticky (f x)) \<Longrightarrow> sticky (\<lambda>s. f (g s) s)"
  by (simp add: sticky_def)

lemma sticky_exec [tx_sticky]: "sticky (exec env ptx f)"
  unfolding exec_def Let_def by (intro tx_sticky)

lemma sticky_doImageQuery [tx_sticky]: "sticky (doImageQuery env q)"
proof -
  have "sticky (\<lambda>s. (case makeWhereClause (loopOrd env s) q of
      Inl e \<Rightarrow> throw (GoPanic e)
    | Inr (whereClause, as) \<Rightarrow>
        tryM (runQuery env (imageQuery (likeOp env) (collation env) whereClause as)) (\<lambda>rows.
          ret (imageRows_loop rows []))) s)"
    by (rule sticky_state [where g = "\<lambda>s. makeWhereClause (loopOrd env s) q"])
      (auto split: sum.splits intro!: tx_sticky)
  moreover have "doImageQuery env q = \<dots>" by (auto simp: doImageQuery_def split: sum.splits)
  ultimately show ?thesis by simp
qed

lemma sticky_doListQuery [tx_sticky]: "sticky (doListQuery env q)"
proof -
  have "sticky (\<lambda>s. (case makeWhereClause (loopOrd env s) q of
      Inl e \<Rightarrow> throw (GoPanic e)
    | Inr (whereClause, as) \<Rightarrow>
        tryM (runQuery env (listQuery (likeOp env) whereClause as)) (\<lambda>rows.
          ret (listRows_loop rows []))) s)"
    by (rule sticky_state [where g = "\<lambda>s. makeWhereClause (loopOrd env s) q"])
      (auto split: sum.splits intro!: tx_sticky)
  moreover have "doListQuery env q = \<dots>" by (auto simp: doListQuery_def split: sum.splits)
  ultimately show ?thesis by simp
qed

lemma sticky_DoQuery [tx_sticky]: "sticky (DoQuery env ptx q)"
  unfolding DoQuery_def by (intro tx_sticky)

lemma sticky_getTags [tx_sticky]: "sticky (getTags env ptx r tg d)"
  unfolding getTags_def by (intro tx_sticky)

lemma sticky_setTags_insert [tx_sticky]: "sticky (setTags_insert env ptx r tg tu d ts old)"
  by (induction ts arbitrary: old) (auto simp: Let_def intro!: tx_sticky)

lemma sticky_setTags_delete [tx_sticky]: "sticky (setTags_delete env ptx r tg tu d ts)"
  by (induction ts) (auto intro!: tx_sticky)

lemma sticky_setTags [tx_sticky]: "sticky (setTags env ptx r tg tu d ts)"
  unfolding setTags_def
  by (intro sticky_tryM sticky_getTags sticky_setTags_insert)
    (rule sticky_state [where f = "setTags_delete env ptx r tg tu d", OF sticky_setTags_delete])

lemma sticky_Set [tx_sticky]:
  "sticky (SetImageTags env ptx r d ts)" "sticky (SetImageListTags env ptx r d ts)"
  unfolding SetImageTags_def SetImageListTags_def by (rule sticky_setTags)+

lemma sticky_storeImage [tx_sticky]: "sticky (storeImage env ptx r im)"
  unfolding storeImage_def Let_def by (intro tx_sticky)

lemma sticky_storeListImages [tx_sticky]: "sticky (storeListImages env ptx r l ims)"
  by (induction ims) (auto intro!: tx_sticky)

lemma sticky_storeImageList [tx_sticky]: "sticky (storeImageList env ptx r l)"
  unfolding storeImageList_def Let_def by (auto intro!: tx_sticky)

lemma sticky_Store [tx_sticky]:
  "sticky (StoreImage env ptx r im)" "sticky (StoreImageList env ptx r l)"
  "sticky (DeleteImage env ptx r d)" "sticky (DeleteImageList env ptx r d)"
  unfolding StoreImage_def StoreImageList_def DeleteImage_def DeleteImageList_def by (intro tx_sticky)+

lemma sticky_deleteRepos [tx_sticky]: "sticky (deleteRepos env ptx tb rs)"
  by (induction rs) (auto intro!: tx_sticky)

lemma sticky_DeleteMissingRepos [tx_sticky]: "sticky (DeleteMissingRepos env ptx all)"
  unfolding DeleteMissingRepos_def deleteMissingReposFromTable_def by (intro tx_sticky)

lemma sticky_DeleteUnused [tx_sticky]: "sticky (DeleteUnused env ptx)"
  unfolding DeleteUnused_def by (intro tx_sticky)

subsection \<open>Runs that succeed\<close>

text \<open>A run that returns a value and leaves the transaction able to commit.\<close>

definition runs :: "(sqlTx, 'a) op \<Rightarrow> sqlTx \<Rightarrow> 'a \<Rightarrow> sqlTx \<Rightarrow> bool" where
  "runs m s x s' \<longleftrightarrow> m s = (Inr x, s') \<and> \<not> failed s'"

lemma runs_tryM:
  assumes "\<And>x. sticky (f x)"
  shows "runs (tryM m f) s y s' \<longleftrightarrow> (\<exists>x s1. runs m s x s1 \<and> runs (f x) s1 y s')"
proof (cases "m s")
  case (Pair r s1)
  show ?thesis
  proof (cases r)
    case (Inl e)
    then show ?thesis by (simp add: runs_def tryM_def Pair)
  next
    case (Inr x)
    have "f x s1 = (Inr y, s') \<Longrightarrow> \<not> failed s' \<Longrightarrow> \<not> failed s1"
      using stickyD(1) [OF assms] by blast
    then show ?thesis by (auto simp: runs_def tryM_def Pair Inr)
  qed
qed

lemma runs_ret [simp]: "runs (ret x) s y s' \<longleftrightarrow> x = y \<and> s = s' \<and> \<not> failed s'"
  by (auto simp: runs_def ret_def)

lemma runs_throw [simp]: "\<not> runs (throw e) s y s'"
  by (auto simp: runs_def throw_def)

lemma runs_runStmt:
  "runs (runStmt env f) s x s' \<longleftrightarrow> \<not> failed s \<and> \<not> txDone s \<and> \<not> faultAt env (stmts s) \<and>
     (\<exists>t. f (work s) = Inr (x, t) \<and> s' = s\<lparr>work := t, stmts := Suc (stmts s)\<rparr>)"
  by (auto simp: runs_def runStmt_def Let_def split: sum.splits)

lemma runs_runQuery:
  "runs (runQuery env f) s x s' \<longleftrightarrow> \<not> failed s \<and> \<not> txDone s \<and> \<not> faultAt env (stmts s) \<and>
     rowsCut env (stmts s) = None \<and> f (rowPerm env (stmts s)) (work s) = Inr x \<and>
     s' = s\<lparr>stmts := Suc (stmts s)\<rparr>"
  by (auto simp: runs_def runQuery_def Let_def split: sum.splits option.splits)

lemma runs_exec: "runs (exec env ptx f) s n s' \<longleftrightarrow> runs (runStmt env f) s n s'"
  unfolding exec_def Let_def by (subst runs_tryM) (auto intro: sticky_ret simp: runs_def ret_def)

subsection \<open>Invariants of the tables\<close>

definition keeps :: "(tables \<Rightarrow> bool) \<Rightarrow> (sqlTx, 'a) op \<Rightarrow> bool" where
  "keeps I m \<longleftrightarrow> (\<forall>s. I (work s) \<longrightarrow> I (work (snd (m s))))"

lemma keepsD: "keeps I m \<Longrightarrow> I (work s) \<Longrightarrow> I (work (snd (m s)))"
  by (simp add: keeps_def)

text \<open>\<open>stmt_keeps I f\<close>: the statement \<open>f\<close>, when it succeeds, keeps \<open>I\<close>.\<close>

definition stmt_keeps :: "(tables \<Rightarrow> bool) \<Rightarrow> (tables \<Rightarrow> error + 'a \<times> tables) \<Rightarrow> bool" where
  "stmt_keeps I f \<longleftrightarrow> (\<forall>t x t'. I t \<longrightarrow> f t = Inr (x, t') \<longrightarrow> I t')"

lemma keeps_tryM [tx_keeps]: "keeps I m \<Longrightarrow> (\<And>x. keeps I (f x)) \<Longrightarrow> keeps I (tryM m f)"
  unfolding keeps_def tryM_def by (auto split: prod.splits sum.splits)

lemma keeps_ret [tx_keeps]: "keeps I (ret x)"
  by (simp add: keeps_def ret_def)

lemma keeps_throw [tx_keeps]: "keeps I (throw x)"
  by (simp add: keeps_def throw_def)

lemma keeps_runStmt [tx_keeps]: "stmt_keeps I f \<Longrightarrow> keeps I (runStmt env f)"
  by (auto simp: keeps_def stmt_keeps_def runStmt_def Let_def split: sum.splits)

lemma keeps_runQuery [tx_keeps]: "keeps I (runQuery env f)"
  by (auto simp: keeps_def runQuery_def Let_def split: sum.splits option.splits)

lemma keeps_state: "(\<And>x. keeps I (f x)) \<Longrightarrow> keeps I (\<lambda>s. f (g s) s)"
  by (simp add: keeps_def)

lemma keeps_exec [tx_keeps]: "stmt_keeps I f \<Longrightarrow> keeps I (exec env ptx f)"
  unfolding exec_def Let_def by (intro tx_keeps)

lemma keeps_DoQuery [tx_keeps]: "keeps I (DoQuery env ptx q)"
proof -
  have "keeps I (doImageQuery env q)"
    by (auto simp: keeps_def doImageQuery_def tryM_def throw_def ret_def runQuery_def Let_def
        split: sum.splits prod.splits option.splits if_splits)
  moreover have "keeps I (doListQuery env q)"
    by (auto simp: keeps_def doListQuery_def tryM_def throw_def ret_def runQuery_def Let_def
        split: sum.splits prod.splits option.splits if_splits)
  ultimately show ?thesis unfolding DoQuery_def by (intro tx_keeps)
qed

text \<open>An invariant that every statement keeps is kept by every operation.\<close>

locale table_invariant =
  fixes I :: "tables \<Rightarrow> bool"
  assumes upsert [tx_keeps]: "stmt_keeps I (upsertTag n c r g d)"
    and delete_rows: "stmt_keeps I (deleteTagRows n c as P)"
    and insert_image [tx_keeps]: "stmt_keeps I (insertImage d m a os an lb)"
    and insert_list [tx_keeps]: "stmt_keeps I (insertList d m an)"
    and insert_entry [tx_keeps]: "stmt_keeps I (insertListEntry l d)"
    and unused_lists [tx_keeps]: "stmt_keeps I deleteUnusedLists"
    and unused_images [tx_keeps]: "stmt_keeps I deleteUnusedImages"
begin

lemma deletes [tx_keeps]:
  "stmt_keeps I (deleteTag n c r g d)" "stmt_keeps I (deleteTarget n c r d)"
  unfolding deleteTag_def deleteTarget_def by (rule delete_rows)+

lemma delete_repo [tx_keeps]: "stmt_keeps I (deleteRepo n r)"
  using delete_rows unfolding stmt_keeps_def deleteRepo_def by (auto split: option.splits)

lemma keeps_getTags [tx_keeps]: "keeps I (getTags env ptx r tg d)"
  unfolding getTags_def by (intro tx_keeps)

lemma keeps_setTags_insert [tx_keeps]: "keeps I (setTags_insert env ptx r tg tu d ts old)"
  by (induction ts arbitrary: old) (auto simp: Let_def intro!: tx_keeps)

lemma keeps_setTags_delete [tx_keeps]: "keeps I (setTags_delete env ptx r tg tu d ts)"
  by (induction ts) (auto intro!: tx_keeps)

lemma keeps_setTags [tx_keeps]: "keeps I (setTags env ptx r tg tu d ts)"
  unfolding setTags_def
  by (intro keeps_tryM keeps_getTags keeps_setTags_insert)
    (rule keeps_state [where f = "setTags_delete env ptx r tg tu d", OF keeps_setTags_delete])

lemma keeps_Set [tx_keeps]:
  "keeps I (SetImageTags env ptx r d ts)" "keeps I (SetImageListTags env ptx r d ts)"
  unfolding SetImageTags_def SetImageListTags_def by (rule keeps_setTags)+

lemma keeps_storeImage [tx_keeps]: "keeps I (storeImage env ptx r im)"
  unfolding storeImage_def Let_def by (intro tx_keeps)

lemma keeps_storeListImages [tx_keeps]: "keeps I (storeListImages env ptx r l ims)"
  by (induction ims) (auto intro!: tx_keeps)

lemma keeps_storeImageList [tx_keeps]: "keeps I (storeImageList env ptx r l)"
  unfolding storeImageList_def Let_def by (auto intro!: tx_keeps)

lemma keeps_Store [tx_keeps]:
  "keeps I (StoreImage env ptx r im)" "keeps I (StoreImageList env ptx r l)"
  "keeps I (DeleteImage env ptx r d)" "keeps I (DeleteImageList env ptx r d)"
  unfolding StoreImage_def StoreImageList_def DeleteImage_def DeleteImageList_def by (intro tx_keeps)+

lemma keeps_deleteRepos [tx_keeps]: "keeps I (deleteRepos env ptx tb rs)"
  by (induction rs) (auto intro!: tx_keeps)

lemma keeps_DeleteMissingRepos [tx_keeps]: "keeps I (DeleteMissingRepos env ptx all)"
  unfolding DeleteMissingRepos_def deleteMissingReposFromTable_def by (intro tx_keeps)

lemma keeps_DeleteUnused [tx_keeps]: "keeps I (DeleteUnused env ptx)"
  unfolding DeleteUnused_def by (intro tx_keeps)

text \<open>The operations of the interface \<^verbatim>\<open>Tx\<close>.\<close>

lemmas keeps_all = keeps_DoQuery keeps_Set keeps_Store keeps_DeleteMissingRepos keeps_DeleteUnused

end

subsection \<open>The schema\<close>

definition tags_wf :: "(string \<Rightarrow> bool) \<Rightarrow> tag_rows \<Rightarrow> bool" where
  "tags_wf ex rows \<longleftrightarrow> distinct (map fst rows) \<and> (\<forall>d \<in> snd ` set rows. ex d)"

definition images_wf :: "Image gomap \<Rightarrow> bool" where
  "images_wf m \<longleftrightarrow> gomap_wf m \<and> (\<forall>(d, im) \<in> set m. Digest im = d \<and> image_wf im)"

definition lists_wf :: "ImageList gomap \<Rightarrow> bool" where
  "lists_wf m \<longleftrightarrow> gomap_wf m \<and>
     (\<forall>(d, l) \<in> set m. listDigest l = d \<and> gomap_wf (listAnnotations l) \<and> listImages l = [])"

definition tables_wf :: "tables \<Rightarrow> bool" where
  "tables_wf t \<longleftrightarrow> images_wf (imageT t) \<and> lists_wf (listT t) \<and>
     tags_wf (\<lambda>d. gget (imageT t) d \<noteq> None) (imageTagT t) \<and>
     tags_wf (\<lambda>d. gget (listT t) d \<noteq> None) (listTagT t) \<and>
     distinct (listEntryT t) \<and>
     (\<forall>(l, d) \<in> set (listEntryT t). gget (listT t) l \<noteq> None \<and> gget (imageT t) d \<noteq> None)"

lemma update_values: "snd ` set (AList.update k d rows) \<subseteq> insert d (snd ` set rows)"
  by (induction rows) auto

lemma tags_wf_update: "tags_wf ex rows \<Longrightarrow> ex d \<Longrightarrow> tags_wf ex (AList.update k d rows)"
  unfolding tags_wf_def using distinct_update [of rows k d] update_values [of k d rows] by blast

lemma tags_wf_filter: "tags_wf ex rows \<Longrightarrow> tags_wf ex (filter P rows)"
  unfolding tags_wf_def by (auto simp: distinct_map_filter)

lemma tags_wf_mono: "tags_wf ex rows \<Longrightarrow> (\<And>d. d \<in> snd ` set rows \<Longrightarrow> ex d \<Longrightarrow> ex' d) \<Longrightarrow> tags_wf ex' rows"
  unfolding tags_wf_def by blast

lemma onTagTable_Inr:
  "onTagTable name col as f = Inr x \<longleftrightarrow>
     list_all text_ok as \<and> (\<exists>tb. tagTable name = Some tb \<and> lower col = targetColumn tb \<and> f tb = Inr x)"
  by (auto simp: onTagTable_def split: option.splits)

lemma wf_upsert: "stmt_keeps tables_wf (upsertTag n c r g d)"
proof -
  have "tables_wf t'" if "tables_wf t" "upsertTag n c r g d t = Inr (x, t')" for t x t'
  proof -
    from that(2) obtain tb where tb: "targetExists tb t d"
        "t' = setTagRows tb (AList.update (r, g) d (tagRows tb t)) t"
      by (auto simp: upsertTag_def onTagTable_Inr split: if_splits)
    show ?thesis using that(1) tb by (cases tb) (auto simp: tables_wf_def tags_wf_update)
  qed
  then show ?thesis unfolding stmt_keeps_def by blast
qed

lemma wf_delete: "stmt_keeps tables_wf (deleteTagRows n c as P)"
proof -
  have "tables_wf t'" if "tables_wf t" "deleteTagRows n c as P t = Inr (x, t')" for t x t'
  proof -
    from that(2) obtain tb where "t' = setTagRows tb (filter (\<lambda>x. \<not> P x) (tagRows tb t)) t"
      by (auto simp: deleteTagRows_def deleteRows_def onTagTable_Inr)
    then show ?thesis using that(1) by (cases tb) (auto simp: tables_wf_def tags_wf_filter)
  qed
  then show ?thesis unfolding stmt_keeps_def by blast
qed

lemma wf_insert_image: "stmt_keeps tables_wf (insertImage d m a os an lb)"
proof -
  have "tables_wf t'" if wf: "tables_wf t" and st: "insertImage d m a os an lb t = Inr (x, t')" for t x t'
  proof (cases "gget (imageT t) d")
    case None
    from st None obtain am lm where j: "jsonb_text an = Some am" "jsonb_text lb = Some lm"
      and t': "t' = t\<lparr>imageT := imageT t @ [(d, \<lparr>Digest = d, MediaType = m, OS = os,
            Architecture = a, Annotations = am, Labels = lm\<rparr>)]\<rparr>"
      by (auto simp: insertImage_def split: if_splits option.splits)
    have new: "gget (imageT t') k = (if k = d then gget (imageT t') d else gget (imageT t) k)"
      "gget (imageT t') d \<noteq> None" for k
      using None by (auto simp: t' map_add_def split: option.splits)
    have "images_wf (imageT t')"
      using wf None jsonb_text_wf [OF j(1)] jsonb_text_wf [OF j(2)]
      by (auto simp: t' tables_wf_def images_wf_def image_wf_def map_of_eq_None_iff)
    moreover have "gget (imageT t) k \<noteq> None \<Longrightarrow> gget (imageT t') k \<noteq> None" for k
      using new by metis
    ultimately show ?thesis using wf
      by (auto simp: tables_wf_def t' intro: tags_wf_mono)
  next
    case (Some y)
    then show ?thesis using st wf by (auto simp: insertImage_def split: if_splits option.splits)
  qed
  then show ?thesis unfolding stmt_keeps_def by blast
qed

lemma wf_insert_list: "stmt_keeps tables_wf (insertList d m an)"
proof -
  have "tables_wf t'" if wf: "tables_wf t" and st: "insertList d m an t = Inr (x, t')" for t x t'
  proof (cases "gget (listT t) d")
    case None
    from st None obtain am where j: "jsonb_text an = Some am"
      and t': "t' = t\<lparr>listT := listT t @ [(d, \<lparr>listDigest = d, listMediaType = m, listImages = [],
            listAnnotations = am\<rparr>)]\<rparr>"
      by (auto simp: insertList_def split: if_splits option.splits)
    have new: "gget (listT t') k = (if k = d then gget (listT t') d else gget (listT t) k)"
      "gget (listT t') d \<noteq> None" for k
      using None by (auto simp: t' map_add_def split: option.splits)
    have "lists_wf (listT t')"
      using wf None jsonb_text_wf [OF j]
      by (auto simp: t' tables_wf_def lists_wf_def map_of_eq_None_iff)
    moreover have "gget (listT t) k \<noteq> None \<Longrightarrow> gget (listT t') k \<noteq> None" for k
      using new by metis
    ultimately show ?thesis using wf
      by (auto simp: tables_wf_def t' intro: tags_wf_mono)
  next
    case (Some y)
    then show ?thesis using st wf by (auto simp: insertList_def split: if_splits option.splits)
  qed
  then show ?thesis unfolding stmt_keeps_def by blast
qed

lemma wf_insert_entry: "stmt_keeps tables_wf (insertListEntry l d)"
  by (auto simp: stmt_keeps_def insertListEntry_def tables_wf_def split: if_splits)

lemma gget_filter: "gomap_wf m \<Longrightarrow> gget (filter (\<lambda>x. Q (fst x)) m) k = (if Q k then gget m k else None)"
proof (induction m)
  case (Cons e m)
  have "gget m (fst e) = None" using Cons.prems by (simp add: map_of_eq_None_iff)
  then show ?case using Cons by (cases e) auto
qed simp

lemma deleteUnusedLists_eq:
  "deleteUnusedLists t = Inr (n, t') \<Longrightarrow>
   t' = t\<lparr>listT := filter (\<lambda>x. fst x \<in> snd ` set (listTagT t)) (listT t),
     listEntryT := filter (\<lambda>x. fst x \<in> fst ` set (listT t) \<and> fst x \<in> snd ` set (listTagT t)) (listEntryT t)\<rparr>"
proof -
  assume "deleteUnusedLists t = Inr (n, t')"
  moreover have "fst ` set (filter (\<lambda>x. fst x \<in> A) m) = fst ` set m \<inter> A" for m :: "ImageList gomap" and A
    by auto
  ultimately show ?thesis
    by (auto simp: deleteUnusedLists_def deleteRows_def Let_def case_prod_unfold)
qed

lemma deleteUnusedImages_eq:
  "deleteUnusedImages t = Inr (n, t') \<Longrightarrow>
   t' = t\<lparr>imageT := filter (\<lambda>x. fst x \<in> snd ` set (imageTagT t) \<union> snd ` set (listEntryT t)) (imageT t)\<rparr>"
  by (auto simp: deleteUnusedImages_def deleteRows_def Let_def case_prod_unfold)

lemma wf_unused_lists: "stmt_keeps tables_wf deleteUnusedLists"
proof -
  have "tables_wf t'" if wf: "tables_wf t" and st: "deleteUnusedLists t = Inr (n, t')" for t n t'
  proof -
    have wl: "gomap_wf (listT t)" using wf by (simp add: tables_wf_def lists_wf_def)
    have g: "gget (listT t') k = (if k \<in> snd ` set (listTagT t) then gget (listT t) k else None)" for k
      using gget_filter [OF wl, of "\<lambda>k. k \<in> snd ` set (listTagT t)"] by (simp add: deleteUnusedLists_eq [OF st])
    have same: "imageT t' = imageT t" "imageTagT t' = imageTagT t" "listTagT t' = listTagT t"
      by (simp_all add: deleteUnusedLists_eq [OF st])
    have "lists_wf (listT t')" using wf
      by (auto simp: deleteUnusedLists_eq [OF st] tables_wf_def lists_wf_def distinct_map_filter)
    moreover have "tags_wf (\<lambda>d. gget (listT t') d \<noteq> None) (listTagT t)"
      using wf by (auto simp: tables_wf_def g intro: tags_wf_mono)
    moreover have "distinct (listEntryT t')" using wf by (simp add: deleteUnusedLists_eq [OF st] tables_wf_def)
    moreover have "gget (listT t') l \<noteq> None \<and> gget (imageT t) d \<noteq> None" if "(l, d) \<in> set (listEntryT t')" for l d
    proof -
      have "(l, d) \<in> set (listEntryT t)" "l \<in> snd ` set (listTagT t)"
        using that by (auto simp: deleteUnusedLists_eq [OF st])
      then show ?thesis using wf by (auto simp: tables_wf_def g)
    qed
    ultimately show ?thesis using wf by (auto simp: tables_wf_def same)
  qed
  then show ?thesis unfolding stmt_keeps_def by blast
qed

lemma wf_unused_images: "stmt_keeps tables_wf deleteUnusedImages"
proof -
  have "tables_wf t'" if wf: "tables_wf t" and st: "deleteUnusedImages t = Inr (n, t')" for t n t'
  proof -
    let ?used = "snd ` set (imageTagT t) \<union> snd ` set (listEntryT t)"
    have wi: "gomap_wf (imageT t)" using wf by (simp add: tables_wf_def images_wf_def)
    have g: "gget (imageT t') k = (if k \<in> ?used then gget (imageT t) k else None)" for k
      using gget_filter [OF wi, of "\<lambda>k. k \<in> ?used"] by (simp add: deleteUnusedImages_eq [OF st])
    have same: "listT t' = listT t" "imageTagT t' = imageTagT t" "listTagT t' = listTagT t"
        "listEntryT t' = listEntryT t"
      by (simp_all add: deleteUnusedImages_eq [OF st])
    have "images_wf (imageT t')" using wf
      by (auto simp: deleteUnusedImages_eq [OF st] tables_wf_def images_wf_def distinct_map_filter)
    moreover have "tags_wf (\<lambda>d. gget (imageT t') d \<noteq> None) (imageTagT t)"
      using wf by (auto simp: tables_wf_def g intro: tags_wf_mono)
    moreover have "gget (listT t) l \<noteq> None \<and> gget (imageT t') d \<noteq> None" if "(l, d) \<in> set (listEntryT t)" for l d
      using wf that by (force simp: tables_wf_def g)
    ultimately show ?thesis using wf by (auto simp: tables_wf_def same)
  qed
  then show ?thesis unfolding stmt_keeps_def by blast
qed

interpretation schema: table_invariant tables_wf
  by unfold_locales
    (rule wf_upsert wf_delete wf_insert_image wf_insert_list wf_insert_entry wf_unused_lists wf_unused_images)+

definition emptyTables :: tables where
  "emptyTables = \<lparr>modTime = 0, imageT = [], imageTagT = [], listT = [], listTagT = [], listEntryT = []\<rparr>"

definition okEnv :: env where
  "okEnv = \<lparr>faultAt = (\<lambda>_. False), rowsCut = (\<lambda>_. None), rowPerm = (\<lambda>_ _ n. [0..<n]),
     mapOrd = (\<lambda>_ ks. ks), likeOp = sql_like, collation = (\<lambda>s. s), beginFault = False,
     commitOutcome = CommitOk, now = 1\<rparr>"

definition newTx :: "tables \<Rightarrow> sqlTx" where
  "newTx db = \<lparr>work = db, failed = False, txDone = False, stmts = 0\<rparr>"

lemma emptyTables_wf: "tables_wf emptyTables"
  by (simp add: emptyTables_def tables_wf_def images_wf_def lists_wf_def tags_wf_def)

subsection \<open>Sequences of calls\<close>

text \<open>What a client can do with a transaction between \<^verbatim>\<open>Begin\<close> and \<^verbatim>\<open>Commit\<close>.\<close>

datatype tx_call =
    CallDoQuery Query
  | CallSetImageTags string string "string list"
  | CallSetImageListTags string string "string list"
  | CallStoreImage string TaggedImage
  | CallStoreImageList string TaggedImageList
  | CallDeleteImage string string
  | CallDeleteImageList string string
  | CallDeleteMissingRepos "bool gomap"
  | CallDeleteUnused

fun runCall :: "env \<Rightarrow> postgresTransaction \<Rightarrow> tx_call \<Rightarrow> sqlTx \<Rightarrow> sqlTx" where
  "runCall env ptx (CallDoQuery q) s = snd (DoQuery env ptx q s)"
| "runCall env ptx (CallSetImageTags r d ts) s = snd (SetImageTags env ptx r d ts s)"
| "runCall env ptx (CallSetImageListTags r d ts) s = snd (SetImageListTags env ptx r d ts s)"
| "runCall env ptx (CallStoreImage r im) s = snd (StoreImage env ptx r im s)"
| "runCall env ptx (CallStoreImageList r l) s = snd (StoreImageList env ptx r l s)"
| "runCall env ptx (CallDeleteImage r d) s = snd (DeleteImage env ptx r d s)"
| "runCall env ptx (CallDeleteImageList r d) s = snd (DeleteImageList env ptx r d s)"
| "runCall env ptx (CallDeleteMissingRepos m) s = snd (DeleteMissingRepos env ptx m s)"
| "runCall env ptx CallDeleteUnused s = snd (DeleteUnused env ptx s)"

definition runCalls :: "env \<Rightarrow> postgresTransaction \<Rightarrow> tx_call list \<Rightarrow> sqlTx \<Rightarrow> sqlTx" where
  "runCalls env ptx cs s = fold (runCall env ptx) cs s"

context table_invariant
begin

lemma keeps_runCall: "I (work s) \<Longrightarrow> I (work (runCall env ptx c s))"
  by (cases c) (simp_all add: keepsD [where I = I] keeps_all)

lemma keeps_runCalls: "I (work s) \<Longrightarrow> I (work (runCalls env ptx cs s))"
  unfolding runCalls_def by (induction cs arbitrary: s) (simp_all add: keeps_runCall)

end

lemma sticky_runCall: "failed s \<Longrightarrow> failed (runCall env ptx c s)" "txDone (runCall env ptx c s) = txDone s"
  by (cases c; simp add: sticky_snd tx_sticky)+

interpretation stamp: table_invariant "\<lambda>t. modTime t = c" for c
proof (unfold_locales, goal_cases)
  case (1 n col r g d)
  show ?case by (auto simp: stmt_keeps_def upsertTag_def onTagTable_Inr split: if_splits; case_tac tb; simp)
next
  case (2 n col as P)
  show ?case by (auto simp: stmt_keeps_def deleteTagRows_def deleteRows_def onTagTable_Inr; case_tac tb; simp)
qed (auto simp: stmt_keeps_def insertImage_def insertList_def insertListEntry_def deleteUnusedLists_def
    deleteUnusedImages_def Let_def split: if_splits option.splits prod.splits)

lemma sticky_runCalls: "failed s \<Longrightarrow> failed (runCalls env ptx cs s)" "txDone (runCalls env ptx cs s) = txDone s"
  unfolding runCalls_def by (induction cs arbitrary: s) (simp_all add: sticky_runCall)

text \<open>
  The modification time is never recorded: after any calls in a transaction, \<^verbatim>\<open>Modified\<close> still answers
  that nothing was modified, and the commit leaves the stored modification time, and with it the ETag of
  every response, as it was.
\<close>

theorem modification_never_recorded:
  assumes "Begin env db = Inr (ptx, s)" "Commit env ptx (runCalls env ptx cs s) db = (res, s', db')"
  shows "Modified ptx = (False, 0) \<and> modTime db' = modTime db"
proof -
  have "modTime (work s) = modTime db" using assms(1) by (auto simp: Begin_def Let_def split: if_splits)
  then have "modTime (work (runCalls env ptx cs s)) = modTime db" by (rule stamp.keeps_runCalls)
  then show ?thesis using assms
    by (auto simp: Begin_def Commit_def Modified_def sqlCommit_def Let_def split: if_splits commit_outcome.splits)
qed

theorem modification_never_recorded_witness:
  "\<exists>s' db'. Commit okEnv \<lparr>modify = False, modificationTime = 0\<rparr>
      (runCalls okEnv \<lparr>modify = False, modificationTime = 0\<rparr>
        [CallStoreImage ''app'' (withTags (zeroImage\<lparr>Digest := ''d''\<rparr>) [''latest''])] (newTx emptyTables)) emptyTables =
      (Inr (), s', db') \<and> imageTagT db' = [((''app'', ''latest''), ''d'')] \<and> modTime db' = 0"
proof -
  let ?ptx = "\<lparr>modify = False, modificationTime = 0\<rparr>"
  let ?cs = "[CallStoreImage ''app'' (withTags (zeroImage\<lparr>Digest := ''d''\<rparr>) [''latest''])]"
  have b: "Begin okEnv emptyTables = Inr (?ptx, newTx emptyTables)" by code_simp
  obtain res s' db' where c: "Commit okEnv ?ptx (runCalls okEnv ?ptx ?cs (newTx emptyTables)) emptyTables = (res, s', db')"
    by (metis prod_cases3)
  have "fst (Commit okEnv ?ptx (runCalls okEnv ?ptx ?cs (newTx emptyTables)) emptyTables) = Inr ()" by code_simp
  moreover have "imageTagT (snd (snd (Commit okEnv ?ptx (runCalls okEnv ?ptx ?cs (newTx emptyTables)) emptyTables))) =
      [((''app'', ''latest''), ''d'')]" by code_simp
  moreover have "modTime emptyTables = 0" by code_simp
  ultimately show ?thesis using modification_never_recorded [OF b c] c by simp
qed

end
