(* ===== verification/TagStore.thy ===== *)
theory TagStore
  imports Transactions
begin

section \<open>What the operations on tags do\<close>

text \<open>
  The exact effect on the tag tables of the operations of postgres.go that change tags, when they
  succeed, and when they succeed. The abstract view of a tag table is a map from repository and tag to
  digest. The two tag tables obey the same laws, stated as the locale \<open>tag_store\<close>; the client of the
  laws, the update of a repository, works with either.
\<close>

definition env_ok :: "env \<Rightarrow> bool" where
  "env_ok env \<longleftrightarrow> (\<forall>k. row_perm_ok (rowPerm env k)) \<and> range_order (mapOrd env) \<and> like_operator (likeOp env)"

definition no_faults :: "env \<Rightarrow> bool" where
  "no_faults env \<longleftrightarrow> (\<forall>k. \<not> faultAt env k \<and> rowsCut env k = None)"

lemma okEnv_ok: "env_ok okEnv" "no_faults okEnv"
  by (simp_all add: env_ok_def no_faults_def okEnv_def row_perm_ok_def range_order_def pg_like.like_operator_axioms)

type_synonym tag_map = "string \<times> string \<rightharpoonup> string"

definition tagMap :: "tag_table \<Rightarrow> tables \<Rightarrow> tag_map" where
  "tagMap tb t = map_of (tagRows tb t)"

text \<open>After setting the tags \<open>ts\<close> of \<open>d\<close> in \<open>r\<close>, exactly these tags of \<open>r\<close> name \<open>d\<close>.\<close>

definition withSet :: "string \<Rightarrow> string \<Rightarrow> string list \<Rightarrow> tag_map \<Rightarrow> tag_map" where
  "withSet r d ts m = (\<lambda>(r', g). if r' = r \<and> g \<in> set ts then Some d
     else if r' = r \<and> m (r', g) = Some d then None else m (r', g))"

definition without :: "string \<Rightarrow> string \<Rightarrow> tag_map \<Rightarrow> tag_map" where
  "without r d m = (\<lambda>(r', g). if r' = r \<and> m (r', g) = Some d then None else m (r', g))"

text \<open>\<open>only_tags tb t t'\<close>: of the tables, at most the rows of one tag table differ.\<close>

definition only_tags :: "tag_table \<Rightarrow> tables \<Rightarrow> tables \<Rightarrow> bool" where
  "only_tags tb t t' \<longleftrightarrow> (\<exists>rs. t' = setTagRows tb rs t)"

lemma setTagRows_simps [simp]:
  "tagRows tb (setTagRows tb rs t) = rs" "setTagRows tb rs (setTagRows tb rs' t) = setTagRows tb rs t"
  "setTagRows tb (tagRows tb t) t = t"
  "targetExists tb' (setTagRows tb rs t) d = targetExists tb' t d"
  by (cases tb; simp; fail | cases tb; cases tb'; simp)+

lemma only_tags_refl [simp]: "only_tags tb t t"
  unfolding only_tags_def by (metis setTagRows_simps(3))

lemma only_tags_trans: "only_tags tb t t' \<Longrightarrow> only_tags tb t' t'' \<Longrightarrow> only_tags tb t t''"
  by (auto simp: only_tags_def)

lemma only_tags_exists: "only_tags tb t t' \<Longrightarrow> targetExists tb' t' d = targetExists tb' t d"
  by (auto simp: only_tags_def)

text \<open>The names of a tag table and its column in the statements of \<^verbatim>\<open>setTags\<close>.\<close>

definition names :: "string \<Rightarrow> string \<Rightarrow> tag_table \<Rightarrow> bool" where
  "names target targetUpper tb \<longleftrightarrow> tagTable (target @ ''Tag'') = Some tb \<and>
     lower target = targetColumn tb \<and> lower targetUpper = targetColumn tb"

lemma names_image: "names ''image'' ''Image'' TagImage"
  by code_simp

lemma names_list: "names ''list'' ''List'' TagList"
  by code_simp

lemma map_of_filter_keyed:
  "distinct (map fst rows) \<Longrightarrow>
   map_of (filter P rows) k = (case map_of rows k of None \<Rightarrow> None | Some v \<Rightarrow> if P (k, v) then Some v else None)"
proof (induction rows)
  case (Cons e rows)
  have "map_of rows (fst e) = None" using Cons.prems by (simp add: map_of_eq_None_iff)
  then show ?case using Cons by (cases e) (auto split: option.splits)
qed simp

subsection \<open>The loops of setTags\<close>

lemma addTags_keys: "set (gkeys (addTags ts m)) = set ts \<union> set (gkeys m)"
  by (induction ts arbitrary: m) (auto simp: dom_update)

lemma runs_getTags:
  assumes "names tg tu tb" "runs (getTags env ptx r tg d) s old s'" "env_ok env"
  shows "set (gkeys old) = {g. \<exists>r'. ((r', g), d) \<in> set (tagRows tb (work s))}"
    "work s' = work s" "text_ok d"
proof -
  from assms obtain rows where rows: "old = addTags (shuffle (rowPerm env (stmts s)) '''' rows) []"
      "selectTags (tg @ ''Tag'') tg d (work s) = Inr rows" "work s' = work s"
    unfolding getTags_def by (subst (asm) runs_tryM) (auto simp: runs_runQuery intro: tx_sticky split: sum.splits)
  then have "set rows = {g. \<exists>r'. ((r', g), d) \<in> set (tagRows tb (work s))}" "text_ok d"
    using assms(1) by (force simp: selectTags_def onTagTable_Inr names_def)+
  then show "set (gkeys old) = {g. \<exists>r'. ((r', g), d) \<in> set (tagRows tb (work s))}"
    "work s' = work s" "text_ok d"
    using rows assms(3) by (simp_all add: addTags_keys [simplified] shuffle_set env_ok_def)
qed

lemma runs_setTags_insert:
  assumes "names tg tu tb" "runs (setTags_insert env ptx r tg tu d ts old) s old' s'"
  shows "set (gkeys old') = set (gkeys old) - set ts \<and> only_tags tb (work s) (work s') \<and>
    tagMap tb (work s') = (\<lambda>(r', g). if r' = r \<and> g \<in> set ts then Some d else tagMap tb (work s) (r', g))"
  using assms(2)
proof (induction ts arbitrary: old s)
  case (Cons g ts)
  from Cons.prems obtain n s1 where
    1: "runs (runStmt env (upsertTag (tg @ ''Tag'') tu r g d)) s n s1" and
    2: "runs (setTags_insert env ptx r tg tu d ts (gdel g old)) s1 old' s'"
    by (auto simp: Let_def runs_tryM sticky_setTags_insert runs_exec)
  have w: "work s1 = setTagRows tb (AList.update (r, g) d (tagRows tb (work s))) (work s)"
    using 1 assms(1) by (auto simp: runs_runStmt upsertTag_def onTagTable_Inr names_def split: if_splits)
  then have "only_tags tb (work s) (work s1)" by (auto simp: only_tags_def)
  moreover have "tagMap tb (work s1) = (tagMap tb (work s))((r, g) \<mapsto> d)"
    by (simp add: tagMap_def w update_conv')
  ultimately show ?case using Cons.IH [OF 2]
    by (auto simp: fun_eq_iff delete_keys intro: only_tags_trans)
qed (auto simp: fun_eq_iff)

lemma runs_setTags_delete:
  assumes "names tg tu tb" "distinct (map fst (tagRows tb (work s)))"
    and "runs (setTags_delete env ptx r tg tu d gs) s u s'"
  shows "only_tags tb (work s) (work s') \<and>
    tagMap tb (work s') = (\<lambda>(r', g). if r' = r \<and> g \<in> set gs \<and> tagMap tb (work s) (r', g) = Some d then None
      else tagMap tb (work s) (r', g))"
  using assms(2,3)
proof (induction gs arbitrary: s)
  case (Cons g gs)
  from Cons.prems obtain n s1 where
    1: "runs (runStmt env (deleteTag (tg @ ''Tag'') tu r g d)) s n s1" and
    2: "runs (setTags_delete env ptx r tg tu d gs) s1 u s'"
    by (auto simp: runs_tryM sticky_setTags_delete runs_exec)
  let ?keep = "\<lambda>x. \<not> (case x of ((r', g'), d') \<Rightarrow> r' = r \<and> g' = g \<and> d' = d)"
  have w: "work s1 = setTagRows tb (filter ?keep (tagRows tb (work s))) (work s)"
    using 1 assms(1)
    by (auto simp: runs_runStmt deleteTag_def deleteTagRows_def deleteRows_def onTagTable_Inr names_def
        case_prod_unfold)
  have o: "only_tags tb (work s) (work s1)" using w by (auto simp: only_tags_def)
  have m: "tagMap tb (work s1) k = (case tagMap tb (work s) k of None \<Rightarrow> None
      | Some v \<Rightarrow> if ?keep (k, v) then Some v else None)" for k
    using map_of_filter_keyed [OF Cons.prems(1), of ?keep] by (simp add: tagMap_def w)
  have "distinct (map fst (tagRows tb (work s1)))"
    using Cons.prems(1) by (simp add: w distinct_map_filter)
  from Cons.IH [OF this 2] show ?case
    using o by (auto simp: fun_eq_iff m split: option.splits intro: only_tags_trans)
qed (auto simp: fun_eq_iff)

lemma tables_wf_distinct: "tables_wf t \<Longrightarrow> distinct (map fst (tagRows tb t))"
  by (cases tb) (simp_all add: tables_wf_def tags_wf_def)

lemma runs_keeps: "keeps I m \<Longrightarrow> runs m s x s' \<Longrightarrow> I (work s) \<Longrightarrow> I (work s')"
  using keepsD [of I m s] by (auto simp: runs_def)

lemma runs_setTags_iff:
  "runs (setTags env ptx r tg tu d ts) s u s' \<longleftrightarrow>
    (\<exists>old s1 old' s2. runs (getTags env ptx r tg d) s old s1 \<and>
      runs (setTags_insert env ptx r tg tu d ts old) s1 old' s2 \<and>
      runs (setTags_delete env ptx r tg tu d (loopOrd env s2 0 (gkeys old'))) s2 u s')"
proof -
  have st: "sticky (\<lambda>s. setTags_delete env ptx r tg tu d (loopOrd env s 0 ks) s)" for ks
    by (rule sticky_state [where f = "setTags_delete env ptx r tg tu d", OF sticky_setTags_delete])
  have "runs (\<lambda>s. setTags_delete env ptx r tg tu d (loopOrd env s 0 ks) s) s2 u s' \<longleftrightarrow>
      runs (setTags_delete env ptx r tg tu d (loopOrd env s2 0 ks)) s2 u s'" for ks s2
    by (simp add: runs_def)
  then show ?thesis
    unfolding setTags_def by (simp add: runs_tryM sticky_tryM sticky_setTags_insert st)
qed

lemma runs_setTags:
  assumes "names tg tu tb" "tables_wf (work s)" "env_ok env"
    and "runs (setTags env ptx r tg tu d ts) s u s'"
  shows "only_tags tb (work s) (work s') \<and> tagMap tb (work s') = withSet r d ts (tagMap tb (work s))"
proof -
  from assms(4) obtain old s1 old' s2 where
    1: "runs (getTags env ptx r tg d) s old s1" and
    2: "runs (setTags_insert env ptx r tg tu d ts old) s1 old' s2" and
    3: "runs (setTags_delete env ptx r tg tu d (loopOrd env s2 0 (gkeys old'))) s2 u s'"
    unfolding runs_setTags_iff by blast
  note g = runs_getTags [OF assms(1) 1 assms(3)]
  note i = runs_setTags_insert [OF assms(1) 2]
  have "tables_wf (work s2)"
    using runs_keeps [OF schema.keeps_setTags_insert 2] g(2) assms(2) by simp
  note dl = runs_setTags_delete [OF assms(1) tables_wf_distinct [OF this] 3]
  have ks: "set (loopOrd env s2 0 (gkeys old')) = {x. \<exists>r'. ((r', x), d) \<in> set (tagRows tb (work s))} - set ts"
    using i g(1) assms(3) by (simp add: loopOrd_def range_order_set env_ok_def)
  have "tagMap tb (work s) (r', x) = Some d \<Longrightarrow> \<exists>r'. ((r', x), d) \<in> set (tagRows tb (work s))" for r' x
    by (auto simp: tagMap_def dest: map_of_SomeD)
  then have "tagMap tb (work s') = withSet r d ts (tagMap tb (work s))"
    using i dl g(2) by (auto simp: withSet_def fun_eq_iff ks) blast
  then show ?thesis using i dl g(2) by (auto intro: only_tags_trans)
qed

lemma runs_SetTags:
  assumes "tables_wf (work s)" "env_ok env"
  shows "runs (SetImageTags env ptx r d ts) s u s' \<Longrightarrow> only_tags TagImage (work s) (work s') \<and>
      tagMap TagImage (work s') = withSet r d ts (tagMap TagImage (work s))"
    and "runs (SetImageListTags env ptx r d ts) s u s' \<Longrightarrow> only_tags TagList (work s) (work s') \<and>
      tagMap TagList (work s') = withSet r d ts (tagMap TagList (work s))"
  using runs_setTags [OF names_image assms] runs_setTags [OF names_list assms]
  unfolding SetImageTags_def SetImageListTags_def by blast+

subsection \<open>When setTags succeeds\<close>

definition ready :: "env \<Rightarrow> sqlTx \<Rightarrow> bool" where
  "ready env s \<longleftrightarrow> no_faults env \<and> \<not> failed s \<and> \<not> txDone s"

lemma runs_stmt_total:
  "ready env s \<Longrightarrow> f (work s) = Inr (x, t) \<Longrightarrow>
   \<exists>s'. runs (runStmt env f) s x s' \<and> work s' = t \<and> ready env s'"
  by (auto simp: ready_def runs_runStmt no_faults_def)

lemma runs_insert_total:
  assumes "names tg tu tb" "ready env s" "targetExists tb (work s) d" "text_ok r" "text_ok d" "list_all text_ok ts"
  shows "\<exists>old' s'. runs (setTags_insert env ptx r tg tu d ts old) s old' s' \<and> ready env s' \<and>
    set (gkeys old') \<subseteq> set (gkeys old) \<and> only_tags tb (work s) (work s')"
  using assms(2,3,6)
proof (induction ts arbitrary: old s)
  case Nil
  then show ?case by (auto simp: ready_def)
next
  case (Cons g ts)
  let ?t = "setTagRows tb (AList.update (r, g) d (tagRows tb (work s))) (work s)"
  have "upsertTag (tg @ ''Tag'') tu r g d (work s) = Inr (1, ?t)"
    using assms Cons.prems by (simp add: upsertTag_def onTagTable_def names_def)
  from runs_stmt_total [where f = "upsertTag (tg @ ''Tag'') tu r g d", OF Cons.prems(1) this]
  obtain s1 where 1: "runs (runStmt env (upsertTag (tg @ ''Tag'') tu r g d)) s 1 s1" "work s1 = ?t" "ready env s1"
    by blast
  have "targetExists tb (work s1) d" using Cons.prems(2) 1(2) by simp
  from Cons.IH [OF 1(3) this, of "gdel g old"] Cons.prems(3) obtain old' s' where
    2: "runs (setTags_insert env ptx r tg tu d ts (gdel g old)) s1 old' s'" "ready env s'"
      "set (gkeys old') \<subseteq> set (gkeys (gdel g old))" "only_tags tb (work s1) (work s')"
    by auto
  have "only_tags tb (work s) (work s1)" using 1(2) by (auto simp: only_tags_def)
  then have "only_tags tb (work s) (work s')" using 2(4) by (rule only_tags_trans)
  moreover have "runs (setTags_insert env ptx r tg tu d (g # ts) old) s old' s'"
    using 1(1) 2(1) unfolding setTags_insert.simps Let_def runs_tryM [OF sticky_setTags_insert] runs_exec by blast
  moreover have "set (gkeys old') \<subseteq> set (gkeys old)" using 2(3) by (auto simp: delete_keys)
  ultimately show ?case using 2(2) by blast
qed

lemma runs_delete_total:
  assumes "names tg tu tb" "ready env s" "text_ok r" "text_ok d" "list_all text_ok gs"
  shows "\<exists>s'. runs (setTags_delete env ptx r tg tu d gs) s () s' \<and> ready env s'"
  using assms(2,5)
proof (induction gs arbitrary: s)
  case Nil
  then show ?case by (auto simp: ready_def)
next
  case (Cons g gs)
  obtain n t where "deleteTag (tg @ ''Tag'') tu r g d (work s) = Inr (n, t)"
    using assms Cons.prems by (simp add: deleteTag_def deleteTagRows_def deleteRows_def onTagTable_def names_def)
  from runs_stmt_total [where f = "deleteTag (tg @ ''Tag'') tu r g d", OF Cons.prems(1) this]
  obtain s1 where 1: "runs (runStmt env (deleteTag (tg @ ''Tag'') tu r g d)) s n s1" "ready env s1"
    by blast
  from Cons.IH [OF 1(2)] Cons.prems(2) obtain s' where
    "runs (setTags_delete env ptx r tg tu d gs) s1 () s'" "ready env s'" by auto
  then show ?case using 1 by (auto simp: runs_tryM sticky_setTags_delete runs_exec)
qed

text \<open>The tags stored in a table are texts, since they arrived as arguments.\<close>

definition tag_texts :: "tag_table \<Rightarrow> tables \<Rightarrow> bool" where
  "tag_texts tb t \<longleftrightarrow> (\<forall>((r, g), d) \<in> set (tagRows tb t). text_ok r \<and> text_ok g \<and> text_ok d)"

lemma runs_setTags_total:
  assumes "names tg tu tb" "ready env s" "env_ok env" "targetExists tb (work s) d" "tag_texts tb (work s)"
    and "text_ok r" "text_ok d" "list_all text_ok ts"
  shows "\<exists>s'. runs (setTags env ptx r tg tu d ts) s () s'"
proof -
  let ?rows = "map (\<lambda>((r, g), d). g) (filter (\<lambda>((r, g), d'). d' = d) (tagRows tb (work s)))"
  let ?s1 = "s\<lparr>stmts := Suc (stmts s)\<rparr>"
  let ?old = "addTags (shuffle (rowPerm env (stmts s)) '''' ?rows) []"
  have sel: "selectTags (tg @ ''Tag'') tg d (work s) = Inr ?rows"
    using assms by (simp add: selectTags_def onTagTable_def names_def)
  have 1: "runs (getTags env ptx r tg d) s ?old ?s1"
    using assms(2) sel unfolding getTags_def ready_def no_faults_def
    by (auto simp: runs_tryM sticky_ret runs_runQuery)
  have r1: "ready env ?s1" using assms(2) by (simp add: ready_def)
  have "targetExists tb (work ?s1) d" using assms(4) by simp
  from runs_insert_total [OF assms(1) r1 this assms(6-8), of ptx ?old]
  obtain old' s2 where 2: "runs (setTags_insert env ptx r tg tu d ts ?old) ?s1 old' s2" "ready env s2"
      "set (gkeys old') \<subseteq> set (gkeys ?old)" by blast
  have "list_all text_ok (gkeys old')"
  proof -
    have "text_ok g" if "g \<in> set (gkeys old')" for g
    proof -
      have "g \<in> set (gkeys ?old)" using that 2(3) by (rule subsetD [rotated])
      then obtain r' where "((r', g), d) \<in> set (tagRows tb (work s))"
        unfolding runs_getTags(1) [OF assms(1) 1 assms(3)] by blast
      then show ?thesis using assms(5) by (auto simp: tag_texts_def)
    qed
    then show ?thesis unfolding list_all_iff by blast
  qed
  then have "list_all text_ok (loopOrd env s2 0 (gkeys old'))"
    using assms(3) range_order_set [of "mapOrd env"] by (simp add: env_ok_def list_all_iff loopOrd_def)
  from runs_delete_total [OF assms(1) 2(2) assms(6,7) this] show ?thesis
    using 1 2(1) unfolding runs_setTags_iff by blast
qed

subsection \<open>Storing and deleting\<close>

lemma runs_storeImage:
  assumes "runs (storeImage env ptx r im) s u s'"
  shows "tagMap tb (work s') = tagMap tb (work s)"
  using assms unfolding storeImage_def Let_def
  by (cases tb) (auto simp: runs_tryM sticky_ret runs_exec runs_runStmt insertImage_def tagMap_def
      split: if_splits option.splits)

lemma runs_storeListImages:
  "runs (storeListImages env ptx r l ims) s u s' \<Longrightarrow> tagMap tb (work s') = tagMap tb (work s)"
proof (induction ims arbitrary: s)
  case (Cons im ims)
  then obtain s1 n s2 where 1: "runs (storeImage env ptx r im) s () s1"
    and 2: "runs (runStmt env (insertListEntry l (Digest im))) s1 n s2"
    and 3: "runs (storeListImages env ptx r l ims) s2 u s'"
    by (auto simp: runs_tryM sticky_tryM sticky_exec sticky_storeListImages runs_exec)
  have "tagMap tb (work s2) = tagMap tb (work s1)"
    using 2 by (cases tb) (auto simp: runs_runStmt insertListEntry_def tagMap_def split: if_splits)
  then show ?case using Cons.IH [OF 3] runs_storeImage [OF 1] by simp
qed simp

lemma runs_storeImageList:
  assumes "runs (storeImageList env ptx r l) s u s'"
  shows "tagMap tb (work s') = tagMap tb (work s)"
proof -
  have st: "sticky (if n = 0 then ret () else storeListImages env ptx r (listDigest l) (listImages l))" for n :: nat
    by (simp add: tx_sticky)
  from assms obtain n s1 where
    1: "runs (runStmt env (insertList (listDigest l) (listMediaType l) (marshalMap (listAnnotations l)))) s n s1"
    and 2: "runs (if n = 0 then ret () else storeListImages env ptx r (listDigest l) (listImages l)) s1 u s'"
    unfolding storeImageList_def Let_def runs_tryM [OF st] runs_exec by blast
  have "tagMap tb (work s1) = tagMap tb (work s)"
    using 1 by (cases tb) (auto simp: runs_runStmt insertList_def tagMap_def split: if_splits option.splits)
  then show ?thesis using 2 runs_storeListImages [of env ptx r "listDigest l" "listImages l" s1 u s' tb]
    by (auto split: if_splits)
qed

lemma runs_deleteTarget:
  assumes "tagTable name = Some tb" "tables_wf (work s)"
    and "runs (exec env ptx (deleteTarget name col r d)) s n s'"
  shows "only_tags tb (work s) (work s') \<and> tagMap tb (work s') = without r d (tagMap tb (work s))"
proof -
  let ?keep = "\<lambda>x. \<not> (case x of ((r', g'), d') \<Rightarrow> r' = r \<and> d' = d)"
  have w: "work s' = setTagRows tb (filter ?keep (tagRows tb (work s))) (work s)"
    using assms(1,3)
    by (auto simp: runs_exec runs_runStmt deleteTarget_def deleteTagRows_def deleteRows_def onTagTable_Inr
        case_prod_unfold)
  then have "tagMap tb (work s') k = (case tagMap tb (work s) k of None \<Rightarrow> None
      | Some v \<Rightarrow> if ?keep (k, v) then Some v else None)" for k
    using map_of_filter_keyed [OF tables_wf_distinct [OF assms(2), of tb], of ?keep] by (simp add: tagMap_def)
  then have "tagMap tb (work s') = without r d (tagMap tb (work s))"
    by (auto simp: without_def fun_eq_iff split: option.splits)
  then show ?thesis using w by (auto simp: only_tags_def)
qed

lemma tagTable_ImageTag: "tagTable ''ImageTag'' = Some TagImage"
  by code_simp

lemma tagTable_listTag: "tagTable ''listTag'' = Some TagList"
  by code_simp

lemma runs_Delete:
  assumes "tables_wf (work s)"
  shows "runs (DeleteImage env ptx r d) s u s' \<Longrightarrow> only_tags TagImage (work s) (work s') \<and>
      tagMap TagImage (work s') = without r d (tagMap TagImage (work s))"
    and "runs (DeleteImageList env ptx r d) s u s' \<Longrightarrow> only_tags TagList (work s) (work s') \<and>
      tagMap TagList (work s') = without r d (tagMap TagList (work s))"
  using runs_deleteTarget [OF tagTable_ImageTag assms] runs_deleteTarget [OF tagTable_listTag assms]
  unfolding DeleteImage_def DeleteImageList_def by (auto simp: runs_tryM sticky_ret)

lemma only_tags_other:
  "only_tags TagImage t t' \<Longrightarrow> tagMap TagList t' = tagMap TagList t"
  "only_tags TagList t t' \<Longrightarrow> tagMap TagImage t' = tagMap TagImage t"
  by (auto simp: only_tags_def tagMap_def)

lemma runs_StoreImage:
  assumes "tables_wf (work s)" "env_ok env" "runs (StoreImage env ptx r im) s u s'"
  shows "tagMap TagImage (work s') = withSet r (Digest im) (Tags im) (tagMap TagImage (work s)) \<and>
    tagMap TagList (work s') = tagMap TagList (work s)"
proof -
  from assms(3) obtain s1 where 1: "runs (storeImage env ptx r (untag im)) s () s1"
    and 2: "runs (SetImageTags env ptx r (Digest im) (Tags im)) s1 u s'"
    unfolding StoreImage_def runs_tryM [OF sticky_Set(1)] by auto
  have "tables_wf (work s1)" using runs_keeps [OF schema.keeps_storeImage 1 assms(1)] .
  from runs_SetTags(1) [OF this assms(2) 2] show ?thesis
    using runs_storeImage [OF 1] only_tags_other(1) [of "work s1" "work s'"] by simp
qed

lemma runs_StoreImageList:
  assumes "tables_wf (work s)" "env_ok env" "runs (StoreImageList env ptx r l) s u s'"
  shows "tagMap TagList (work s') = withSet r (listDigest l) (listTags l) (tagMap TagList (work s)) \<and>
    tagMap TagImage (work s') = tagMap TagImage (work s)"
proof -
  from assms(3) obtain s1 where 1: "runs (storeImageList env ptx r (untagList l)) s () s1"
    and 2: "runs (SetImageListTags env ptx r (listDigest l) (listTags l)) s1 u s'"
    unfolding StoreImageList_def runs_tryM [OF sticky_Set(2)] by auto
  have "tables_wf (work s1)" using runs_keeps [OF schema.keeps_storeImageList 1 assms(1)] .
  from runs_SetTags(2) [OF this assms(2) 2] show ?thesis
    using runs_storeImageList [OF 1] only_tags_other(2) [of "work s1" "work s'"] by simp
qed

subsection \<open>The contract of a tag store\<close>

text \<open>What the update of a repository relies on, for images as for lists: the operations set the tags of
  one digest in one repository, store something new with its tags, or delete a digest from a repository;
  they leave the other table's tags alone and never repair a failed transaction.\<close>

locale tag_store =
  fixes tags others :: "tables \<Rightarrow> tag_map"
    and setT :: "env \<Rightarrow> postgresTransaction \<Rightarrow> string \<Rightarrow> string \<Rightarrow> string list \<Rightarrow> (sqlTx, unit) op"
    and storeT :: "env \<Rightarrow> postgresTransaction \<Rightarrow> string \<Rightarrow> 'a \<Rightarrow> (sqlTx, unit) op"
    and deleteT :: "env \<Rightarrow> postgresTransaction \<Rightarrow> string \<Rightarrow> string \<Rightarrow> (sqlTx, unit) op"
    and digestOf :: "'a \<Rightarrow> string"
    and tagsOf :: "'a \<Rightarrow> string list"
  assumes set_sticky: "sticky (setT env ptx r d ts)"
    and store_sticky: "sticky (storeT env ptx r x)"
    and delete_sticky: "sticky (deleteT env ptx r d)"
    and delete_error: "deleteT env ptx r d s = (Inl e, s') \<Longrightarrow> \<not> txDone s \<Longrightarrow> failed s'"
    and set_wf: "keeps tables_wf (setT env ptx r d ts)"
    and store_wf: "keeps tables_wf (storeT env ptx r x)"
    and delete_wf: "keeps tables_wf (deleteT env ptx r d)"
    and set_law: "tables_wf (work s) \<Longrightarrow> env_ok env \<Longrightarrow> runs (setT env ptx r d ts) s u s' \<Longrightarrow>
      tags (work s') = withSet r d ts (tags (work s)) \<and> others (work s') = others (work s)"
    and store_law: "tables_wf (work s) \<Longrightarrow> env_ok env \<Longrightarrow> runs (storeT env ptx r x) s u s' \<Longrightarrow>
      tags (work s') = withSet r (digestOf x) (tagsOf x) (tags (work s)) \<and> others (work s') = others (work s)"
    and delete_law: "tables_wf (work s) \<Longrightarrow> runs (deleteT env ptx r d) s u s' \<Longrightarrow>
      tags (work s') = without r d (tags (work s)) \<and> others (work s') = others (work s)"

lemma Delete_error:
  "DeleteImage env ptx r d s = (Inl e, s') \<Longrightarrow> \<not> txDone s \<Longrightarrow> failed s'"
  "DeleteImageList env ptx r d s = (Inl e, s') \<Longrightarrow> \<not> txDone s \<Longrightarrow> failed s'"
  by (auto simp: DeleteImage_def DeleteImageList_def tryM_def exec_def runStmt_def ret_def Let_def
      split: sum.splits prod.splits if_splits)

interpretation image_store: tag_store "tagMap TagImage" "tagMap TagList" SetImageTags StoreImage DeleteImage Digest Tags
  using runs_SetTags(1) runs_Delete(1) runs_StoreImage only_tags_other(1) Delete_error(1)
  by unfold_locales (simp_all add: tx_sticky schema.keeps_Set schema.keeps_Store)

interpretation list_store: tag_store "tagMap TagList" "tagMap TagImage" SetImageListTags StoreImageList DeleteImageList
    listDigest listTags
  using runs_SetTags(2) runs_Delete(2) runs_StoreImageList only_tags_other(2) Delete_error(2)
  by unfold_locales (simp_all add: tx_sticky schema.keeps_Set schema.keeps_Store)

subsection \<open>Properties of the tag operations\<close>

text \<open>
  C24. Setting the tags of an image works and has exactly the promised effect: without faults, for a stored
  image and valid texts, \<^verbatim>\<open>SetImageTags\<close> succeeds; afterwards exactly the given tags of the repository
  name the image, a tag that named another image has moved, and the tags of every other repository and
  the list tags are unchanged, although the old tags are looked up without regard to the repository.
\<close>

theorem SetImageTags_correct:
  assumes "ready env s" "env_ok env" "tables_wf (work s)" "tag_texts TagImage (work s)"
    and "gget (imageT (work s)) d \<noteq> None" "text_ok r" "text_ok d" "list_all text_ok ts"
  shows "\<exists>s'. SetImageTags env ptx r d ts s = (Inr (), s') \<and> \<not> failed s' \<and>
    listTagT (work s') = listTagT (work s) \<and>
    (\<forall>r' g. map_of (imageTagT (work s')) (r', g) =
      (if r' = r \<and> g \<in> set ts then Some d
       else if r' = r \<and> map_of (imageTagT (work s)) (r', g) = Some d then None
       else map_of (imageTagT (work s)) (r', g)))"
proof -
  have "targetExists TagImage (work s) d" using assms(5) by simp
  from runs_setTags_total [OF names_image assms(1,2) this assms(4,6-8), of ptx]
  obtain s' where s': "runs (SetImageTags env ptx r d ts) s () s'" unfolding SetImageTags_def by blast
  from runs_SetTags(1) [OF assms(3,2) this] show ?thesis
    using s' by (intro exI [of _ s']) (auto simp: runs_def only_tags_def tagMap_def withSet_def)
qed

definition oneImage :: tables where
  "oneImage = emptyTables\<lparr>imageT := [(''d1'', zeroImage\<lparr>Digest := ''d1''\<rparr>)],
     imageTagT := [((''app'', ''v1''), ''d1''), ((''lib'', ''v1''), ''d1'')]\<rparr>"

lemma oneImage_wf: "tables_wf oneImage"
  by (simp add: oneImage_def emptyTables_def tables_wf_def images_wf_def lists_wf_def tags_wf_def image_wf_def zeroImage_def)

lemma oneImage_texts: "tag_texts TagImage oneImage"
  by code_simp

lemma newTx_ready: "ready okEnv (newTx t)"
  by (simp add: ready_def newTx_def okEnv_ok)

theorem SetImageTags_correct_witness:
  "\<exists>s'. SetImageTags okEnv \<lparr>modify = False, modificationTime = 0\<rparr> ''app'' ''d1'' [''v2''] (newTx oneImage) = (Inr (), s') \<and>
     map_of (imageTagT (work s')) (''app'', ''v2'') = Some ''d1'' \<and>
     map_of (imageTagT (work s')) (''app'', ''v1'') = None \<and>
     map_of (imageTagT (work s')) (''lib'', ''v1'') = Some ''d1''"
proof -
  have w: "work (newTx oneImage) = oneImage" by (simp add: newTx_def)
  have "gget (imageT oneImage) ''d1'' \<noteq> None" by code_simp
  moreover have "text_ok ''app''" by code_simp
  moreover have "text_ok ''d1''" by code_simp
  moreover have "list_all text_ok [''v2'']" by code_simp
  ultimately obtain s' where s': "SetImageTags okEnv \<lparr>modify = False, modificationTime = 0\<rparr> ''app'' ''d1'' [''v2''] (newTx oneImage) = (Inr (), s')"
      "\<forall>r' g. map_of (imageTagT (work s')) (r', g) =
      (if r' = ''app'' \<and> g \<in> set [''v2''] then Some ''d1''
       else if r' = ''app'' \<and> map_of (imageTagT oneImage) (r', g) = Some ''d1'' then None
       else map_of (imageTagT oneImage) (r', g))"
    using SetImageTags_correct [of okEnv "newTx oneImage" "''d1''" "''app''" "[''v2'']"] newTx_ready [of oneImage]
      okEnv_ok oneImage_wf oneImage_texts unfolding w by blast
  show ?thesis by (intro exI [of _ s'] conjI, rule s'(1)) (simp_all add: s'(2) oneImage_def)
qed

subsection \<open>Repositories that have gone\<close>

lemma tagTable_twice: "tagTable (''imageTag'' @ ''Tag'') = None"
  by code_simp

lemma tagTable_twice_list: "tagTable (''listTag'' @ ''Tag'') = None"
  by code_simp

lemma tagTable_imageTag: "tagTable ''imageTag'' = Some TagImage"
  by code_simp

lemma deleteRepos_unknown:
  "tagTable (table @ ''Tag'') = None \<Longrightarrow> keeps (\<lambda>t. t = t0) (deleteRepos env ptx table rs)"
  by (cases rs) (auto intro!: tx_keeps simp: keeps_def tryM_def exec_def runStmt_def deleteRepo_def Let_def ret_def)

lemma deleteRepos_fails:
  "tagTable (table @ ''Tag'') = None \<Longrightarrow> ready env s \<Longrightarrow> rs \<noteq> [] \<Longrightarrow>
   \<exists>s'. deleteRepos env ptx table rs s = (Inl (UndefinedTable (table @ ''Tag'')), s')"
  by (cases rs) (auto simp: tryM_def exec_def runStmt_def deleteRepo_def Let_def ready_def no_faults_def)

lemma keeps_deleteMissing: "keeps (\<lambda>t. t = t0) (DeleteMissingRepos env ptx all)"
  unfolding DeleteMissingRepos_def deleteMissingReposFromTable_def
  by (intro tx_keeps deleteRepos_unknown tagTable_twice tagTable_twice_list)

text \<open>The repositories of a tag table that the registry does not have.\<close>

definition missingRepos :: "tag_table \<Rightarrow> bool gomap \<Rightarrow> tables \<Rightarrow> string set" where
  "missingRepos tb allRepos t = {r. r \<in> (\<lambda>((r, g), d). r) ` set (tagRows tb t) \<and> \<not> gget0 False allRepos r}"

lemma deleteMissing_table:
  assumes "ready env s" "env_ok env" "tagTable table = Some tb" "tagTable (table @ ''Tag'') = None"
  shows "missingRepos tb allRepos (work s) = {} \<Longrightarrow>
      deleteMissingReposFromTable env ptx table allRepos s = (Inr (), s\<lparr>stmts := Suc (stmts s)\<rparr>)"
    "missingRepos tb allRepos (work s) \<noteq> {} \<Longrightarrow>
      \<exists>s'. deleteMissingReposFromTable env ptx table allRepos s = (Inl (UndefinedTable (table @ ''Tag'')), s')"
proof -
  let ?rs = "shuffle (rowPerm env (stmts s)) '''' (remdups (map (\<lambda>((r, g), d). r) (tagRows tb (work s))))"
  let ?s1 = "s\<lparr>stmts := Suc (stmts s)\<rparr>"
  have rows: "set ?rs = (\<lambda>((r, g), d). r) ` set (tagRows tb (work s))" using assms(2) by (simp add: env_ok_def shuffle_set)
  have r1: "ready env ?s1" using assms(1) by (simp add: ready_def)
  have eq: "deleteMissingReposFromTable env ptx table allRepos s =
      deleteRepos env ptx table (filter (\<lambda>repo. \<not> gget0 False allRepos repo) ?rs) ?s1"
    using assms(1,3) by (simp add: deleteMissingReposFromTable_def tryM_def runQuery_def Let_def selectRepos_def ready_def no_faults_def)
  have none: "filter (\<lambda>repo. \<not> gget0 False allRepos repo) ?rs = [] \<longleftrightarrow> missingRepos tb allRepos (work s) = {}"
    unfolding filter_empty_conv rows missingRepos_def by blast
  show "deleteMissingReposFromTable env ptx table allRepos s = (Inr (), ?s1)" if "missingRepos tb allRepos (work s) = {}"
    using that none unfolding eq by (simp add: ret_def)
  show "\<exists>s'. deleteMissingReposFromTable env ptx table allRepos s = (Inl (UndefinedTable (table @ ''Tag'')), s')"
    if "missingRepos tb allRepos (work s) \<noteq> {}"
    using that none unfolding eq by (intro deleteRepos_fails [OF assms(4) r1]) simp
qed

text \<open>
  \<^verbatim>\<open>DeleteMissingRepos\<close> never deletes anything, since it names the tables \<^verbatim>\<open>imageTagTag\<close> and
  \<^verbatim>\<open>listTagTag\<close>: it succeeds when nothing is missing and fails otherwise.
\<close>

lemma DeleteMissingRepos_none:
  assumes "ready env s" "env_ok env" "missingRepos TagImage allRepos (work s) = {}" "missingRepos TagList allRepos (work s) = {}"
  shows "DeleteMissingRepos env ptx allRepos s = (Inr (), s\<lparr>stmts := Suc (Suc (stmts s))\<rparr>)"
proof -
  have "ready env (s\<lparr>stmts := Suc (stmts s)\<rparr>)" using assms(1) by (simp add: ready_def)
  then show ?thesis
    using deleteMissing_table(1) [OF assms(1,2) tagTable_imageTag tagTable_twice assms(3), of ptx]
      deleteMissing_table(1) [OF _ assms(2) tagTable_listTag tagTable_twice_list, of "s\<lparr>stmts := Suc (stmts s)\<rparr>" allRepos ptx]
      assms(4) by (simp add: DeleteMissingRepos_def tryM_def ret_def)
qed

lemma DeleteMissingRepos_fails:
  assumes "ready env s" "env_ok env" "missingRepos TagImage allRepos (work s) \<noteq> {} \<or> missingRepos TagList allRepos (work s) \<noteq> {}"
  shows "\<exists>e s'. DeleteMissingRepos env ptx allRepos s = (Inl e, s') \<and>
    e \<in> {UndefinedTable ''imageTagTag'', UndefinedTable ''listTagTag''}"
proof (cases "missingRepos TagImage allRepos (work s) = {}")
  case True
  let ?s1 = "s\<lparr>stmts := Suc (stmts s)\<rparr>"
  have "ready env ?s1" using assms(1) by (simp add: ready_def)
  then obtain s' where "deleteMissingReposFromTable env ptx ''listTag'' allRepos ?s1 = (Inl (UndefinedTable (''listTag'' @ ''Tag'')), s')"
    using deleteMissing_table(2) [OF _ assms(2) tagTable_listTag tagTable_twice_list, of ?s1 allRepos ptx] assms(3) True by auto
  then show ?thesis using deleteMissing_table(1) [OF assms(1,2) tagTable_imageTag tagTable_twice True, of ptx]
    by (simp add: DeleteMissingRepos_def tryM_def)
next
  case False
  then show ?thesis using deleteMissing_table(2) [OF assms(1,2) tagTable_imageTag tagTable_twice False, of ptx]
    by (auto simp: DeleteMissingRepos_def tryM_def)
qed

end
