(* ===== verification/ImageStore.thy ===== *)
theory ImageStore
  imports TagStore
begin

section \<open>Storing images and lists, and removing unused ones\<close>

text \<open>
  What is found in the tables after an image or a list was stored, and what the garbage collection of
  the database removes. An image that is read back equals the stored one up to the order of its maps.
\<close>

definition same_image :: "Image \<Rightarrow> Image \<Rightarrow> bool" where
  "same_image im im' \<longleftrightarrow> Digest im' = Digest im \<and> MediaType im' = MediaType im \<and> OS im' = OS im \<and>
     Architecture im' = Architecture im \<and> gget (Annotations im') = gget (Annotations im) \<and>
     gget (Labels im') = gget (Labels im)"

definition map_text_ok :: "string gomap \<Rightarrow> bool" where
  "map_text_ok m \<longleftrightarrow> (\<forall>k \<in> set (gkeys m). text_ok k \<and> text_ok (gget0 [] m k))"

definition image_text_ok :: "Image \<Rightarrow> bool" where
  "image_text_ok im \<longleftrightarrow> list_all text_ok [Digest im, MediaType im, Architecture im, OS im] \<and>
     map_text_ok (Annotations im) \<and> map_text_ok (Labels im)"

lemma jsonb_map:
  assumes "map_text_ok m"
  shows "\<exists>m'. jsonb_text (marshalMap m) = Some m' \<and> gget m' = gget m"
proof -
  have ks: "set (sort (gkeys m)) = set (gkeys m)" by (rule set_sort)
  have eq: "map (\<lambda>k. (normal k, normal (gget0 [] m k))) (sort (gkeys m)) =
      map (\<lambda>k. (k, gget0 [] m k)) (sort (gkeys m))"
    using assms unfolding map_text_ok_def text_ok_def by (intro map_cong refl) (auto simp: ks)
  have "jsonb_text (marshalMap m) = Some (lastWins (map (\<lambda>k. (k, gget0 [] m k)) (sort (gkeys m))))"
    using assms jsonb_marshalMap [of m] unfolding eq map_text_ok_def text_ok_def by blast
  moreover have "gget (lastWins (map (\<lambda>k. (k, gget0 [] m k)) (sort (gkeys m)))) k = gget m k" for k
    unfolding lastWins_keys ks gkeys_iff by (cases "gget m k") auto
  ultimately show ?thesis by blast
qed

text \<open>Inserting an image: what it adds, and what it leaves.\<close>

lemma insertImage_total:
  assumes "image_text_ok im"
  shows "\<exists>n ims. insertImage (Digest im) (MediaType im) (Architecture im) (OS im)
      (marshalMap (Annotations im)) (marshalMap (Labels im)) t = Inr (n, t\<lparr>imageT := ims\<rparr>) \<and>
    (\<forall>k v. gget (imageT t) k = Some v \<longrightarrow> gget ims k = Some v) \<and>
    (\<forall>k. k \<noteq> Digest im \<longrightarrow> gget ims k = gget (imageT t) k) \<and>
    (\<exists>im'. gget ims (Digest im) = Some im' \<and> (gget (imageT t) (Digest im) = None \<longrightarrow> same_image im im'))"
proof -
  obtain an lb where j: "jsonb_text (marshalMap (Annotations im)) = Some an" "gget an = gget (Annotations im)"
      "jsonb_text (marshalMap (Labels im)) = Some lb" "gget lb = gget (Labels im)"
    using jsonb_map assms unfolding image_text_ok_def by metis
  show ?thesis
  proof (cases "gget (imageT t) (Digest im)")
    case (Some v)
    then show ?thesis using assms j
      by (intro exI [of _ 0] exI [of _ "imageT t"]) (auto simp: insertImage_def image_text_ok_def)
  next
    case None
    let ?im = "\<lparr>Digest = Digest im, MediaType = MediaType im, OS = OS im,
      Architecture = Architecture im, Annotations = an, Labels = lb\<rparr>"
    show ?thesis using assms j None
      by (intro exI [of _ 1] exI [of _ "imageT t @ [(Digest im, ?im)]"])
        (auto simp: insertImage_def image_text_ok_def same_image_def map_add_def split: option.splits)
  qed
qed

lemma runs_storeImage_total:
  assumes "ready env s" "image_text_ok im"
  shows "\<exists>s' ims. runs (storeImage env ptx r im) s () s' \<and> ready env s' \<and> work s' = (work s)\<lparr>imageT := ims\<rparr> \<and>
    (\<forall>k v. gget (imageT (work s)) k = Some v \<longrightarrow> gget ims k = Some v) \<and>
    (\<forall>k. k \<noteq> Digest im \<longrightarrow> gget ims k = gget (imageT (work s)) k) \<and>
    (\<exists>im'. gget ims (Digest im) = Some im' \<and> (gget (imageT (work s)) (Digest im) = None \<longrightarrow> same_image im im'))"
proof -
  obtain n ims where i: "insertImage (Digest im) (MediaType im) (Architecture im) (OS im)
      (marshalMap (Annotations im)) (marshalMap (Labels im)) (work s) = Inr (n, (work s)\<lparr>imageT := ims\<rparr>)"
    and rest: "\<forall>k v. gget (imageT (work s)) k = Some v \<longrightarrow> gget ims k = Some v"
      "\<forall>k. k \<noteq> Digest im \<longrightarrow> gget ims k = gget (imageT (work s)) k"
      "\<exists>im'. gget ims (Digest im) = Some im' \<and> (gget (imageT (work s)) (Digest im) = None \<longrightarrow> same_image im im')"
    using insertImage_total [OF assms(2), of "work s"] by (elim exE conjE) (rule that, auto)
  let ?s' = "s\<lparr>work := (work s)\<lparr>imageT := ims\<rparr>, stmts := Suc (stmts s)\<rparr>"
  have "runs (storeImage env ptx r im) s () ?s'" "ready env ?s'"
    using assms(1) i by (auto simp: storeImage_def Let_def runs_tryM sticky_ret runs_exec runs_runStmt ready_def no_faults_def)
  then show ?thesis using rest by (intro exI [of _ ?s'] exI [of _ ims]) simp
qed

text \<open>
  C22. What is stored is found again: without faults and for valid texts, \<^verbatim>\<open>StoreImage\<close> succeeds; the table
  then has the image under its digest, a new image with its media type, platform, annotations and labels,
  and exactly its tags of the repository name it.
\<close>

theorem StoreImage_correct:
  assumes "ready env s" "env_ok env" "tables_wf (work s)" "tag_texts TagImage (work s)"
    and "image_text_ok (untag im)" "text_ok r" "list_all text_ok (Tags im)"
  shows "\<exists>s' im'. StoreImage env ptx r im s = (Inr (), s') \<and> \<not> failed s' \<and>
    gget (imageT (work s')) (Digest im) = Some im' \<and>
    (gget (imageT (work s)) (Digest im) = None \<longrightarrow> same_image (untag im) im') \<and>
    (\<forall>g. map_of (imageTagT (work s')) (r, g) = Some (Digest im) \<longleftrightarrow> g \<in> set (Tags im)) \<and>
    (\<forall>r' g. r' \<noteq> r \<longrightarrow> map_of (imageTagT (work s')) (r', g) = map_of (imageTagT (work s)) (r', g))"
proof -
  have dig: "Digest (untag im) = Digest im" by (simp add: untag_def)
  from runs_storeImage_total [OF assms(1,5), of ptx r] obtain s1 ims im' where
    1: "runs (storeImage env ptx r (untag im)) s () s1" "ready env s1" "work s1 = (work s)\<lparr>imageT := ims\<rparr>"
      "gget ims (Digest im) = Some im'" "gget (imageT (work s)) (Digest im) = None \<longrightarrow> same_image (untag im) im'"
    unfolding dig by (elim exE conjE) (rule that)
  have wf: "tables_wf (work s1)" using runs_keeps [OF schema.keeps_storeImage 1(1) assms(3)] .
  have "targetExists TagImage (work s1) (Digest im)" "tag_texts TagImage (work s1)"
    using 1(3,4) assms(4) by (simp_all add: tag_texts_def)
  moreover have "text_ok (Digest im)" using assms(5) by (simp add: image_text_ok_def dig)
  ultimately obtain s' where 2: "runs (SetImageTags env ptx r (Digest im) (Tags im)) s1 () s'"
    using runs_setTags_total [OF names_image 1(2) assms(2) _ _ assms(6) _ assms(7), of "Digest im" ptx]
    unfolding SetImageTags_def by meson
  note eff = runs_SetTags(1) [OF wf assms(2) 2]
  have run: "runs (StoreImage env ptx r im) s () s'"
    using 1(1) 2 unfolding StoreImage_def runs_tryM [OF sticky_Set(1)] by blast
  have "imageT (work s') = ims" using eff 1(3) by (auto simp: only_tags_def)
  then show ?thesis using run eff 1(3,4,5)
    by (intro exI [of _ s'] exI [of _ im']) (auto simp: runs_def tagMap_def withSet_def)
qed

definition sampleImage :: TaggedImage where
  "sampleImage = withTags \<lparr>Digest = ''d2'', MediaType = ''m'', OS = ''linux'', Architecture = ''amd64'',
     Annotations = [(''k'', ''v'')], Labels = []\<rparr> [''v1'', ''latest'']"

theorem StoreImage_correct_witness:
  "\<exists>s' im'. StoreImage okEnv \<lparr>modify = False, modificationTime = 0\<rparr> ''app'' sampleImage (newTx oneImage) = (Inr (), s') \<and>
     gget (imageT (work s')) ''d2'' = Some im' \<and> OS im' = ''linux'' \<and> gget (Annotations im') ''k'' = Some ''v'' \<and>
     map_of (imageTagT (work s')) (''app'', ''v1'') = Some ''d2''"
proof -
  have w: "work (newTx oneImage) = oneImage" by (simp add: newTx_def)
  have a: "image_text_ok (untag sampleImage)" by code_simp
  have b: "text_ok ''app''" by code_simp
  have c: "list_all text_ok (Tags sampleImage)" by code_simp
  have d: "tables_wf (work (newTx oneImage))" "tag_texts TagImage (work (newTx oneImage))"
    by (simp_all add: w oneImage_wf oneImage_texts)
  from StoreImage_correct [OF newTx_ready okEnv_ok(1) d a b c, of "\<lparr>modify = False, modificationTime = 0\<rparr>"]
  obtain s' im' where s': "StoreImage okEnv \<lparr>modify = False, modificationTime = 0\<rparr> ''app'' sampleImage (newTx oneImage) = (Inr (), s')"
      "gget (imageT (work s')) (Digest sampleImage) = Some im'"
      "gget (imageT oneImage) (Digest sampleImage) = None \<longrightarrow> same_image (untag sampleImage) im'"
      "\<forall>g. map_of (imageTagT (work s')) (''app'', g) = Some (Digest sampleImage) \<longleftrightarrow> g \<in> set (Tags sampleImage)"
    unfolding w by (elim exE conjE) (rule that)
  have "gget (imageT oneImage) (Digest sampleImage) = None" by code_simp
  moreover have "Digest sampleImage = ''d2''" "''v1'' \<in> set (Tags sampleImage)" by (simp_all add: sampleImage_def)
  ultimately show ?thesis using s'
    by (intro exI [of _ s'] exI [of _ im']) (auto simp: same_image_def untag_def sampleImage_def withTags_def)
qed

subsection \<open>Lists\<close>

lemma insertListEntry_total:
  assumes "text_ok l" "text_ok d" "gget (listT t) l \<noteq> None" "gget (imageT t) d \<noteq> None"
  shows "\<exists>n es. insertListEntry l d t = Inr (n, t\<lparr>listEntryT := es\<rparr>) \<and> set es = insert (l, d) (set (listEntryT t))"
proof (cases "(l, d) \<in> set (listEntryT t)")
  case True
  then show ?thesis using assms
    by (intro exI [of _ 0] exI [of _ "listEntryT t"]) (auto simp: insertListEntry_def)
next
  case False
  then show ?thesis using assms
    by (intro exI [of _ 1] exI [of _ "listEntryT t @ [(l, d)]"]) (auto simp: insertListEntry_def)
qed

lemma runs_storeListImages_total:
  assumes "ready env s" "text_ok l" "gget (listT (work s)) l \<noteq> None" "list_all image_text_ok imgs"
  shows "\<exists>s' ims es. runs (storeListImages env ptx r l imgs) s () s' \<and> ready env s' \<and>
    work s' = (work s)\<lparr>imageT := ims, listEntryT := es\<rparr> \<and>
    (\<forall>k. gget (imageT (work s)) k \<noteq> None \<longrightarrow> gget ims k \<noteq> None) \<and>
    set es = set (listEntryT (work s)) \<union> {l} \<times> (Digest ` set imgs) \<and>
    (\<forall>im \<in> set imgs. gget ims (Digest im) \<noteq> None)"
  using assms(1,3,4)
proof (induction imgs arbitrary: s)
  case Nil
  then show ?case
    by (intro exI [of _ s] exI [of _ "imageT (work s)"] exI [of _ "listEntryT (work s)"]) (auto simp: ready_def)
next
  case (Cons im imgs)
  have im: "image_text_ok im" "list_all image_text_ok imgs" using Cons.prems by simp_all
  from runs_storeImage_total [OF Cons.prems(1) im(1), of ptx r] obtain s1 ims1 im' where
    1: "runs (storeImage env ptx r im) s () s1" "ready env s1" "work s1 = (work s)\<lparr>imageT := ims1\<rparr>"
      "\<forall>k v. gget (imageT (work s)) k = Some v \<longrightarrow> gget ims1 k = Some v" "gget ims1 (Digest im) = Some im'"
    by (elim exE conjE) (rule that)
  have e: "gget (listT (work s1)) l \<noteq> None" "gget (imageT (work s1)) (Digest im) \<noteq> None" "text_ok (Digest im)"
    using 1(3,5) Cons.prems(2) im(1) by (simp_all add: image_text_ok_def)
  from insertListEntry_total [OF assms(2) e(3) e(1,2)] obtain n es1 where
    2: "insertListEntry l (Digest im) (work s1) = Inr (n, (work s1)\<lparr>listEntryT := es1\<rparr>)"
      "set es1 = insert (l, Digest im) (set (listEntryT (work s1)))" by blast
  from runs_stmt_total [where f = "insertListEntry l (Digest im)", OF 1(2) 2(1)] obtain s2 where
    3: "runs (runStmt env (insertListEntry l (Digest im))) s1 n s2" "work s2 = (work s1)\<lparr>listEntryT := es1\<rparr>" "ready env s2"
    by blast
  have "gget (listT (work s2)) l \<noteq> None" using e(1) 3(2) by simp
  from Cons.IH [OF 3(3) this im(2)] obtain s' ims es where
    4: "runs (storeListImages env ptx r l imgs) s2 () s'" "ready env s'"
      "work s' = (work s2)\<lparr>imageT := ims, listEntryT := es\<rparr>"
      "\<forall>k. gget (imageT (work s2)) k \<noteq> None \<longrightarrow> gget ims k \<noteq> None"
      "set es = set (listEntryT (work s2)) \<union> {l} \<times> (Digest ` set imgs)"
      "\<forall>im \<in> set imgs. gget ims (Digest im) \<noteq> None"
    by (elim exE conjE) (rule that)
  have "runs (storeListImages env ptx r l (im # imgs)) s () s'"
    unfolding storeListImages.simps runs_tryM [OF sticky_tryM [OF sticky_exec sticky_storeListImages]]
      runs_tryM [OF sticky_storeListImages] runs_exec
    using 1(1) 3(1) 4(1) by blast
  moreover have "set es = set (listEntryT (work s)) \<union> {l} \<times> (Digest ` set (im # imgs))"
    unfolding 4(5) 3(2) using 2(2) 1(3) by auto
  moreover have "gget ims (Digest im) \<noteq> None"
    using 4(4) [rule_format, of "Digest im"] 1(3,5) 3(2) by simp
  moreover have "gget ims k \<noteq> None" if old: "gget (imageT (work s)) k \<noteq> None" for k
  proof -
    obtain v where "gget (imageT (work s)) k = Some v" using old by blast
    then have "gget ims1 k = Some v" using 1(4) by blast
    then show ?thesis using 4(4) [rule_format, of k] 1(3) 3(2) by simp
  qed
  ultimately show ?case using 4(2,3,6) 3(2) 1(3)
    by (intro exI [of _ s'] exI [of _ ims] exI [of _ es]) simp
qed

text \<open>
  C23. Storing a list works: without faults and for valid texts, \<^verbatim>\<open>StoreImageList\<close> of a list the database
  does not know succeeds; its entries are then exactly the digests of its images, every one of which is in
  the image table, and exactly its tags of the repository name it.
\<close>

theorem StoreImageList_correct:
  assumes "ready env s" "env_ok env" "tables_wf (work s)" "tag_texts TagList (work s)"
    and "text_ok (listDigest l)" "text_ok (listMediaType l)" "map_text_ok (listAnnotations l)"
    and "list_all image_text_ok (listImages l)" "text_ok r" "list_all text_ok (listTags l)"
    and "gget (listT (work s)) (listDigest l) = None"
  shows "\<exists>s'. StoreImageList env ptx r l s = (Inr (), s') \<and> \<not> failed s' \<and>
    (\<forall>d. (listDigest l, d) \<in> set (listEntryT (work s')) \<longleftrightarrow> d \<in> Digest ` set (listImages l)) \<and>
    (\<forall>d \<in> Digest ` set (listImages l). gget (imageT (work s')) d \<noteq> None) \<and>
    (\<forall>g. map_of (listTagT (work s')) (r, g) = Some (listDigest l) \<longleftrightarrow> g \<in> set (listTags l))"
proof -
  have u: "listDigest (untagList l) = listDigest l" "listMediaType (untagList l) = listMediaType l"
    "listAnnotations (untagList l) = listAnnotations l" "listImages (untagList l) = listImages l"
    by (simp_all add: untagList_def)
  obtain an where an: "jsonb_text (marshalMap (listAnnotations l)) = Some an" using jsonb_map [OF assms(7)] by blast
  let ?row = "\<lparr>listDigest = listDigest l, listMediaType = listMediaType l, listImages = [], listAnnotations = an\<rparr>"
  let ?t1 = "(work s)\<lparr>listT := listT (work s) @ [(listDigest l, ?row)]\<rparr>"
  let ?f = "insertList (listDigest l) (listMediaType l) (marshalMap (listAnnotations l))"
  have ins: "?f (work s) = Inr (1, ?t1)" using assms(5,6,11) an by (simp add: insertList_def)
  from runs_stmt_total [where f = ?f, OF assms(1) ins] obtain s1 where
    1: "runs (runStmt env ?f) s 1 s1" "work s1 = ?t1" "ready env s1" by blast
  have "gget (listT (work s1)) (listDigest l) \<noteq> None"
    using assms(11) 1(2) by (simp add: map_add_def)
  from runs_storeListImages_total [OF 1(3) assms(5) this assms(8), of ptx r] obtain s2 ims es where
    2: "runs (storeListImages env ptx r (listDigest l) (listImages l)) s1 () s2" "ready env s2"
      "work s2 = (work s1)\<lparr>imageT := ims, listEntryT := es\<rparr>"
      "set es = set (listEntryT (work s1)) \<union> {listDigest l} \<times> (Digest ` set (listImages l))"
      "\<forall>im \<in> set (listImages l). gget ims (Digest im) \<noteq> None"
    by (elim exE conjE) (rule that)
  have st: "sticky (if n = 0 then ret () else storeListImages env ptx r (listDigest l) (listImages l))" for n :: nat
    by (simp add: tx_sticky)
  have 3: "runs (storeImageList env ptx r (untagList l)) s () s2"
    unfolding storeImageList_def Let_def u runs_tryM [OF st] runs_exec
    using 1(1) 2(1) by (intro exI [of _ 1] exI [of _ s1]) simp
  have wf: "tables_wf (work s2)" using runs_keeps [OF schema.keeps_storeImageList 3 assms(3)] .
  have t: "targetExists TagList (work s2) (listDigest l)" "tag_texts TagList (work s2)"
    using assms(4,11) by (simp_all add: 2(3) 1(2) tag_texts_def map_add_def)
  from runs_setTags_total [OF names_list 2(2) assms(2) t assms(9,5,10), of ptx] obtain s' where
    4: "runs (SetImageListTags env ptx r (listDigest l) (listTags l)) s2 () s'"
    unfolding SetImageListTags_def by blast
  have run: "runs (StoreImageList env ptx r l) s () s'"
    unfolding StoreImageList_def runs_tryM [OF sticky_Set(2)] using 3 4 by blast
  note eff = runs_SetTags(2) [OF wf assms(2) 4]
  have same: "listEntryT (work s') = es" "imageT (work s') = ims"
    using eff by (auto simp: only_tags_def 2(3))
  have "(listDigest l, d) \<notin> set (listEntryT (work s))" for d
    using assms(3,11) unfolding tables_wf_def by blast
  then have "(listDigest l, d) \<in> set es \<longleftrightarrow> d \<in> Digest ` set (listImages l)" for d
    unfolding 2(4) by (simp add: 1(2))
  then show ?thesis using run eff 2(5) same
    by (intro exI [of _ s']) (auto simp: runs_def tagMap_def withSet_def)
qed

definition sampleList :: TaggedImageList where
  "sampleList = listWithTags \<lparr>listDigest = ''l1'', listMediaType = ''m'', listImages = [untag sampleImage],
     listAnnotations = []\<rparr> [''v1'']"

theorem StoreImageList_correct_witness:
  "\<exists>s'. StoreImageList okEnv \<lparr>modify = False, modificationTime = 0\<rparr> ''app'' sampleList (newTx oneImage) = (Inr (), s') \<and>
     (''l1'', ''d2'') \<in> set (listEntryT (work s')) \<and> map_of (listTagT (work s')) (''app'', ''v1'') = Some ''l1''"
proof -
  have w: "work (newTx oneImage) = oneImage" by (simp add: newTx_def)
  have wf: "tables_wf (work (newTx oneImage))" by (simp add: w oneImage_wf)
  have a: "tag_texts TagList (work (newTx oneImage))" unfolding w by code_simp
  have b: "text_ok (listDigest sampleList)" by code_simp
  have c: "text_ok (listMediaType sampleList)" by code_simp
  have d: "map_text_ok (listAnnotations sampleList)" by code_simp
  have e: "list_all image_text_ok (listImages sampleList)" by code_simp
  have f: "text_ok ''app''" by code_simp
  have g: "list_all text_ok (listTags sampleList)" by code_simp
  have h: "gget (listT (work (newTx oneImage))) (listDigest sampleList) = None" unfolding w by code_simp
  from StoreImageList_correct [OF newTx_ready okEnv_ok(1) wf a b c d e f g h, of "\<lparr>modify = False, modificationTime = 0\<rparr>"]
  obtain s' where s': "StoreImageList okEnv \<lparr>modify = False, modificationTime = 0\<rparr> ''app'' sampleList (newTx oneImage) = (Inr (), s')"
      "\<forall>d. (listDigest sampleList, d) \<in> set (listEntryT (work s')) \<longleftrightarrow> d \<in> Digest ` set (listImages sampleList)"
      "\<forall>g. map_of (listTagT (work s')) (''app'', g) = Some (listDigest sampleList) \<longleftrightarrow> g \<in> set (listTags sampleList)"
    by (elim exE conjE) (rule that)
  have "listDigest sampleList = ''l1''" "''v1'' \<in> set (listTags sampleList)"
    "''d2'' \<in> Digest ` set (listImages sampleList)"
    by (simp_all add: sampleList_def sampleImage_def untag_def withTags_def)
  then show ?thesis using s' by (intro exI [of _ s']) metis
qed

subsection \<open>Removing what is unused\<close>

text \<open>Lookups after the two statements of \<^verbatim>\<open>DeleteUnused\<close>.\<close>

definition unusedGone :: "tables \<Rightarrow> tables \<Rightarrow> bool" where
  "unusedGone t t' \<longleftrightarrow> imageTagT t' = imageTagT t \<and> listTagT t' = listTagT t \<and>
     listEntryT t' = filter (\<lambda>x. fst x \<in> snd ` set (listTagT t)) (listEntryT t) \<and>
     (\<forall>l. gget (listT t') l = (if l \<in> snd ` set (listTagT t) then gget (listT t) l else None)) \<and>
     (\<forall>d. gget (imageT t') d =
       (if d \<in> snd ` set (imageTagT t) \<or> (\<exists>l \<in> snd ` set (listTagT t). (l, d) \<in> set (listEntryT t))
        then gget (imageT t) d else None))"

lemma unusedGone_statements:
  assumes "tables_wf t" "deleteUnusedLists t = Inr (n1, t1)" "deleteUnusedImages t1 = Inr (n2, t2)"
  shows "unusedGone t t2"
proof -
  note e1 = deleteUnusedLists_eq [OF assms(2)] and e2 = deleteUnusedImages_eq [OF assms(3)]
  have wl: "gomap_wf (listT t)" and wi: "gomap_wf (imageT t)"
    using assms(1) by (simp_all add: tables_wf_def images_wf_def lists_wf_def)
  have fk: "fst x \<in> fst ` set (listT t)" if "x \<in> set (listEntryT t)" for x
  proof -
    have "gget (listT t) (fst x) \<noteq> None" using assms(1) that by (cases x) (auto simp: tables_wf_def)
    then show ?thesis by (simp add: map_of_eq_None_iff)
  qed
  have entries: "listEntryT t2 = filter (\<lambda>x. fst x \<in> snd ` set (listTagT t)) (listEntryT t)"
    using fk by (auto simp: e2 e1 intro!: filter_cong)
  have lists: "gget (listT t2) l = (if l \<in> snd ` set (listTagT t) then gget (listT t) l else None)" for l
    using gget_filter [OF wl, of "\<lambda>k. k \<in> snd ` set (listTagT t)"] by (simp add: e2 e1)
  have used: "snd ` set (listEntryT t1) = {d. \<exists>l \<in> snd ` set (listTagT t). (l, d) \<in> set (listEntryT t)}"
    using fk by (force simp: e1)
  have "gget (imageT t2) d = (if d \<in> snd ` set (imageTagT t) \<or>
      (\<exists>l \<in> snd ` set (listTagT t). (l, d) \<in> set (listEntryT t)) then gget (imageT t) d else None)" for d
    using gget_filter [OF wi, of "\<lambda>k. k \<in> snd ` set (imageTagT t) \<union> snd ` set (listEntryT t1)"]
    by (simp add: e2 used) (simp add: e1)
  moreover have "imageTagT t2 = imageTagT t" "listTagT t2 = listTagT t" by (simp_all add: e2 e1)
  ultimately show ?thesis using entries lists by (simp add: unusedGone_def)
qed

lemma runs_DeleteUnused: "tables_wf (work s) \<Longrightarrow> runs (DeleteUnused env ptx) s u s' \<Longrightarrow> unusedGone (work s) (work s')"
  unfolding DeleteUnused_def
  by (subst (asm) runs_tryM, intro tx_sticky, subst (asm) runs_tryM, intro tx_sticky)
    (auto simp: runs_runStmt dest: unusedGone_statements)

lemma DeleteUnused_gone:
  assumes "ready env s" "tables_wf (work s)"
  shows "\<exists>s'. DeleteUnused env ptx s = (Inr (), s') \<and> \<not> failed s' \<and> unusedGone (work s) (work s')"
proof -
  obtain n1 t1 where 1: "deleteUnusedLists (work s) = Inr (n1, t1)"
    by (simp add: deleteUnusedLists_def Let_def deleteRows_def)
  obtain n2 t2 where 2: "deleteUnusedImages t1 = Inr (n2, t2)"
    by (simp add: deleteUnusedImages_def Let_def deleteRows_def)
  show ?thesis using assms(1) 1 2 unusedGone_statements [OF assms(2) 1 2]
    by (simp add: DeleteUnused_def tryM_def runStmt_def Let_def ret_def ready_def no_faults_def)
qed

lemma joinImages_gone:
  assumes "unusedGone t t'"
  shows "joinImages t' = joinImages t"
proof -
  have "gget (imageT t') d = gget (imageT t) d" if "((r, g), d) \<in> set (imageTagT t)" for r g d
    using assms that by (force simp: unusedGone_def)
  then show ?thesis using assms
    by (auto simp: joinImages_def unusedGone_def intro!: arg_cong [where f = concat] map_cong split: prod.splits)
qed

lemma concat_map_filter: "(\<And>x. x \<in> set xs \<Longrightarrow> \<not> Q x \<Longrightarrow> f x = []) \<Longrightarrow> concat (map f (filter Q xs)) = concat (map f xs)"
  by (induction xs) auto

lemma entryImages_gone:
  assumes "unusedGone t t'" "l \<in> snd ` set (listTagT t)"
  shows "entryImages t' l = entryImages t l"
proof -
  let ?f = "\<lambda>tt (l', d). if l' = l then (case gget (imageT tt) d of None \<Rightarrow> [] | Some im \<Rightarrow> [im]) else []"
  have es: "listEntryT t' = filter (\<lambda>x. fst x \<in> snd ` set (listTagT t)) (listEntryT t)"
    using assms by (simp add: unusedGone_def)
  have im: "gget (imageT t') d = gget (imageT t) d" if "(l, d) \<in> set (listEntryT t)" for d
    using assms that by (force simp: unusedGone_def)
  then have eq: "map (?f t') (listEntryT t') = map (?f t) (listEntryT t')"
    by (intro map_cong refl) (auto simp: es split: prod.splits)
  show ?thesis unfolding entryImages_def eq unfolding es using assms(2) by (intro concat_map_filter) force
qed

lemma joinLists_gone:
  assumes "unusedGone t t'"
  shows "joinLists t' = joinLists t"
proof -
  have "listTagT t' = listTagT t" using assms by (simp add: unusedGone_def)
  then show ?thesis unfolding joinLists_def
    using entryImages_gone [OF assms] by (intro arg_cong [where f = concat] map_cong) (force split: prod.splits)+
qed

lemma whereRows_subset: "whereRows like clause as row xs = Inr ys \<Longrightarrow> set ys \<subseteq> set xs"
  by (auto simp: whereRows_def split: if_splits)

lemma tables_wf_image: "tables_wf t \<Longrightarrow> gget (imageT t) d = Some im \<Longrightarrow> Digest im = d \<and> image_wf im"
  by (auto simp: tables_wf_def images_wf_def dest!: map_of_SomeD)

lemma joinImages_iff:
  "(r, g, im) \<in> set (joinImages t) \<longleftrightarrow> (\<exists>d. ((r, g), d) \<in> set (imageTagT t) \<and> gget (imageT t) d = Some im)"
  by (force simp: joinImages_def split: prod.splits option.splits)

lemma in_concat_map: "x \<in> set (concat (map f xs)) \<longleftrightarrow> (\<exists>y \<in> set xs. x \<in> set (f y))"
  by simp

lemma entryImages_iff:
  "im \<in> set (entryImages t l) \<longleftrightarrow> (\<exists>d. (l, d) \<in> set (listEntryT t) \<and> gget (imageT t) d = Some im)"
proof
  assume "im \<in> set (entryImages t l)"
  then obtain l' d where d: "(l', d) \<in> set (listEntryT t)"
      "im \<in> set (if l' = l then (case gget (imageT t) d of None \<Rightarrow> [] | Some im \<Rightarrow> [im]) else [])"
    unfolding entryImages_def in_concat_map by (elim bexE) (metis (no_types, lifting) case_prod_beta prod.collapse)
  then show "\<exists>d. (l, d) \<in> set (listEntryT t) \<and> gget (imageT t) d = Some im"
    by (cases "l' = l"; cases "gget (imageT t) d") auto
next
  assume "\<exists>d. (l, d) \<in> set (listEntryT t) \<and> gget (imageT t) d = Some im"
  then obtain d where d: "(l, d) \<in> set (listEntryT t)" "gget (imageT t) d = Some im" by blast
  show "im \<in> set (entryImages t l)"
    unfolding entryImages_def in_concat_map by (rule bexI [OF _ d(1)]) (simp add: d(2))
qed

lemma joinLists_iff:
  "(r, g, l, im) \<in> set (joinLists t) \<longleftrightarrow>
   ((r, g), l) \<in> set (listTagT t) \<and> (\<exists>d. (l, d) \<in> set (listEntryT t) \<and> gget (imageT t) d = Some im)"
proof
  assume "(r, g, l, im) \<in> set (joinLists t)"
  then show "((r, g), l) \<in> set (listTagT t) \<and> (\<exists>d. (l, d) \<in> set (listEntryT t) \<and> gget (imageT t) d = Some im)"
    unfolding entryImages_iff [symmetric] by (auto simp: joinLists_def)
next
  assume a: "((r, g), l) \<in> set (listTagT t) \<and> (\<exists>d. (l, d) \<in> set (listEntryT t) \<and> gget (imageT t) d = Some im)"
  show "(r, g, l, im) \<in> set (joinLists t)"
    unfolding joinLists_def in_concat_map
    by (rule bexI [of _ "((r, g), l)"]) (use a in \<open>simp_all add: image_iff entryImages_iff\<close>)
qed

lemma imageQuery_gone:
  assumes "unusedGone t t'" "tables_wf t"
  shows "imageQuery like col clause as p t' = imageQuery like col clause as p t"
proof (cases "whereRows like clause as imageRow (joinImages t)")
  case (Inl e)
  then show ?thesis by (simp add: imageQuery_def joinImages_gone [OF assms(1)])
next
  case (Inr rows)
  have "gget (imageT t') (Digest im) = gget (imageT t) (Digest im)" if m: "(r, g, im) \<in> set rows" for r g im
  proof -
    have "(r, g, im) \<in> set (joinImages t)" using whereRows_subset [OF Inr] m by blast
    then obtain d where d: "((r, g), d) \<in> set (imageTagT t)" "gget (imageT t) d = Some im"
      unfolding joinImages_iff by blast
    then have "Digest im = d" using tables_wf_image [OF assms(2)] by blast
    then show ?thesis using assms(1) d(1) by (force simp: unusedGone_def)
  qed
  moreover have "imageTagT t' = imageTagT t" using assms(1) by (simp add: unusedGone_def)
  ultimately have "map (\<lambda>(r, d). (r, map_option imageRowJson (gget (imageT t') d), aggTags p (imageTagT t') d))
      (remdups (map (\<lambda>(r, g, im). (r, Digest im)) rows)) =
    map (\<lambda>(r, d). (r, map_option imageRowJson (gget (imageT t) d), aggTags p (imageTagT t) d))
      (remdups (map (\<lambda>(r, g, im). (r, Digest im)) rows))"
    by (intro map_cong refl) auto
  then show ?thesis by (simp only: imageQuery_def joinImages_gone [OF assms(1)] Inr sum.case)
qed

lemma listQuery_gone:
  assumes "unusedGone t t'" "tables_wf t"
  shows "listQuery like clause as p t' = listQuery like clause as p t"
proof (cases "whereRows like clause as listRow (joinLists t)")
  case (Inl e)
  then show ?thesis by (simp add: listQuery_def joinLists_gone [OF assms(1)])
next
  case (Inr rows)
  let ?keys = "remdups (map (\<lambda>(r, g, l, im). (r, l, Digest im)) rows)"
  have key: "gget (listT t') l = gget (listT t) l" "gget (imageT t') (Digest im) = gget (imageT t) (Digest im)"
    if m: "(r, g, l, im) \<in> set rows" for r g l im
  proof -
    have "(r, g, l, im) \<in> set (joinLists t)" using whereRows_subset [OF Inr] m by blast
    then obtain d where d: "((r, g), l) \<in> set (listTagT t)" "(l, d) \<in> set (listEntryT t)" "gget (imageT t) d = Some im"
      unfolding joinLists_iff by blast
    then have "d = Digest im" using tables_wf_image [OF assms(2)] by blast
    then show "gget (listT t') l = gget (listT t) l" "gget (imageT t') (Digest im) = gget (imageT t) (Digest im)"
      using assms(1) d by (force simp: unusedGone_def)+
  qed
  have x: "filter (\<lambda>(r, l, d). gget (listT t') l \<noteq> None) ?keys = filter (\<lambda>(r, l, d). gget (listT t) l \<noteq> None) ?keys"
    by (intro filter_cong refl) (auto simp: key)
  let ?x = "filter (\<lambda>(r, l, d). gget (listT t) l \<noteq> None) ?keys"
  let ?js = "\<lambda>tt r l. map (\<lambda>(r', l', d). case gget (imageT tt) d of None \<Rightarrow> JNull | Some im \<Rightarrow> imageRowJson im)
    (filter (\<lambda>(r', l', d). r' = r \<and> l' = l) ?x)"
  have js: "?js t' r l = ?js t r l" for r l
    by (intro map_cong refl) (auto simp: key)
  have lt: "listTagT t' = listTagT t" using assms(1) by (simp add: unusedGone_def)
  have "map (\<lambda>(r, l). (r, map_option listRowJson (gget (listT t') l), jsonb_agg (shuffle p (r @ l) (?js t' r l)),
        aggTags p (listTagT t') l)) (remdups (map (\<lambda>(r, l, d). (r, l)) ?x)) =
    map (\<lambda>(r, l). (r, map_option listRowJson (gget (listT t) l), jsonb_agg (shuffle p (r @ l) (?js t r l)),
        aggTags p (listTagT t) l)) (remdups (map (\<lambda>(r, l, d). (r, l)) ?x))"
    unfolding js lt by (intro map_cong refl) (auto simp: key)
  then show ?thesis by (simp only: listQuery_def joinLists_gone [OF assms(1)] Inr Let_def x sum.case)
qed

lemma runQuery_work:
  "(\<And>p. f p t' = f p (work s)) \<Longrightarrow>
   runQuery env f (s\<lparr>work := t'\<rparr>) = map_prod id (\<lambda>s1. s1\<lparr>work := t'\<rparr>) (runQuery env f s)"
  by (auto simp: runQuery_def Let_def split: sum.splits option.splits)

lemma doQueries_gone:
  assumes "unusedGone (work s) t'" "tables_wf (work s)"
  shows "doImageQuery env q (s\<lparr>work := t'\<rparr>) = map_prod id (\<lambda>s1. s1\<lparr>work := t'\<rparr>) (doImageQuery env q s)"
    "doListQuery env q (s\<lparr>work := t'\<rparr>) = map_prod id (\<lambda>s1. s1\<lparr>work := t'\<rparr>) (doListQuery env q s)"
proof -
  have ord: "loopOrd env (s\<lparr>work := t'\<rparr>) = loopOrd env s" by (simp add: loopOrd_def fun_eq_iff)
  have i: "runQuery env (imageQuery like col clause as) (s\<lparr>work := t'\<rparr>) =
      map_prod id (\<lambda>s1. s1\<lparr>work := t'\<rparr>) (runQuery env (imageQuery like col clause as) s)" for like col clause as
    by (intro runQuery_work imageQuery_gone assms)
  have l: "runQuery env (listQuery like clause as) (s\<lparr>work := t'\<rparr>) =
      map_prod id (\<lambda>s1. s1\<lparr>work := t'\<rparr>) (runQuery env (listQuery like clause as) s)" for like clause as
    by (intro runQuery_work listQuery_gone assms)
  show "doImageQuery env q (s\<lparr>work := t'\<rparr>) = map_prod id (\<lambda>s1. s1\<lparr>work := t'\<rparr>) (doImageQuery env q s)"
    by (auto simp: doImageQuery_def ord tryM_def throw_def ret_def i split: sum.splits prod.splits)
  show "doListQuery env q (s\<lparr>work := t'\<rparr>) = map_prod id (\<lambda>s1. s1\<lparr>work := t'\<rparr>) (doListQuery env q s)"
    by (auto simp: doListQuery_def ord tryM_def throw_def ret_def l split: sum.splits prod.splits)
qed

lemma keeps_doImageQuery: "keeps I (doImageQuery env q)"
  by (auto simp: keeps_def doImageQuery_def tryM_def throw_def ret_def runQuery_def Let_def
      split: sum.splits prod.splits option.splits if_splits)

lemma DoQuery_gone:
  assumes "unusedGone (work s) t'" "tables_wf (work s)"
  shows "DoQuery env ptx q (s\<lparr>work := t'\<rparr>) = map_prod id (\<lambda>s1. s1\<lparr>work := t'\<rparr>) (DoQuery env ptx q s)"
proof -
  obtain r s1 where 1: "doImageQuery env q s = (r, s1)" by (cases "doImageQuery env q s")
  have "work s1 = work s" using keepsD [OF keeps_doImageQuery [of "\<lambda>t. t = work s" env q], of s] 1 by simp
  then show ?thesis using assms doQueries_gone(1) [OF assms] doQueries_gone(2) [of s1 t']
    by (auto simp: DoQuery_def tryM_def ret_def 1 split: sum.splits prod.splits)
qed

text \<open>
  Garbage collection removes everything unused and nothing else, and is invisible: \<^verbatim>\<open>DeleteUnused\<close>
  succeeds without faults; exactly the lists without a tag are gone, with their entries, and exactly the
  images that neither have a tag nor belong to a remaining list; no tag changes; and every query answers
  as before.
\<close>

theorem DeleteUnused_invisible:
  assumes "ready env s" "tables_wf (work s)"
  shows "\<exists>s'. DeleteUnused env ptx s = (Inr (), s') \<and> \<not> failed s' \<and>
    imageTagT (work s') = imageTagT (work s) \<and> listTagT (work s') = listTagT (work s) \<and>
    (\<forall>l. gget (listT (work s')) l \<noteq> None \<longleftrightarrow>
      gget (listT (work s)) l \<noteq> None \<and> l \<in> snd ` set (listTagT (work s))) \<and>
    (\<forall>d. gget (imageT (work s')) d \<noteq> None \<longleftrightarrow> gget (imageT (work s)) d \<noteq> None \<and>
      (d \<in> snd ` set (imageTagT (work s)) \<or> d \<in> snd ` set (listEntryT (work s')))) \<and>
    (\<forall>env' q. fst (DoQuery env' ptx q (s\<lparr>work := work s'\<rparr>)) = fst (DoQuery env' ptx q s))"
proof -
  obtain s' where s': "DeleteUnused env ptx s = (Inr (), s')" "\<not> failed s'" and g: "unusedGone (work s) (work s')"
    using DeleteUnused_gone [OF assms] by blast
  have "snd ` set (listEntryT (work s')) =
      {d. \<exists>l \<in> snd ` set (listTagT (work s)). (l, d) \<in> set (listEntryT (work s))}"
    using g by (force simp: unusedGone_def)
  then show ?thesis using s' g DoQuery_gone [OF g assms(2)]
    by (intro exI [of _ s']) (simp add: unusedGone_def fst_map_prod)
qed

theorem DeleteUnused_invisible_witness:
  "\<exists>s'. DeleteUnused okEnv \<lparr>modify = False, modificationTime = 0\<rparr>
      (newTx (oneImage\<lparr>imageT := imageT oneImage @ [(''d9'', zeroImage\<lparr>Digest := ''d9''\<rparr>)]\<rparr>)) = (Inr (), s') \<and>
     gget (imageT (work s')) ''d9'' = None \<and> gget (imageT (work s')) ''d1'' \<noteq> None"
proof -
  let ?t = "oneImage\<lparr>imageT := imageT oneImage @ [(''d9'', zeroImage\<lparr>Digest := ''d9''\<rparr>)]\<rparr>"
  have w: "work (newTx ?t) = ?t" by (simp add: newTx_def)
  have "tables_wf ?t"
    by (simp add: oneImage_def emptyTables_def tables_wf_def images_wf_def lists_wf_def tags_wf_def image_wf_def zeroImage_def)
  then have wf: "tables_wf (work (newTx ?t))" by (simp only: w)
  from DeleteUnused_invisible [OF newTx_ready wf, of "\<lparr>modify = False, modificationTime = 0\<rparr>"]
  obtain s' where s': "DeleteUnused okEnv \<lparr>modify = False, modificationTime = 0\<rparr> (newTx ?t) = (Inr (), s')"
      "\<forall>d. gget (imageT (work s')) d \<noteq> None \<longleftrightarrow> gget (imageT ?t) d \<noteq> None \<and>
        (d \<in> snd ` set (imageTagT ?t) \<or> d \<in> snd ` set (listEntryT (work s')))"
    unfolding w by (elim exE conjE) (rule that)
  have "listEntryT (work (snd (DeleteUnused okEnv \<lparr>modify = False, modificationTime = 0\<rparr> (newTx ?t)))) = []"
    by code_simp
  then have "listEntryT (work s') = []" using s'(1) by simp
  then have "gget (imageT (work s')) ''d9'' = None" "gget (imageT (work s')) ''d1'' \<noteq> None"
    using s'(2) [rule_format, of "''d9''"] s'(2) [rule_format, of "''d1''"] by (simp_all add: oneImage_def emptyTables_def)
  then show ?thesis using s'(1) by blast
qed

end
