(* ===== verification/QueryResults.thy ===== *)
theory QueryResults
  imports ImageStore
begin

section \<open>What a query returns\<close>

text \<open>
  From the rows of the two SQL queries to the answer of \<^verbatim>\<open>DoQuery\<close>. The answer is described as a set of
  pairs of a repository name and an image or list. That nothing is lost or invented does not depend on the
  order of rows; that every repository appears once does.
\<close>

definition tagsOfDigest :: "tag_rows \<Rightarrow> string \<Rightarrow> string list" where
  "tagsOfDigest rows dgst = map (\<lambda>((r, g), d). g) (filter (\<lambda>((r, g), d). d = dgst) rows)"

definition imagePairs :: "Repository list \<Rightarrow> (string \<times> TaggedImage) set" where
  "imagePairs res = {(Name repo, im) | repo im. repo \<in> set res \<and> im \<in> set (Images repo)}"

definition listPairs :: "Repository list \<Rightarrow> (string \<times> TaggedImageList) set" where
  "listPairs res = {(Name repo, l) | repo l. repo \<in> set res \<and> l \<in> set (Lists repo)}"

lemma imagePairs_simps [simp]:
  "imagePairs [] = {}"
  "imagePairs (x # xs) = {Name x} \<times> set (Images x) \<union> imagePairs xs"
  "imagePairs (xs @ ys) = imagePairs xs \<union> imagePairs ys"
  by (auto simp: imagePairs_def)

lemma listPairs_simps [simp]:
  "listPairs [] = {}"
  "listPairs (x # xs) = {Name x} \<times> set (Lists x) \<union> listPairs xs"
  "listPairs (xs @ ys) = listPairs xs \<union> listPairs ys"
  by (auto simp: listPairs_def)

subsection \<open>Collecting rows\<close>

lemma enterRepository_last: "enterRepository r res \<noteq> [] \<and> Name (last (enterRepository r res)) = r"
  by (auto simp: enterRepository_def newRepository_def)

lemma enterRepository_pairs:
  "imagePairs (enterRepository r res) = imagePairs res" "listPairs (enterRepository r res) = listPairs res"
  "Name ` set (enterRepository r res) = insert r (Name ` set res)"
  by (auto simp: enterRepository_def newRepository_def)

lemma modifyLast_pairs:
  assumes "xs \<noteq> []" "Name (last xs) = r"
  shows "imagePairs (modifyLast (\<lambda>x. x\<lparr>Images := Images x @ [im]\<rparr>) xs) = insert (r, im) (imagePairs xs)"
    "listPairs (modifyLast (\<lambda>x. x\<lparr>Images := Images x @ [im]\<rparr>) xs) = listPairs xs"
    "listPairs (modifyLast (\<lambda>x. x\<lparr>Lists := Lists x @ [l]\<rparr>) xs) = insert (r, l) (listPairs xs)"
    "imagePairs (modifyLast (\<lambda>x. x\<lparr>Lists := Lists x @ [l]\<rparr>) xs) = imagePairs xs"
    "Name ` set (modifyLast (\<lambda>x. x\<lparr>Images := Images x @ [im]\<rparr>) xs) = Name ` set xs"
    "Name ` set (modifyLast (\<lambda>x. x\<lparr>Lists := Lists x @ [l]\<rparr>) xs) = Name ` set xs"
proof -
  obtain ys y where xs: "xs = ys @ [y]" using assms(1) by (metis rev_exhaust)
  then have "Name y = r" using assms(2) by simp
  then show "imagePairs (modifyLast (\<lambda>x. x\<lparr>Images := Images x @ [im]\<rparr>) xs) = insert (r, im) (imagePairs xs)"
    "listPairs (modifyLast (\<lambda>x. x\<lparr>Images := Images x @ [im]\<rparr>) xs) = listPairs xs"
    "listPairs (modifyLast (\<lambda>x. x\<lparr>Lists := Lists x @ [l]\<rparr>) xs) = insert (r, l) (listPairs xs)"
    "imagePairs (modifyLast (\<lambda>x. x\<lparr>Lists := Lists x @ [l]\<rparr>) xs) = imagePairs xs"
    "Name ` set (modifyLast (\<lambda>x. x\<lparr>Images := Images x @ [im]\<rparr>) xs) = Name ` set xs"
    "Name ` set (modifyLast (\<lambda>x. x\<lparr>Lists := Lists x @ [l]\<rparr>) xs) = Name ` set xs"
    by (auto simp: modifyLast_def xs)
qed

text \<open>Rows as the database writes them.\<close>

definition imageRows :: "(string \<times> Image \<times> string list) list \<Rightarrow> (string \<times> json option \<times> json option) list" where
  "imageRows xs = map (\<lambda>(r, im, ts). (r, Some (imageRowJson im), Some (tagsJson ts))) xs"

lemma imageRows_loop_pairs:
  assumes "\<forall>(r, im, ts) \<in> set xs. image_wf im"
  shows "imagePairs (imageRows_loop (imageRows xs) res) =
      imagePairs res \<union> (\<lambda>(r, im, ts). (r, withTags im ts)) ` set xs \<and>
    listPairs (imageRows_loop (imageRows xs) res) = listPairs res \<and>
    Name ` set (imageRows_loop (imageRows xs) res) = Name ` set res \<union> fst ` set xs"
  using assms
proof (induction xs arbitrary: res)
  case (Cons x xs)
  obtain r im ts where x: "x = (r, im, ts)" by (metis prod_cases3)
  let ?res = "modifyLast (\<lambda>repo. repo\<lparr>Images := Images repo @ [withTags im ts]\<rparr>) (enterRepository r res)"
  have "imageRows_loop (imageRows (x # xs)) res = imageRows_loop (imageRows xs) ?res"
    using Cons.prems by (simp add: x imageRows_def unmarshalImage_row unmarshalStrings_tags)
  moreover have "\<forall>(r, im, ts) \<in> set xs. image_wf im" using Cons.prems by simp
  ultimately show ?case
    using Cons.IH [of ?res] modifyLast_pairs [OF enterRepository_last [THEN conjunct1] enterRepository_last [THEN conjunct2]]
    by (simp add: x enterRepository_pairs)
qed (simp add: imageRows_def)

definition listRows ::
    "(string \<times> ImageList \<times> Image list \<times> string list) list \<Rightarrow> (string \<times> json option \<times> json option \<times> json option) list" where
  "listRows xs = map (\<lambda>(r, l, ims, ts).
     (r, Some (listRowJson l), Some (JArr (map imageRowJson ims)), Some (tagsJson ts))) xs"

lemma listRows_loop_pairs:
  assumes "\<forall>(r, l, ims, ts) \<in> set xs. gomap_wf (listAnnotations l) \<and> list_all image_wf ims"
  shows "listPairs (listRows_loop (listRows xs) res) =
      listPairs res \<union> (\<lambda>(r, l, ims, ts). (r, listWithTags (l\<lparr>listImages := ims\<rparr>) ts)) ` set xs \<and>
    imagePairs (listRows_loop (listRows xs) res) = imagePairs res \<and>
    Name ` set (listRows_loop (listRows xs) res) = Name ` set res \<union> fst ` set xs"
  using assms
proof (induction xs arbitrary: res)
  case (Cons x xs)
  obtain r l ims ts where x: "x = (r, l, ims, ts)" by (metis prod_cases4)
  let ?l = "listWithTags (l\<lparr>listImages := ims\<rparr>) ts"
  let ?res = "modifyLast (\<lambda>repo. repo\<lparr>Lists := Lists repo @ [?l]\<rparr>) (enterRepository r res)"
  have "listRows_loop (listRows (x # xs)) res = listRows_loop (listRows xs) ?res"
    using Cons.prems unmarshalImages_rows [of ims] unmarshalList_row [of l]
    by (simp add: x listRows_def unmarshalStrings_tags zeroList_def)
  moreover have "\<forall>(r, l, ims, ts) \<in> set xs. gomap_wf (listAnnotations l) \<and> list_all image_wf ims"
    using Cons.prems by simp
  ultimately show ?case
    using Cons.IH [of ?res] modifyLast_pairs [OF enterRepository_last [THEN conjunct1] enterRepository_last [THEN conjunct2]]
    by (simp add: x enterRepository_pairs)
qed (simp add: listRows_def)

subsection \<open>Merging\<close>

lemma mergeRepos_pairs:
  assumes "listPairs xs = {}" "imagePairs ys = {}"
  shows "imagePairs (mergeRepos xs ys) = imagePairs xs \<and> listPairs (mergeRepos xs ys) = listPairs ys \<and>
    Name ` set (mergeRepos xs ys) = Name ` set xs \<union> Name ` set ys"
  using assms by (induction xs ys rule: mergeRepos.induct) auto

lemma sortTags_pairs:
  "imagePairs (map sortTags res) = (\<lambda>(r, im). (r, im\<lparr>Tags := sort (Tags im)\<rparr>)) ` imagePairs res"
  "listPairs (map sortTags res) = (\<lambda>(r, l). (r, l\<lparr>listTags := sort (listTags l)\<rparr>)) ` listPairs res"
  "Name ` set (map sortTags res) = Name ` set res"
  by (induction res) (auto simp: sortTags_def)

subsection \<open>The rows of the SQL queries\<close>

lemma insort_key_map: "insort_key f (g x) (map g xs) = map g (insort_key (\<lambda>y. f (g y)) x xs)"
  by (induction xs) auto

lemma sort_key_map: "sort_key f (map g xs) = map g (sort_key (\<lambda>y. f (g y)) xs)"
  by (induction xs) (simp_all add: insort_key_map)

lemma shuffle_map: "row_perm_ok p \<Longrightarrow> shuffle p name (map g xs) = map g (shuffle p name xs)"
proof -
  assume "row_perm_ok p"
  then have "set (p name (length xs)) = set [0..<length xs]"
    unfolding row_perm_ok_def by (metis set_mset_mset)
  then show ?thesis by (auto simp: shuffle_def)
qed

lemma shuffle_Nil: "row_perm_ok p \<Longrightarrow> shuffle p name xs = [] \<longleftrightarrow> xs = []"
  using shuffle_mset [of p name xs] by (metis mset_zero_iff)

lemma sort_shuffle: "row_perm_ok p \<Longrightarrow> sort (shuffle p name xs) = sort xs"
  using shuffle_mset by (metis sorted_list_of_multiset_mset)

lemma aggTags_some:
  assumes "row_perm_ok p" "tagsOfDigest rows d \<noteq> []"
  shows "aggTags p rows d = Some (tagsJson (shuffle p d (tagsOfDigest rows d)))"
  using assms by (simp add: aggTags_def jsonb_agg_def tagsJson_def shuffle_Nil flip: tagsOfDigest_def)

lemma tagsOfDigest_set: "set (tagsOfDigest rows d) = {g. \<exists>r. ((r, g), d) \<in> set rows}"
  by (force simp: tagsOfDigest_def)

definition imageAnswer :: "row_perm \<Rightarrow> tables \<Rightarrow> string \<times> string \<times> Image \<Rightarrow> string \<times> Image \<times> string list" where
  "imageAnswer p t x = (case x of (r, g, im) \<Rightarrow>
     (r, im, shuffle p (Digest im) (tagsOfDigest (imageTagT t) (Digest im))))"

lemma imageQuery_rows:
  assumes "tables_wf t" "row_perm_ok p" "whereRows like clause as imageRow (joinImages t) = Inr rows"
  shows "\<exists>xs. imageQuery like col clause as p t = Inr (imageRows xs) \<and> set xs = imageAnswer p t ` set rows \<and>
    sorted (map (\<lambda>x. col (fst x)) xs)"
proof -
  let ?keys = "remdups (map (\<lambda>(r, g, im). (r, Digest im)) rows)"
  let ?f = "\<lambda>(r, d). (r, the (gget (imageT t) d), shuffle p d (tagsOfDigest (imageTagT t) d))"
  let ?row = "\<lambda>(r, im, ts). (r, Some (imageRowJson im), Some (tagsJson ts))"
  have img: "gget (imageT t) (Digest im) = Some im" "tagsOfDigest (imageTagT t) (Digest im) \<noteq> []"
    if m: "(r, g, im) \<in> set rows" for r g im
  proof -
    have "(r, g, im) \<in> set (joinImages t)" using whereRows_subset [OF assms(3)] m by blast
    then obtain d where d: "((r, g), d) \<in> set (imageTagT t)" "gget (imageT t) d = Some im"
      unfolding joinImages_iff by blast
    then have "Digest im = d" using tables_wf_image [OF assms(1)] by blast
    moreover have "g \<in> set (tagsOfDigest (imageTagT t) d)" using d(1) by (auto simp: tagsOfDigest_set)
    ultimately show "gget (imageT t) (Digest im) = Some im" "tagsOfDigest (imageTagT t) (Digest im) \<noteq> []"
      using d by auto
  qed
  have eq: "map (\<lambda>(r, d). (r, map_option imageRowJson (gget (imageT t) d), aggTags p (imageTagT t) d)) ?keys =
      map ?row (map ?f ?keys)"
    unfolding map_map comp_def by (intro map_cong refl) (auto simp: img aggTags_some [OF assms(2)])
  let ?xs = "sort_key (\<lambda>x. col (fst x)) (shuffle p '''' (map ?f ?keys))"
  have "imageQuery like col clause as p t = Inr (sort_key (\<lambda>(r, _). col r) (shuffle p '''' (map ?row (map ?f ?keys))))"
    by (simp only: imageQuery_def assms(3) sum.case eq)
  also have "shuffle p '''' (map ?row (map ?f ?keys)) = map ?row (shuffle p '''' (map ?f ?keys))"
    by (rule shuffle_map [OF assms(2)])
  also have "sort_key (\<lambda>(r, _). col r) (map ?row (shuffle p '''' (map ?f ?keys))) = imageRows ?xs"
    unfolding sort_key_map imageRows_def by (simp add: case_prod_unfold)
  finally have "imageQuery like col clause as p t = Inr (imageRows ?xs)" .
  moreover have "set ?xs = imageAnswer p t ` set rows"
    using img by (force simp: shuffle_set [OF assms(2)] imageAnswer_def image_iff)
  ultimately show ?thesis by (intro exI [of _ ?xs]) simp
qed

lemma in_set_ne: "x \<in> set xs \<Longrightarrow> xs \<noteq> []"
  by auto

lemma map_via: "(\<And>x. x \<in> set xs \<Longrightarrow> g x = h (f x)) \<Longrightarrow> map g xs = map h (map f xs)"
  by simp

text \<open>For a list: its row, its images in the answer, and its tags.\<close>

definition listAnswer ::
    "(string \<times> string \<times> string \<times> Image) list \<Rightarrow> tables \<Rightarrow> string \<times> ImageList \<times> Image list \<times> string list \<Rightarrow> bool" where
  "listAnswer rows t x = (case x of (r, row, ims, ts) \<Rightarrow>
     \<exists>l. gget (listT t) l = Some row \<and> mset ts = mset (tagsOfDigest (listTagT t) l) \<and>
       set ims = {im. \<exists>g. (r, g, l, im) \<in> set rows} \<and> ims \<noteq> [])"

lemma listQuery_rows:
  assumes "tables_wf t" "row_perm_ok p" "whereRows like clause as listRow (joinLists t) = Inr rows"
  shows "\<exists>xs. listQuery like clause as p t = Inr (listRows xs) \<and> (\<forall>x \<in> set xs. listAnswer rows t x) \<and>
    (\<forall>(r, g, l, im) \<in> set rows. \<exists>row ims ts. (r, row, ims, ts) \<in> set xs \<and> gget (listT t) l = Some row)"
proof -
  let ?keys = "remdups (map (\<lambda>(r, g, l, im). (r, l, Digest im)) rows)"
  have fact: "gget (imageT t) (Digest im) = Some im" "gget (listT t) l \<noteq> None" "tagsOfDigest (listTagT t) l \<noteq> []"
    if m: "(r, g, l, im) \<in> set rows" for r g l im
  proof -
    have "(r, g, l, im) \<in> set (joinLists t)" using whereRows_subset [OF assms(3)] m by blast
    then obtain d where d: "((r, g), l) \<in> set (listTagT t)" "(l, d) \<in> set (listEntryT t)" "gget (imageT t) d = Some im"
      unfolding joinLists_iff by blast
    then have "Digest im = d" using tables_wf_image [OF assms(1)] by blast
    then show "gget (imageT t) (Digest im) = Some im" using d(3) by simp
    show "gget (listT t) l \<noteq> None" using assms(1) d(2) by (auto simp: tables_wf_def)
    have "g \<in> set (tagsOfDigest (listTagT t) l)" using d(1) by (auto simp: tagsOfDigest_set)
    then show "tagsOfDigest (listTagT t) l \<noteq> []" by auto
  qed
  have x: "filter (\<lambda>(r, l, d). gget (listT t) l \<noteq> None) ?keys = ?keys"
    by (rule filter_eq_self) (use fact(2) in auto)
  let ?sel = "\<lambda>r l. filter (\<lambda>(r', l', d). r' = r \<and> l' = l) ?keys"
  let ?ims = "\<lambda>r l. map (\<lambda>(r', l', d). the (gget (imageT t) d)) (?sel r l)"
  let ?f = "\<lambda>(r, l). (r, the (gget (listT t) l), shuffle p (r @ l) (?ims r l),
      shuffle p l (tagsOfDigest (listTagT t) l))"
  let ?gs = "remdups (map (\<lambda>(r, l, d). (r, l)) ?keys)"
  let ?row = "\<lambda>(r, l, ims, ts). (r, Some (listRowJson l), Some (JArr (map imageRowJson ims)), Some (tagsJson ts))"
  have js: "map (\<lambda>(r', l', d). case gget (imageT t) d of None \<Rightarrow> JNull | Some im \<Rightarrow> imageRowJson im) (?sel r l) =
      map imageRowJson (?ims r l)" for r l
    unfolding map_map comp_def by (intro map_cong refl) (auto simp: fact(1))
  have gs: "\<exists>g im. (r, g, l, im) \<in> set rows" if "(r, l) \<in> set ?gs" for r l
    using that by auto
  have agg: "jsonb_agg (shuffle p (r @ l) (map imageRowJson (?ims r l))) =
      Some (JArr (map imageRowJson (shuffle p (r @ l) (?ims r l))))" if "(r, l) \<in> set ?gs" for r l
  proof -
    have "?ims r l \<noteq> []" using that by (force simp: filter_empty_conv)
    then show ?thesis unfolding shuffle_map [OF assms(2)] jsonb_agg_def by (simp add: shuffle_Nil [OF assms(2)])
  qed
  have elem: "(r, map_option listRowJson (gget (listT t) l),
      jsonb_agg (shuffle p (r @ l) (map imageRowJson (?ims r l))), aggTags p (listTagT t) l) = ?row (?f (r, l))"
    if rl: "(r, l) \<in> set ?gs" for r l
  proof -
    obtain g im where m: "(r, g, l, im) \<in> set rows" using gs [OF rl] by blast
    then obtain row where "gget (listT t) l = Some row" using fact(2) by blast
    then show ?thesis by (simp only: agg [OF rl] aggTags_some [OF assms(2) fact(3) [OF m]] split option.map option.sel)
  qed
  let ?xs = "shuffle p '''' (map ?f ?gs)"
  have "map (\<lambda>(r, l). (r, map_option listRowJson (gget (listT t) l),
      jsonb_agg (shuffle p (r @ l) (map imageRowJson (?ims r l))), aggTags p (listTagT t) l)) ?gs = map ?row (map ?f ?gs)"
    by (rule map_via) (use elem in \<open>simp only: split_paired_all split\<close>)
  then have "listQuery like clause as p t = Inr (shuffle p '''' (map ?row (map ?f ?gs)))"
    by (simp only: listQuery_def assms(3) sum.case Let_def x js)
  then have q: "listQuery like clause as p t = Inr (listRows ?xs)"
    by (simp only: shuffle_map [OF assms(2), of _ ?row] listRows_def)
  have ims: "set (?ims r l) = {im. \<exists>g. (r, g, l, im) \<in> set rows}" for r l
    using fact(1) by (force simp: image_iff)
  have "listAnswer rows t x" if "x \<in> set ?xs" for x
  proof -
    from that have "x \<in> ?f ` set ?gs" by (simp only: shuffle_set [OF assms(2)] set_map)
    then obtain y where y: "y \<in> set ?gs" "x = ?f y" by blast
    obtain r l where "y = (r, l)" by (cases y)
    note rl = y [unfolded this]
    obtain g im where m: "(r, g, l, im) \<in> set rows" using gs [OF rl(1)] by blast
    then have "im \<in> set (?ims r l)" unfolding ims by blast
    then have ne: "?ims r l \<noteq> []" by (rule in_set_ne)
    show ?thesis unfolding rl(2) listAnswer_def split
    proof (intro exI [of _ l] conjI)
      show "gget (listT t) l = Some (the (gget (listT t) l))" using fact(2) [OF m] by simp
      show "mset (shuffle p l (tagsOfDigest (listTagT t) l)) = mset (tagsOfDigest (listTagT t) l)"
        by (rule shuffle_mset [OF assms(2)])
      show "set (shuffle p (r @ l) (?ims r l)) = {im. \<exists>g. (r, g, l, im) \<in> set rows}"
        unfolding shuffle_set [OF assms(2)] by (rule ims)
      show "shuffle p (r @ l) (?ims r l) \<noteq> []" unfolding shuffle_Nil [OF assms(2)] by (rule ne)
    qed
  qed
  moreover have "\<exists>row ims ts. (r, row, ims, ts) \<in> set ?xs \<and> gget (listT t) l = Some row"
    if m: "(r, g, l, im) \<in> set rows" for r g l im
  proof -
    have "(r, l) \<in> set ?gs" using m by force
    then have "?f (r, l) \<in> set ?xs" by (simp only: shuffle_set [OF assms(2)] set_map imageI)
    then have "(r, the (gget (listT t) l), shuffle p (r @ l) (?ims r l), shuffle p l (tagsOfDigest (listTagT t) l)) \<in> set ?xs"
      by (simp only: split)
    moreover have "gget (listT t) l = Some (the (gget (listT t) l))" using fact(2) [OF m] by simp
    ultimately show ?thesis by (intro exI conjI)
  qed
  ultimately show ?thesis using q by (intro exI [of _ ?xs] conjI ballI) (simp_all only: split_paired_all split)
qed

subsection \<open>The answer of DoQuery\<close>

lemma whereRows_matches:
  assumes "like_operator like" "range_order ord" "query_wf q" "query_text_ok q"
    and "makeWhereClause ord q = Inr (clause, as)" "whereRows like clause as row xs = Inr ys"
  shows "ys = filter (\<lambda>x. query_matches q (row x)) xs"
proof -
  have "sql_where like clause as r = Some (query_matches q r)" for r
    using makeWhereClause_means [OF assms(1-4), of r] assms(5) by auto
  then show ?thesis using assms(6) by (simp add: whereRows_def split: if_splits)
qed

lemma loopOrd_range: "env_ok env \<Longrightarrow> range_order (loopOrd env s)"
  by (simp add: env_ok_def range_order_def loopOrd_def)

lemma runs_doImageQuery:
  assumes "tables_wf (work s)" "env_ok env" "query_wf q" "query_text_ok q" "runs (doImageQuery env q) s res s'"
  shows "work s' = work s \<and> (\<exists>xs. res = imageRows_loop (imageRows xs) [] \<and>
    set xs = imageAnswer (rowPerm env (stmts s)) (work s) ` {x \<in> set (joinImages (work s)). query_matches q (imageRow x)} \<and>
    sorted (map (\<lambda>x. collation env (fst x)) xs))"
proof (cases "makeWhereClause (loopOrd env s) q")
  case (Inl e)
  then show ?thesis using assms(5) by (simp add: doImageQuery_def runs_def throw_def)
next
  case (Inr ca)
  then obtain clause as where mw: "makeWhereClause (loopOrd env s) q = Inr (clause, as)" by (cases ca) auto
  let ?p = "rowPerm env (stmts s)"
  have "doImageQuery env q s = tryM (runQuery env (imageQuery (likeOp env) (collation env) clause as)) (\<lambda>rows.
      ret (imageRows_loop rows [])) s" by (simp add: doImageQuery_def mw)
  then have "runs (tryM (runQuery env (imageQuery (likeOp env) (collation env) clause as)) (\<lambda>rows.
      ret (imageRows_loop rows []))) s res s'" using assms(5) by (simp add: runs_def)
  then obtain js where js: "imageQuery (likeOp env) (collation env) clause as ?p (work s) = Inr js"
      "res = imageRows_loop js []" "work s' = work s"
    by (auto simp: runs_tryM sticky_ret runs_runQuery)
  obtain rows where rows: "whereRows (likeOp env) clause as imageRow (joinImages (work s)) = Inr rows"
    using js(1) by (auto simp: imageQuery_def split: sum.splits)
  have "rows = filter (\<lambda>x. query_matches q (imageRow x)) (joinImages (work s))"
    using assms(2) by (intro whereRows_matches [OF _ loopOrd_range [OF assms(2)] assms(3,4) mw rows]) (simp add: env_ok_def)
  then have "set rows = {x \<in> set (joinImages (work s)). query_matches q (imageRow x)}" by auto
  moreover obtain xs where "imageQuery (likeOp env) (collation env) clause as ?p (work s) = Inr (imageRows xs)"
      "set xs = imageAnswer ?p (work s) ` set rows" "sorted (map (\<lambda>x. collation env (fst x)) xs)"
    using imageQuery_rows [OF assms(1) _ rows, of ?p "collation env"] assms(2) unfolding env_ok_def by blast
  ultimately show ?thesis using js by auto
qed

lemma runs_doListQuery:
  assumes "tables_wf (work s)" "env_ok env" "query_wf q" "query_text_ok q" "runs (doListQuery env q) s res s'"
  shows "work s' = work s \<and> (\<exists>xs rows. res = listRows_loop (listRows xs) [] \<and>
    set rows = {x \<in> set (joinLists (work s)). query_matches q (listRow x)} \<and>
    (\<forall>x \<in> set xs. listAnswer rows (work s) x) \<and>
    (\<forall>(r, g, l, im) \<in> set rows. \<exists>row ims ts. (r, row, ims, ts) \<in> set xs \<and> gget (listT (work s)) l = Some row))"
proof (cases "makeWhereClause (loopOrd env s) q")
  case (Inl e)
  then show ?thesis using assms(5) by (simp add: doListQuery_def runs_def throw_def)
next
  case (Inr ca)
  then obtain clause as where mw: "makeWhereClause (loopOrd env s) q = Inr (clause, as)" by (cases ca) auto
  let ?p = "rowPerm env (stmts s)"
  have "doListQuery env q s = tryM (runQuery env (listQuery (likeOp env) clause as)) (\<lambda>rows.
      ret (listRows_loop rows [])) s" by (simp add: doListQuery_def mw)
  then have "runs (tryM (runQuery env (listQuery (likeOp env) clause as)) (\<lambda>rows.
      ret (listRows_loop rows []))) s res s'" using assms(5) by (simp add: runs_def)
  then obtain js where js: "listQuery (likeOp env) clause as ?p (work s) = Inr js"
      "res = listRows_loop js []" "work s' = work s"
    by (auto simp: runs_tryM sticky_ret runs_runQuery)
  obtain rows where rows: "whereRows (likeOp env) clause as listRow (joinLists (work s)) = Inr rows"
    using js(1) by (auto simp: listQuery_def split: sum.splits)
  have "rows = filter (\<lambda>x. query_matches q (listRow x)) (joinLists (work s))"
    using assms(2) by (intro whereRows_matches [OF _ loopOrd_range [OF assms(2)] assms(3,4) mw rows]) (simp add: env_ok_def)
  then have "set rows = {x \<in> set (joinLists (work s)). query_matches q (listRow x)}" by auto
  moreover have "row_perm_ok ?p" using assms(2) by (simp add: env_ok_def)
  from listQuery_rows [OF assms(1) this rows] obtain xs where
    "listQuery (likeOp env) clause as ?p (work s) = Inr (listRows xs)" "\<forall>x \<in> set xs. listAnswer rows (work s) x"
    "\<forall>(r, g, l, im) \<in> set rows. \<exists>row ims ts. (r, row, ims, ts) \<in> set xs \<and> gget (listT (work s)) l = Some row"
    by (elim exE conjE) (rule that)
  ultimately show ?thesis using js by (intro conjI exI [of _ xs] exI [of _ rows]) simp_all
qed

definition listMatch :: "Query \<Rightarrow> tables \<Rightarrow> string \<Rightarrow> TaggedImageList \<Rightarrow> bool" where
  "listMatch q t r li \<longleftrightarrow> (\<exists>row. gget (listT t) (listDigest li) = Some row \<and>
     listMediaType li = listMediaType row \<and> listAnnotations li = listAnnotations row) \<and>
     listTags li = sort (tagsOfDigest (listTagT t) (listDigest li)) \<and> listImages li \<noteq> [] \<and>
     set (listImages li) = {im. \<exists>g. (r, g, listDigest li, im) \<in> set (joinLists t) \<and>
       query_matches q (listRow (r, g, listDigest li, im))}"

lemma sort_mset: "mset xs = mset ys \<Longrightarrow> sort xs = sort ys"
  by (metis sorted_list_of_multiset_mset)

lemma tables_wf_list:
  "tables_wf t \<Longrightarrow> gget (listT t) l = Some row \<Longrightarrow> listDigest row = l \<and> gomap_wf (listAnnotations row) \<and> listImages row = []"
  by (auto simp: tables_wf_def lists_wf_def dest!: map_of_SomeD)

lemma joinLists_image: "tables_wf t \<Longrightarrow> (r, g, l, im) \<in> set (joinLists t) \<Longrightarrow> image_wf im"
  unfolding joinLists_iff using tables_wf_image by blast

lemma listAnswer_match:
  assumes "tables_wf t" "set rows = {x \<in> set (joinLists t). query_matches q (listRow x)}"
    and "listAnswer rows t (r, row, ims, ts)"
  shows "listMatch q t r (listWithTags (row\<lparr>listImages := ims\<rparr>) (sort ts))"
    "gomap_wf (listAnnotations row)" "list_all image_wf ims"
proof -
  from assms(3) obtain l where l: "gget (listT t) l = Some row" "mset ts = mset (tagsOfDigest (listTagT t) l)"
      "set ims = {im. \<exists>g. (r, g, l, im) \<in> set rows}" "ims \<noteq> []" by (auto simp: listAnswer_def)
  have row: "listDigest row = l" "gomap_wf (listAnnotations row)" using tables_wf_list [OF assms(1) l(1)] by auto
  show "gomap_wf (listAnnotations row)" by (rule row(2))
  show "list_all image_wf ims"
    using joinLists_image [OF assms(1)] by (auto simp: list_all_iff l(3) assms(2))
  show "listMatch q t r (listWithTags (row\<lparr>listImages := ims\<rparr>) (sort ts))"
    using l row sort_mset [OF l(2)] by (auto simp: listMatch_def listWithTags_def assms(2))
qed

lemma runs_DoQuery:
  assumes "tables_wf (work s)" "env_ok env" "query_wf q" "query_text_ok q" "runs (DoQuery env ptx q) s repos s'"
  shows "work s' = work s"
    "imagePairs repos = (\<lambda>(r, g, im). (r, withTags im (sort (tagsOfDigest (imageTagT (work s)) (Digest im))))) `
       {x \<in> set (joinImages (work s)). query_matches q (imageRow x)}"
    "(r, li) \<in> listPairs repos \<Longrightarrow> listMatch q (work s) r li"
    "(r, g, l, im) \<in> set (joinLists (work s)) \<Longrightarrow> query_matches q (listRow (r, g, l, im)) \<Longrightarrow>
       \<exists>li. (r, li) \<in> listPairs repos \<and> listDigest li = l"
    "Name ` set repos = fst ` {x \<in> set (joinImages (work s)). query_matches q (imageRow x)} \<union>
       fst ` {x \<in> set (joinLists (work s)). query_matches q (listRow x)}"
proof -
  let ?t = "work s"
  from assms(5) obtain res1 s1 res2 where 1: "runs (doImageQuery env q) s res1 s1"
    and 2: "runs (doListQuery env q) s1 res2 s'" and repos: "repos = map sortTags (mergeRepos res1 res2)"
    by (auto simp: DoQuery_def runs_tryM sticky_tryM sticky_ret sticky_doListQuery)
  from runs_doImageQuery [OF assms(1-4) 1] obtain xs where xs: "work s1 = ?t" "res1 = imageRows_loop (imageRows xs) []"
    "set xs = imageAnswer (rowPerm env (stmts s)) ?t ` {x \<in> set (joinImages ?t). query_matches q (imageRow x)}" by blast
  from runs_doListQuery [OF assms(1) [folded xs(1)] assms(2-4) 2] xs(1) obtain ys rows where
    ys: "work s' = ?t" "res2 = listRows_loop (listRows ys) []"
      "set rows = {x \<in> set (joinLists ?t). query_matches q (listRow x)}" "\<forall>y \<in> set ys. listAnswer rows ?t y"
      "\<forall>(r, g, l, im) \<in> set rows. \<exists>row ims ts. (r, row, ims, ts) \<in> set ys \<and> gget (listT ?t) l = Some row"
    by auto
  have wx: "\<forall>(r, im, ts) \<in> set xs. image_wf im"
    using tables_wf_image [OF assms(1)] by (auto simp: xs(3) imageAnswer_def joinImages_iff)
  have wy: "\<forall>(r, l, ims, ts) \<in> set ys. gomap_wf (listAnnotations l) \<and> list_all image_wf ims"
    using listAnswer_match(2,3) [OF assms(1) ys(3)] ys(4) by fast
  note px = imageRows_loop_pairs [OF wx, of "[]", folded xs(2)]
  note py = listRows_loop_pairs [OF wy, of "[]", folded ys(2)]
  have m: "imagePairs (mergeRepos res1 res2) = imagePairs res1" "listPairs (mergeRepos res1 res2) = listPairs res2"
    "Name ` set (mergeRepos res1 res2) = Name ` set res1 \<union> Name ` set res2"
    using mergeRepos_pairs [of res1 res2] px py by auto
  have perm: "row_perm_ok (rowPerm env (stmts s))" using assms(2) by (simp add: env_ok_def)
  have tg: "(withTags im ts)\<lparr>Tags := ts'\<rparr> = withTags im ts'" for im ts ts' by (simp add: withTags_def)
  have li: "(listWithTags l ts)\<lparr>listTags := ts'\<rparr> = listWithTags l ts'" for l ts ts' by (simp add: listWithTags_def)
  show "work s' = ?t" by (rule ys(1))
  show "imagePairs repos = (\<lambda>(r, g, im). (r, withTags im (sort (tagsOfDigest (imageTagT ?t) (Digest im))))) `
       {x \<in> set (joinImages ?t). query_matches q (imageRow x)}"
    unfolding repos sortTags_pairs m using px
    by (simp add: xs(3) image_image imageAnswer_def case_prod_unfold tg sort_shuffle [OF perm])
  have lp: "listPairs repos = (\<lambda>(r, l, ims, ts). (r, listWithTags (l\<lparr>listImages := ims\<rparr>) (sort ts))) ` set ys"
    unfolding repos sortTags_pairs m using py by (simp add: image_image case_prod_unfold li)
  show "listMatch q ?t r li" if p: "(r, li) \<in> listPairs repos"
  proof -
    from p lp obtain row ims ts where "(r, row, ims, ts) \<in> set ys" "li = listWithTags (row\<lparr>listImages := ims\<rparr>) (sort ts)"
      by auto
    then show ?thesis using listAnswer_match(1) [OF assms(1) ys(3)] ys(4) by blast
  qed
  show "\<exists>li. (r, li) \<in> listPairs repos \<and> listDigest li = l"
    if "(r, g, l, im) \<in> set (joinLists ?t)" "query_matches q (listRow (r, g, l, im))"
  proof -
    have "(r, g, l, im) \<in> set rows" using that by (simp add: ys(3))
    then obtain row ims ts where y: "(r, row, ims, ts) \<in> set ys" "gget (listT ?t) l = Some row" using ys(5) by blast
    then have "(r, listWithTags (row\<lparr>listImages := ims\<rparr>) (sort ts)) \<in> listPairs repos" using lp by force
    then show ?thesis using tables_wf_list [OF assms(1) y(2)] by fastforce
  qed
  have "fst ` set ys = fst ` set rows"
  proof
    show "fst ` set ys \<subseteq> fst ` set rows"
    proof
      fix r assume "r \<in> fst ` set ys"
      then obtain row ims ts where "(r, row, ims, ts) \<in> set ys" by auto
      then obtain l where "set ims = {im. \<exists>g. (r, g, l, im) \<in> set rows}" "ims \<noteq> []"
        using ys(4) by (fastforce simp: listAnswer_def)
      then have "hd ims \<in> {im. \<exists>g. (r, g, l, im) \<in> set rows}" using hd_in_set by blast
      then obtain g im where "(r, g, l, im) \<in> set rows" by blast
      then show "r \<in> fst ` set rows" by force
    qed
    show "fst ` set rows \<subseteq> fst ` set ys" using ys(5) by force
  qed
  then show "Name ` set repos = fst ` {x \<in> set (joinImages ?t). query_matches q (imageRow x)} \<union>
       fst ` {x \<in> set (joinLists ?t). query_matches q (listRow x)}"
    unfolding repos sortTags_pairs m using px py ys(3)
    by (simp add: xs(3) image_image imageAnswer_def case_prod_unfold)
qed

lemma image_triples: "(\<lambda>(a, b, c). F a b c) ` {x \<in> S. P x} = {F a b c | a b c. (a, b, c) \<in> S \<and> P (a, b, c)}"
  by force

text \<open>An answer for the rows that satisfy \<open>P\<close>, read as pairs of a repository and an image or a list. The images and the lists come
  with all their tags, in whatever repository; a list comes with those of its images that satisfy \<open>P\<close>.\<close>

definition listHolds :: "(join_row \<Rightarrow> bool) \<Rightarrow> tables \<Rightarrow> string \<Rightarrow> TaggedImageList \<Rightarrow> bool" where
  "listHolds P t r li \<longleftrightarrow> (\<exists>row. gget (listT t) (listDigest li) = Some row \<and>
     listMediaType li = listMediaType row \<and> listAnnotations li = listAnnotations row) \<and>
     listTags li = sort (tagsOfDigest (listTagT t) (listDigest li)) \<and> listImages li \<noteq> [] \<and>
     set (listImages li) = {im. \<exists>g. (r, g, listDigest li, im) \<in> set (joinLists t) \<and> P \<lparr>rowRepository = r, rowTag = g, rowImage = im\<rparr>}"

definition answers :: "(join_row \<Rightarrow> bool) \<Rightarrow> tables \<Rightarrow> Repository list \<Rightarrow> bool" where
  "answers P t repos \<longleftrightarrow>
     imagePairs repos = {(r, withTags im (sort (tagsOfDigest (imageTagT t) (Digest im)))) | r g im.
       (r, g, im) \<in> set (joinImages t) \<and> P \<lparr>rowRepository = r, rowTag = g, rowImage = im\<rparr>} \<and>
     (\<forall>(r, li) \<in> listPairs repos. listHolds P t r li) \<and>
     (\<forall>(r, g, l, im) \<in> set (joinLists t). P \<lparr>rowRepository = r, rowTag = g, rowImage = im\<rparr> \<longrightarrow>
       (\<exists>li. (r, li) \<in> listPairs repos \<and> listDigest li = l)) \<and>
     Name ` set repos = {r. (\<exists>g im. (r, g, im) \<in> set (joinImages t) \<and> P \<lparr>rowRepository = r, rowTag = g, rowImage = im\<rparr>) \<or>
       (\<exists>g l im. (r, g, l, im) \<in> set (joinLists t) \<and> P \<lparr>rowRepository = r, rowTag = g, rowImage = im\<rparr>)}"

lemma listMatch_holds: "listMatch q t r li \<longleftrightarrow> listHolds (query_matches q) t r li"
  by (simp add: listMatch_def listHolds_def listRow_def)

lemma runs_answers:
  assumes "tables_wf (work s)" "env_ok env" "query_wf q" "query_text_ok q" "runs (DoQuery env ptx q) s repos s'"
  shows "answers (query_matches q) (work s) repos"
proof -
  note res = runs_DoQuery [OF assms]
  have "imagePairs repos = {(r, withTags im (sort (tagsOfDigest (imageTagT (work s)) (Digest im)))) | r g im.
       (r, g, im) \<in> set (joinImages (work s)) \<and> query_matches q \<lparr>rowRepository = r, rowTag = g, rowImage = im\<rparr>}"
    using res(2) unfolding image_triples by (simp add: imageRow_def)
  moreover have "Name ` set repos = {r. (\<exists>g im. (r, g, im) \<in> set (joinImages (work s)) \<and>
        query_matches q \<lparr>rowRepository = r, rowTag = g, rowImage = im\<rparr>) \<or>
      (\<exists>g l im. (r, g, l, im) \<in> set (joinLists (work s)) \<and> query_matches q \<lparr>rowRepository = r, rowTag = g, rowImage = im\<rparr>)}"
    unfolding res(5) by (force simp: imageRow_def listRow_def)
  ultimately show ?thesis using res(3,4) unfolding answers_def by (auto simp: listMatch_holds listRow_def)
qed

text \<open>
  C4. A query answers with what it asks for, when it succeeds, its texts are such as the database can hold and its patterns
  have no backslash: the repositories in the answer are those with an image or a list that matches; an image is in the answer for a
  repository exactly if one of its tags there satisfies the query, and comes with its stored data; a list is in the answer for a
  repository exactly if one of its images does, with those images. The tags that come with an image or a list are all its tags,
  in whatever repository, in sorted order. The answer is read as a set of pairs of a repository and an image or a list: how often
  and in which order a repository is listed is not part of it.
\<close>

theorem DoQuery_correct:
  assumes "tables_wf (work s)" "env_ok env" "query_wf q" "query_text_ok q"
    and "DoQuery env ptx q s = (Inr repos, s')" "\<not> failed s'"
  shows "imagePairs repos = {(r, withTags im (sort (tagsOfDigest (imageTagT (work s)) d))) | r g d im.
      ((r, g), d) \<in> set (imageTagT (work s)) \<and> gget (imageT (work s)) d = Some im \<and>
      query_matches q \<lparr>rowRepository = r, rowTag = g, rowImage = im\<rparr>} \<and>
    (\<forall>r li. (r, li) \<in> listPairs repos \<longrightarrow> listMatch q (work s) r li) \<and>
    (\<forall>r g l im. (r, g, l, im) \<in> set (joinLists (work s)) \<longrightarrow>
      query_matches q \<lparr>rowRepository = r, rowTag = g, rowImage = im\<rparr> \<longrightarrow>
      (\<exists>li. (r, li) \<in> listPairs repos \<and> listDigest li = l)) \<and>
    Name ` set repos = {r. (\<exists>g d im. ((r, g), d) \<in> set (imageTagT (work s)) \<and> gget (imageT (work s)) d = Some im \<and>
        query_matches q \<lparr>rowRepository = r, rowTag = g, rowImage = im\<rparr>) \<or>
      (\<exists>g l im. (r, g, l, im) \<in> set (joinLists (work s)) \<and>
        query_matches q \<lparr>rowRepository = r, rowTag = g, rowImage = im\<rparr>)}"
proof -
  have run: "runs (DoQuery env ptx q) s repos s'" using assms(5,6) by (simp add: runs_def)
  have "(\<lambda>(r, g, im). (r, withTags im (sort (tagsOfDigest (imageTagT (work s)) (Digest im))))) `
       {x \<in> set (joinImages (work s)). query_matches q (imageRow x)} =
     {(r, withTags im (sort (tagsOfDigest (imageTagT (work s)) d))) | r g d im.
      ((r, g), d) \<in> set (imageTagT (work s)) \<and> gget (imageT (work s)) d = Some im \<and>
      query_matches q \<lparr>rowRepository = r, rowTag = g, rowImage = im\<rparr>}" (is "?L = ?R")
  proof
    show "?L \<subseteq> ?R" using tables_wf_image [OF assms(1)] by (fastforce simp: joinImages_iff imageRow_def)
    show "?R \<subseteq> ?L" using tables_wf_image [OF assms(1)] by (fastforce simp: joinImages_iff imageRow_def image_iff)
  qed
  moreover have "fst ` {x \<in> set (joinImages (work s)). query_matches q (imageRow x)} \<union>
       fst ` {x \<in> set (joinLists (work s)). query_matches q (listRow x)} =
     {r. (\<exists>g d im. ((r, g), d) \<in> set (imageTagT (work s)) \<and> gget (imageT (work s)) d = Some im \<and>
        query_matches q \<lparr>rowRepository = r, rowTag = g, rowImage = im\<rparr>) \<or>
      (\<exists>g l im. (r, g, l, im) \<in> set (joinLists (work s)) \<and>
        query_matches q \<lparr>rowRepository = r, rowTag = g, rowImage = im\<rparr>)}"
    by (fastforce simp: joinImages_iff imageRow_def listRow_def image_iff)
  ultimately show ?thesis using runs_DoQuery(2-5) [OF assms(1-4) run] by (simp add: listRow_def)
qed

definition ptx0 :: postgresTransaction where
  "ptx0 = \<lparr>modify = False, modificationTime = 0\<rparr>"

lemma query_text_ok_repo: "text_ok r \<Longrightarrow> query_text_ok (Repository_q r NewQuery)"
  by (simp add: query_text_ok_def Repository_q_def NewQuery_def term_ok_def map_terms_ok_def)

lemma query_wf_repo: "query_wf (Repository_q r NewQuery)"
  by (intro query_wf_ops query_wf_New)

theorem DoQuery_correct_witness:
  "\<exists>repos s'. DoQuery okEnv ptx0 (Repository_q ''app'' NewQuery) (newTx oneImage) = (Inr repos, s') \<and>
     imagePairs repos = {(''app'', withTags (zeroImage\<lparr>Digest := ''d1''\<rparr>) [''v1'', ''v1''])}"
proof -
  let ?q = "Repository_q ''app'' NewQuery"
  have w: "work (newTx oneImage) = oneImage" by (simp add: newTx_def)
  have wf: "tables_wf (work (newTx oneImage))" by (simp add: w oneImage_wf)
  have tx: "text_ok ''app''" by code_simp
  obtain res s' where r: "DoQuery okEnv ptx0 ?q (newTx oneImage) = (res, s')" by (metis surj_pair)
  have "isl (fst (DoQuery okEnv ptx0 ?q (newTx oneImage))) = False" by code_simp
  then obtain repos where repos: "DoQuery okEnv ptx0 ?q (newTx oneImage) = (Inr repos, s')"
    using r by (cases res) auto
  have "failed (snd (DoQuery okEnv ptx0 ?q (newTx oneImage))) = False" by code_simp
  then have nf: "\<not> failed s'" using repos by simp
  note result = DoQuery_correct [OF wf okEnv_ok(1) query_wf_repo query_text_ok_repo [OF tx] repos nf, unfolded w]
  have tags: "sort (tagsOfDigest (imageTagT oneImage) ''d1'') = [''v1'', ''v1'']" by code_simp
  have qm: "query_matches ?q \<lparr>rowRepository = r, rowTag = g, rowImage = im\<rparr> \<longleftrightarrow> r = ''app''" for r g im
    by (simp add: query_matches_def Repository_q_def NewQuery_def terms_hold_def term_holds_def map_terms_hold_def)
  have rows: "((r, g), d) \<in> set (imageTagT oneImage) \<longleftrightarrow> r \<in> {''app'', ''lib''} \<and> g = ''v1'' \<and> d = ''d1''" for r g d
    by (auto simp: oneImage_def)
  have img: "gget (imageT oneImage) ''d1'' = Some (zeroImage\<lparr>Digest := ''d1''\<rparr>)" by (simp add: oneImage_def)
  have "imagePairs repos = {(''app'', withTags (zeroImage\<lparr>Digest := ''d1''\<rparr>) [''v1'', ''v1''])}"
    using conjunct1 [OF result] unfolding qm rows by (auto simp: img tags)
  then show ?thesis using repos by blast
qed

subsection \<open>A repository appears once, when the rows are sorted\<close>

lemma imageRows_loop_single:
  assumes "\<forall>(r, im, ts) \<in> set xs. image_wf im" "sorted (map fst xs)"
    and "res = [] \<or> (\<forall>x \<in> set xs. Name (last res) \<le> fst x)" "sorted_wrt (<) (map Name res)"
  shows "sorted_wrt (<) (map Name (imageRows_loop (imageRows xs) res))"
  using assms
proof (induction xs arbitrary: res)
  case (Cons x xs)
  obtain r im ts where x: "x = (r, im, ts)" by (metis prod_cases3)
  let ?res = "modifyLast (\<lambda>repo. repo\<lparr>Images := Images repo @ [withTags im ts]\<rparr>) (enterRepository r res)"
  have step: "imageRows_loop (imageRows (x # xs)) res = imageRows_loop (imageRows xs) ?res"
    using Cons.prems(1) by (simp add: x imageRows_def unmarshalImage_row unmarshalStrings_tags)
  have names: "map Name ?res = map Name (enterRepository r res)"
    using enterRepository_last [of r res] by (cases "enterRepository r res" rule: rev_cases) (simp_all add: modifyLast_def)
  have "sorted_wrt (<) (map Name (enterRepository r res))"
  proof (cases "res = [] \<or> r = Name (last res)")
    case True
    then show ?thesis using Cons.prems(4) by (auto simp: enterRepository_def)
  next
    case False
    then have lt: "Name (last res) < r" using Cons.prems(3) by (auto simp: x)
    have "\<forall>y \<in> set res. Name y \<le> Name (last res)"
      using Cons.prems(4) False by (cases res rule: rev_cases) (auto simp: sorted_wrt_append)
    then show ?thesis using False lt Cons.prems(4)
      by (auto simp: enterRepository_def newRepository_def sorted_wrt_append)
  qed
  moreover have "Name (last ?res) = r" using enterRepository_last [of r res] by (simp add: modifyLast_def)
  ultimately show ?case unfolding step using Cons.prems(1,2)
    by (intro Cons.IH) (auto simp: names x)
qed (simp add: imageRows_def)

lemma mergeRepos_sorted:
  assumes "sorted_wrt (<) (map Name xs)" "sorted_wrt (<) (map Name ys)"
  shows "sorted_wrt (<) (map Name (mergeRepos xs ys))"
proof -
  have names: "Name ` set (mergeRepos xs ys) = Name ` set xs \<union> Name ` set ys" for xs ys
    by (induction xs ys rule: mergeRepos.induct) auto
  have set_eq: "z \<in> set (mergeRepos a b) \<Longrightarrow> Name z \<in> Name ` set a \<union> Name ` set b" for z a b
    using names [of a b] by blast
  show ?thesis using assms
  proof (induction xs ys rule: mergeRepos.induct)
    case (1 x xs y ys)
    show ?case
    proof (cases "Name x" "Name y" rule: linorder_cases)
      case less
      then show ?thesis using 1 less_trans [OF less] by (auto dest!: set_eq)
    next
      case equal
      then show ?thesis using 1 by (auto dest!: set_eq)
    next
      case greater
      then show ?thesis using 1 less_trans [OF greater] by (auto dest!: set_eq)
    qed
  qed (auto dest!: set_eq)
qed

text \<open>
  C34. The merge of the image and the list results is right when both come sorted: the answer lists each
  repository once, in the order of names, with the images of the one and the lists of the other.
\<close>

theorem mergeRepos_correct:
  assumes "sorted_wrt (<) (map Name xs)" "sorted_wrt (<) (map Name ys)"
    and "\<forall>x \<in> set xs. Lists x = []" "\<forall>y \<in> set ys. Images y = []"
  shows "sorted_wrt (<) (map Name (mergeRepos xs ys)) \<and>
    imagePairs (mergeRepos xs ys) = imagePairs xs \<and> listPairs (mergeRepos xs ys) = listPairs ys \<and>
    Name ` set (mergeRepos xs ys) = Name ` set xs \<union> Name ` set ys"
proof -
  have "listPairs xs = {}" "imagePairs ys = {}" using assms(3,4) by (auto simp: listPairs_def imagePairs_def)
  then show ?thesis using mergeRepos_sorted [OF assms(1,2)] mergeRepos_pairs [of xs ys] by simp
qed

theorem mergeRepos_correct_witness:
  "sorted_wrt (<) (map Name (mergeRepos [newRepository ''a'', newRepository ''c''] [newRepository ''b'', newRepository ''c'']))"
  using mergeRepos_correct [of "[newRepository ''a'', newRepository ''c'']" "[newRepository ''b'', newRepository ''c'']"]
  by (simp add: newRepository_def)

text \<open>An environment in which the rows of a statement without ORDER BY come last first.\<close>

definition revEnv :: env where
  "revEnv = okEnv\<lparr>rowPerm := (\<lambda>_ _ n. rev [0..<n])\<rparr>"

definition twoRepos :: tables where
  "twoRepos = emptyTables\<lparr>imageT := [(''d1'', zeroImage\<lparr>Digest := ''d1''\<rparr>)],
     imageTagT := [((''a'', ''v1''), ''d1''), ((''b'', ''v1''), ''d1'')],
     listT := [(''l1'', zeroList\<lparr>listDigest := ''l1''\<rparr>)],
     listTagT := [((''a'', ''v2''), ''l1''), ((''b'', ''v2''), ''l1'')],
     listEntryT := [(''l1'', ''d1'')]\<rparr>"

lemma revEnv_ok: "env_ok revEnv"
  by (simp add: env_ok_def revEnv_def okEnv_def row_perm_ok_def range_order_def pg_like.like_operator_axioms)

lemma twoRepos_wf: "tables_wf twoRepos"
  by (simp add: twoRepos_def emptyTables_def tables_wf_def images_wf_def lists_wf_def tags_wf_def image_wf_def
      zeroImage_def zeroList_def)

text \<open>
  The list query has no ORDER BY although the merge takes its rows as sorted: with rows in another
  order, which SQL allows, the answer has the same repository twice.
\<close>

theorem query_repeats_repository:
  "env_ok revEnv \<and> tables_wf twoRepos \<and>
   map_sum id (map Name) (fst (DoQuery revEnv ptx0 NewQuery (newTx twoRepos))) = Inr [''a'', ''b'', ''a'']"
proof -
  have "map_sum id (map Name) (fst (DoQuery revEnv ptx0 NewQuery (newTx twoRepos))) = Inr [''a'', ''b'', ''a'']"
    by code_simp
  then show ?thesis using revEnv_ok twoRepos_wf by simp
qed

subsection \<open>The answer for one repository\<close>

lemma imageRows_loop_names:
  assumes "Name ` set res \<subseteq> {r}" "length res \<le> 1"
    and "\<forall>x \<in> set rows. fst x = r"
  shows "length (imageRows_loop rows res) \<le> 1"
  using assms
proof (induction rows res rule: imageRows_loop.induct)
  case (2 repository imageJson tgsJson rows result)
  let ?res = "enterRepository repository result"
  have r: "repository = r" using "2.prems"(3) by simp
  have one: "Name ` set ?res \<subseteq> {r}" "length ?res \<le> 1"
    using "2.prems"(1,2) unfolding enterRepository_pairs(3)
    by (cases result; auto simp: r enterRepository_def newRepository_def)+
  have last: "Name ` set (modifyLast (\<lambda>repo. repo\<lparr>Images := Images repo @ [x]\<rparr>) ?res) \<subseteq> {r}"
      "length (modifyLast (\<lambda>repo. repo\<lparr>Images := Images repo @ [x]\<rparr>) ?res) \<le> 1" for x
    using one modifyLast_pairs(5) [of ?res] enterRepository_last [of repository result] by (auto simp: modifyLast_def)
  show ?case using 2 one last by (auto simp: Let_def split: option.splits)
qed simp

lemma listRows_loop_names:
  assumes "Name ` set res \<subseteq> {r}" "length res \<le> 1"
    and "\<forall>x \<in> set rows. fst x = r"
  shows "length (listRows_loop rows res) \<le> 1"
  using assms
proof (induction rows res rule: listRows_loop.induct)
  case (2 repository listJson imagesJson tgsJson rows result)
  let ?res = "enterRepository repository result"
  have r: "repository = r" using "2.prems"(3) by simp
  have one: "Name ` set ?res \<subseteq> {r}" "length ?res \<le> 1"
    using "2.prems"(1,2) unfolding enterRepository_pairs(3)
    by (cases result; auto simp: r enterRepository_def newRepository_def)+
  have last: "Name ` set (modifyLast (\<lambda>repo. repo\<lparr>Lists := Lists repo @ [x]\<rparr>) ?res) \<subseteq> {r}"
      "length (modifyLast (\<lambda>repo. repo\<lparr>Lists := Lists repo @ [x]\<rparr>) ?res) \<le> 1" for x
    using one modifyLast_pairs(6) [of ?res] enterRepository_last [of repository result] by (auto simp: modifyLast_def)
  show ?case using 2 one last by (auto split: option.splits)
qed simp

lemma query_matches_repo: "query_matches (Repository_q r NewQuery) row \<longleftrightarrow> rowRepository row = r"
  by (simp add: query_matches_def Repository_q_def NewQuery_def terms_hold_def term_holds_def map_terms_hold_def)

lemma mergeRepos_one:
  "length xs \<le> 1 \<Longrightarrow> length ys \<le> 1 \<Longrightarrow> Name ` set xs \<subseteq> {r} \<Longrightarrow> Name ` set ys \<subseteq> {r} \<Longrightarrow>
   length (mergeRepos xs ys) \<le> 1"
  by (cases xs; cases ys) auto

text \<open>The query of \<^verbatim>\<open>updateRepositoryInDatabase\<close> answers with at most one repository.\<close>

lemma runs_DoQuery_repo:
  assumes "tables_wf (work s)" "env_ok env" "text_ok r" "runs (DoQuery env ptx (Repository_q r NewQuery)) s repos s'"
  shows "length repos \<le> 1" "Name ` set repos \<subseteq> {r}"
proof -
  let ?q = "Repository_q r NewQuery"
  note qs = query_wf_repo [of r] query_text_ok_repo [OF assms(3)]
  from assms(4) obtain res1 s1 res2 where 1: "runs (doImageQuery env ?q) s res1 s1"
    and 2: "runs (doListQuery env ?q) s1 res2 s'" and repos: "repos = map sortTags (mergeRepos res1 res2)"
    by (auto simp: DoQuery_def runs_tryM sticky_tryM sticky_ret sticky_doListQuery)
  from runs_doImageQuery [OF assms(1,2) qs 1] obtain xs where xs: "work s1 = work s" "res1 = imageRows_loop (imageRows xs) []"
    "set xs = imageAnswer (rowPerm env (stmts s)) (work s) ` {x \<in> set (joinImages (work s)). query_matches ?q (imageRow x)}"
    by blast
  from runs_doListQuery [OF assms(1) [folded xs(1)] assms(2) qs 2] xs(1) obtain ys rows where
    ys: "res2 = listRows_loop (listRows ys) []" "set rows = {x \<in> set (joinLists (work s)). query_matches ?q (listRow x)}"
      "\<forall>y \<in> set ys. listAnswer rows (work s) y"
    by auto
  have fx: "\<forall>x \<in> set (imageRows xs). fst x = r"
    by (auto simp: imageRows_def xs(3) query_matches_repo imageRow_def imageAnswer_def)
  have "fst y = r" if y: "y \<in> set ys" for y
  proof -
    obtain r' row ims ts where y': "y = (r', row, ims, ts)" by (metis prod_cases4)
    then obtain l where "set ims = {im. \<exists>g. (r', g, l, im) \<in> set rows}" "ims \<noteq> []"
      using ys(3) y by (fastforce simp: listAnswer_def)
    then have "hd ims \<in> {im. \<exists>g. (r', g, l, im) \<in> set rows}" using hd_in_set by blast
    then show ?thesis by (auto simp: y' ys(2) query_matches_repo listRow_def)
  qed
  then have fy: "\<forall>x \<in> set (listRows ys). fst x = r" by (auto simp: listRows_def)
  have l1: "length res1 \<le> 1" unfolding xs(2) by (rule imageRows_loop_names [OF _ _ fx]) simp_all
  have l2: "length res2 \<le> 1" unfolding ys(1) by (rule listRows_loop_names [OF _ _ fy]) simp_all
  show n: "Name ` set repos \<subseteq> {r}"
    unfolding runs_DoQuery(5) [OF assms(1,2) qs assms(4)] by (auto simp: query_matches_repo imageRow_def listRow_def)
  have "Name ` set (mergeRepos res1 res2) = Name ` set res1 \<union> Name ` set res2"
    by (induction res1 res2 rule: mergeRepos.induct) auto
  then have "Name ` set res1 \<subseteq> {r}" "Name ` set res2 \<subseteq> {r}"
    using n unfolding repos sortTags_pairs(3) by auto
  then show "length repos \<le> 1" unfolding repos length_map by (rule mergeRepos_one [OF l1 l2])
qed

end
