(* ===== verification/ChangeBroadcaster.thy ===== *)
theory ChangeBroadcaster
  imports Prelude
begin

section \<open>The change broadcaster (util/changebroadcaster.go)\<close>

text \<open>
  A serial number that counts changes of the database, and the goroutines that wait for it to move.
  A waiter registers an unbuffered channel and then receives from it; \<^verbatim>\<open>Change\<close> offers the new serial
  to every registered channel with a non-blocking send, which succeeds only for a channel whose
  receiver is already blocked in the receive. The serial is a \<^verbatim>\<open>uint64\<close> and wraps around.
\<close>

subsection \<open>State and operations\<close>

type_synonym chan_id = nat

datatype change = Change_struct (serial_of: "64 word")

record changeBroadcaster =
  serial :: "64 word"
  waiters :: "chan_id list"

definition NewChangeBroadcaster :: changeBroadcaster where
  "NewChangeBroadcaster = \<lparr>serial = 0, waiters = []\<rparr>"

text \<open>\<open>Change recv\<close>: \<open>recv ch\<close> says whether a receiver is blocked on \<open>ch\<close>. The result is the new
  change, the channels that took it, and the new state.\<close>

definition Change :: "(chan_id \<Rightarrow> bool) \<Rightarrow> changeBroadcaster \<Rightarrow> change \<times> chan_id list \<times> changeBroadcaster" where
  "Change recv cb =
     (let cb = cb\<lparr>serial := serial cb + 1\<rparr>;
          change = Change_struct (serial cb);
          delivered = filter recv (waiters cb)
      in (change, delivered, cb))"

definition LastChange :: "changeBroadcaster \<Rightarrow> change" where
  "LastChange cb = Change_struct (serial cb)"

definition addWaiter :: "chan_id \<Rightarrow> changeBroadcaster \<Rightarrow> changeBroadcaster" where
  "addWaiter ch cb = cb\<lparr>waiters := waiters cb @ [ch]\<rparr>"

text \<open>The loop of \<^verbatim>\<open>removeWaiter\<close>: at the first index that holds the channel, the last element moves
  into its place and the slice is shortened by one.\<close>

function swapRemove :: "chan_id \<Rightarrow> nat \<Rightarrow> chan_id list \<Rightarrow> chan_id list" where
  "swapRemove ch i ws =
     (if i < length ws
      then if ws ! i = ch then butlast (ws[i := last ws]) else swapRemove ch (Suc i) ws
      else ws)"
  by pat_completeness auto
termination
  by (relation "measure (\<lambda>(ch, i, ws). length ws - i)") auto

declare swapRemove.simps [simp del]

definition removeWaiter :: "chan_id \<Rightarrow> changeBroadcaster \<Rightarrow> changeBroadcaster" where
  "removeWaiter ch cb = cb\<lparr>waiters := swapRemove ch 0 (waiters cb)\<rparr>"

text \<open>The part of \<^verbatim>\<open>Wait\<close> and \<^verbatim>\<open>WaitTimeout\<close> under the mutex: return at once, or register the channel
  that \<^verbatim>\<open>make\<close> just made.\<close>

datatype wait_result = Returned change bool | Registered

definition Wait :: "change \<Rightarrow> chan_id \<Rightarrow> changeBroadcaster \<Rightarrow> wait_result \<times> changeBroadcaster" where
  "Wait change ch cb =
     (if serial_of change < serial cb then (Returned (Change_struct (serial cb)) True, cb)
      else (Registered, addWaiter ch cb))"

definition WaitTimeout :: "change \<Rightarrow> int \<Rightarrow> chan_id \<Rightarrow> changeBroadcaster \<Rightarrow> wait_result \<times> changeBroadcaster" where
  "WaitTimeout change timeout ch cb =
     (if serial_of change < serial cb then (Returned (Change_struct (serial cb)) True, cb)
      else if timeout \<le> 0 then (Returned (Change_struct 0) False, cb)
      else (Registered, addWaiter ch cb))"

subsection \<open>The swap-remove loop\<close>

lemma mset_butlast_update:
  assumes "i < length ws"
  shows "mset (butlast (ws[i := last ws])) = mset ws - {#ws ! i#}"
proof -
  obtain us x where ws: "ws = us @ [x]" using assms by (cases ws rule: rev_cases) auto
  show ?thesis
  proof (cases "i = length us")
    case True
    then show ?thesis by (simp add: ws)
  next
    case False
    then have "i < length us" using assms ws by simp
    then show ?thesis by (simp add: ws list_update_append nth_append mset_update)
  qed
qed

lemma mset_swapRemove: "ch \<notin> set (take i ws) \<Longrightarrow> mset (swapRemove ch i ws) = mset ws - {#ch#}"
proof (induction ch i ws rule: swapRemove.induct)
  case (1 ch i ws)
  show ?case
  proof (cases "i < length ws")
    case True
    then have "ws ! i \<noteq> ch \<Longrightarrow> ch \<notin> set (take (Suc i) ws)"
      using "1.prems" by (auto simp: take_Suc_conv_app_nth)
    then show ?thesis using "1.IH" True
      by (auto simp: swapRemove.simps [of ch i ws] mset_butlast_update)
  next
    case False
    then have "ch \<notin># mset ws" using "1.prems" by simp
    then show ?thesis using False by (simp add: swapRemove.simps [of ch i ws] diff_single_trivial)
  qed
qed

lemma waiters_removeWaiter: "mset (waiters (removeWaiter ch cb)) = mset (waiters cb) - {#ch#}"
  by (simp add: removeWaiter_def mset_swapRemove)

lemma removeWaiter_serial [simp]: "serial (removeWaiter ch cb) = serial cb"
  by (simp add: removeWaiter_def)

lemma addWaiter_simps [simp]: "serial (addWaiter ch cb) = serial cb"
  "waiters (addWaiter ch cb) = waiters cb @ [ch]"
  by (simp_all add: addWaiter_def)

subsection \<open>Goroutines that wait\<close>

text \<open>
  A waiting call, step by step: registered, mutex released, but not yet at the receive; blocked in
  the receive; offered a change or timed out, with the deferred \<^verbatim>\<open>removeWaiter\<close> still to run;
  returned. \<open>timed\<close> tells \<^verbatim>\<open>WaitTimeout\<close> from \<^verbatim>\<open>Wait\<close>. \<open>total\<close> counts the calls of \<^verbatim>\<open>Change\<close>.
\<close>

datatype wpc =
    PIdle
  | PRegistered chan_id change bool
  | PBlocked chan_id change bool
  | PGot chan_id change change
  | PExpired chan_id change
  | PDone change change bool

record bsys =
  cb :: changeBroadcaster
  pcs :: "tid \<Rightarrow> wpc"
  nextChan :: chan_id
  total :: nat

definition bsys_init :: bsys where
  "bsys_init = \<lparr>cb = NewChangeBroadcaster, pcs = (\<lambda>_. PIdle), nextChan = 0, total = 0\<rparr>"

definition receiving :: "bsys \<Rightarrow> chan_id \<Rightarrow> bool" where
  "receiving s ch \<longleftrightarrow> (\<exists>t since timed. pcs s t = PBlocked ch since timed)"

text \<open>The effect of \<^verbatim>\<open>Change\<close> on the goroutines: those whose channel took the value go on.\<close>

definition deliver :: "change \<Rightarrow> chan_id list \<Rightarrow> wpc \<Rightarrow> wpc" where
  "deliver c chs p = (case p of PBlocked ch since timed \<Rightarrow>
       if ch \<in> set chs then PGot ch since c else p | _ \<Rightarrow> p)"

definition afterWait :: "tid \<Rightarrow> change \<Rightarrow> bool \<Rightarrow> wait_result \<times> changeBroadcaster \<Rightarrow> bsys \<Rightarrow> bsys" where
  "afterWait t since timed wr s = (case wr of
       (Returned c ok, b) \<Rightarrow> s\<lparr>cb := b, pcs := (pcs s)(t := PDone since c ok)\<rparr>
     | (Registered, b) \<Rightarrow> s\<lparr>cb := b, nextChan := Suc (nextChan s),
         pcs := (pcs s)(t := PRegistered (nextChan s) since timed)\<rparr>)"

inductive bstep :: "bsys \<Rightarrow> bsys \<Rightarrow> bool" where
  change: "Change (receiving s) (cb s) = (c, chs, b) \<Longrightarrow>
    bstep s (s\<lparr>cb := b, pcs := deliver c chs \<circ> pcs s, total := Suc (total s)\<rparr>)"
| wait: "pcs s t = PIdle \<Longrightarrow> serial_of since \<le> serial (cb s) \<Longrightarrow>
    bstep s (afterWait t since False (Wait since (nextChan s) (cb s)) s)"
| wait_timeout: "pcs s t = PIdle \<Longrightarrow> serial_of since \<le> serial (cb s) \<Longrightarrow>
    bstep s (afterWait t since True (WaitTimeout since d (nextChan s) (cb s)) s)"
| block: "pcs s t = PRegistered ch since timed \<Longrightarrow>
    bstep s (s\<lparr>pcs := (pcs s)(t := PBlocked ch since timed)\<rparr>)"
| timeout: "pcs s t = PRegistered ch since True \<or> pcs s t = PBlocked ch since True \<Longrightarrow>
    bstep s (s\<lparr>pcs := (pcs s)(t := PExpired ch since)\<rparr>)"
| return: "pcs s t = PGot ch since c \<Longrightarrow>
    bstep s (s\<lparr>cb := removeWaiter ch (cb s), pcs := (pcs s)(t := PDone since c True)\<rparr>)"
| return_timeout: "pcs s t = PExpired ch since \<Longrightarrow>
    bstep s (s\<lparr>cb := removeWaiter ch (cb s), pcs := (pcs s)(t := PDone since (Change_struct 0) False)\<rparr>)"
| again: "pcs s t = PDone since c ok \<Longrightarrow> bstep s (s\<lparr>pcs := (pcs s)(t := PIdle)\<rparr>)"

inductive breach :: "bsys \<Rightarrow> bool" where
  init: "breach bsys_init"
| step: "breach s \<Longrightarrow> bstep s s' \<Longrightarrow> breach s'"


subsection \<open>The invariant\<close>

definition chan_of :: "wpc \<Rightarrow> chan_id option" where
  "chan_of p = (case p of PRegistered ch _ _ \<Rightarrow> Some ch | PBlocked ch _ _ \<Rightarrow> Some ch
     | PGot ch _ _ \<Rightarrow> Some ch | PExpired ch _ \<Rightarrow> Some ch | _ \<Rightarrow> None)"

definition pc_ok :: "nat \<Rightarrow> wpc \<Rightarrow> bool" where
  "pc_ok n p = (case p of
       PRegistered _ since _ \<Rightarrow> unat (serial_of since) \<le> n
     | PBlocked _ since _ \<Rightarrow> unat (serial_of since) \<le> n
     | PGot _ since c \<Rightarrow> unat (serial_of since) < unat (serial_of c) \<and> unat (serial_of c) \<le> n
     | PDone since c ok \<Rightarrow>
         ok \<longrightarrow> unat (serial_of since) < unat (serial_of c) \<and> unat (serial_of c) \<le> n
     | _ \<Rightarrow> True)"

definition binv :: "bsys \<Rightarrow> bool" where
  "binv s \<longleftrightarrow> distinct (waiters (cb s)) \<and>
     holders_ok (chan_of \<circ> pcs s) (set (waiters (cb s))) \<and>
     (\<forall>ch \<in> set (waiters (cb s)). ch < nextChan s) \<and>
     serial (cb s) = of_nat (total s) \<and>
     (total s < 2 ^ 64 \<longrightarrow> (\<forall>t. pc_ok (total s) (pcs s t)))"

lemma chan_of_simps [simp]:
  "chan_of PIdle = None" "chan_of (PRegistered ch since timed) = Some ch"
  "chan_of (PBlocked ch since timed) = Some ch" "chan_of (PGot ch since c) = Some ch"
  "chan_of (PExpired ch since) = Some ch" "chan_of (PDone since c ok) = None"
  by (simp_all add: chan_of_def)

lemma chan_of_deliver [simp]: "chan_of (deliver c chs p) = chan_of p"
  by (cases p) (simp_all add: deliver_def)

lemma pc_ok_mono: "pc_ok n p \<Longrightarrow> n \<le> m \<Longrightarrow> pc_ok m p"
  by (auto simp: pc_ok_def split: wpc.splits)

lemma pc_ok_deliver:
  "pc_ok n p \<Longrightarrow> unat (serial_of c) = Suc n \<Longrightarrow> pc_ok (Suc n) (deliver c chs p)"
  by (auto simp: pc_ok_def deliver_def split: wpc.splits)

lemma binv_pc_ok: "binv s \<Longrightarrow> total s < 2 ^ 64 \<Longrightarrow> pc_ok (total s) (pcs s t)"
  by (simp add: binv_def)

lemma binv_init: "binv bsys_init"
  by (simp add: binv_def bsys_init_def NewChangeBroadcaster_def comp_def holders_ok_empty pc_ok_def)

lemma unat_total: "total s < 2 ^ 64 \<Longrightarrow> unat (of_nat (total s) :: 64 word) = total s"
  by (simp add: unat_of_nat)

lemma binv_change:
  assumes "binv s" "Change (receiving s) (cb s) = (c, chs, b)"
  shows "binv (s\<lparr>cb := b, pcs := deliver c chs \<circ> pcs s, total := Suc (total s)\<rparr>)"
proof -
  have b: "serial b = of_nat (Suc (total s))" "waiters b = waiters (cb s)" "serial_of c = serial b"
    using assms by (auto simp: Change_def Let_def binv_def add.commute)
  have "chan_of \<circ> (deliver c chs \<circ> pcs s) = chan_of \<circ> pcs s" by auto
  moreover have "pc_ok (Suc (total s)) (deliver c chs (pcs s t))" if "Suc (total s) < 2 ^ 64" for t
    using assms(1) that b(1,3) unat_of_nat [of "Suc (total s)", where 'a = 64]
    by (intro pc_ok_deliver) (auto simp: binv_def)
  ultimately show ?thesis using assms(1) b by (simp add: binv_def del: of_nat_Suc)
qed

lemma binv_pc:
  assumes "binv s" "chan_of p = chan_of (pcs s t)" "total s < 2 ^ 64 \<Longrightarrow> pc_ok (total s) p"
  shows "binv (s\<lparr>pcs := (pcs s)(t := p)\<rparr>)"
proof -
  have "chan_of \<circ> (pcs s)(t := p) = chan_of \<circ> pcs s" using assms(2) by auto
  then show ?thesis using assms(1,3) by (auto simp: binv_def)
qed

lemma binv_remove:
  assumes "binv s" "chan_of (pcs s t) = Some ch" "chan_of p = None"
    "total s < 2 ^ 64 \<Longrightarrow> pc_ok (total s) p"
  shows "binv (s\<lparr>cb := removeWaiter ch (cb s), pcs := (pcs s)(t := p)\<rparr>)"
proof -
  let ?ws = "waiters (removeWaiter ch (cb s))"
  have d: "distinct (waiters (cb s))" using assms(1) by (simp add: binv_def)
  have m: "mset ?ws = mset (remove1 ch (waiters (cb s)))" by (simp add: waiters_removeWaiter)
  have "distinct ?ws" using m d mset_eq_imp_distinct_iff by (metis distinct_remove1)
  moreover have set: "set ?ws = set (waiters (cb s)) - {ch}"
    using m d mset_eq_setD by (metis set_remove1_eq)
  moreover have "holders_ok ((chan_of \<circ> pcs s)(t := None)) (set (waiters (cb s)) - {ch})"
    by (rule holders_ok_release) (use assms(1,2) in \<open>auto simp: binv_def\<close>)
  ultimately show ?thesis
    using assms(1,3,4) by (auto simp: binv_def comp_def fun_upd_def if_distrib cong: if_cong)
qed

lemma binv_afterWait:
  assumes "binv s" "pcs s t = PIdle" "serial_of since \<le> serial (cb s)"
    and "wr = Wait since (nextChan s) (cb s) \<or> wr = WaitTimeout since d (nextChan s) (cb s)"
  shows "binv (afterWait t since timed wr s)"
proof -
  consider (ret) c ok where "wr = (Returned c ok, cb s)" "ok \<Longrightarrow> serial_of since < serial (cb s) \<and> serial_of c = serial (cb s)"
    | (reg) "wr = (Registered, addWaiter (nextChan s) (cb s))"
    using assms(4) by (auto simp: Wait_def WaitTimeout_def split: if_splits)
  then show ?thesis
  proof cases
    case ret
    have "total s < 2 ^ 64 \<Longrightarrow> pc_ok (total s) (PDone since c ok)"
      using ret(2) assms(1) unat_total [of s] by (auto simp: pc_ok_def binv_def word_less_nat_alt)
    then show ?thesis using binv_pc [OF assms(1), of "PDone since c ok" t] assms(2) ret(1)
      by (simp add: afterWait_def)
  next
    case reg
    have fresh: "nextChan s \<notin> set (waiters (cb s))" using assms(1) by (auto simp: binv_def)
    have "holders_ok ((chan_of \<circ> pcs s)(t \<mapsto> nextChan s)) (insert (nextChan s) (set (waiters (cb s))))"
      by (rule holders_ok_take) (use assms(1,2) fresh in \<open>auto simp: binv_def\<close>)
    moreover have "total s < 2 ^ 64 \<Longrightarrow> pc_ok (total s) (PRegistered (nextChan s) since timed)"
      using assms(1,3) unat_total [of s] by (auto simp: pc_ok_def binv_def word_le_nat_alt)
    ultimately show ?thesis
      using assms(1) fresh
      by (auto simp: reg afterWait_def binv_def comp_def fun_upd_def if_distrib less_SucI cong: if_cong)
  qed
qed

lemma binv_step: "bstep s s' \<Longrightarrow> binv s \<Longrightarrow> binv s'"
proof (induction rule: bstep.induct)
  case (block s t ch since timed)
  then show ?case using binv_pc_ok [OF block(2), of t] by (intro binv_pc) (auto simp: pc_ok_def)
next
  case (timeout s t ch since)
  then show ?case by (intro binv_pc) (auto simp: pc_ok_def)
next
  case (return s t ch since c)
  then show ?case using binv_pc_ok [OF return(2), of t] by (intro binv_remove) (auto simp: pc_ok_def)
next
  case (return_timeout s t ch since)
  then show ?case by (intro binv_remove) (auto simp: pc_ok_def)
next
  case (again s t since c ok)
  then show ?case by (intro binv_pc) (auto simp: pc_ok_def)
qed (auto intro: binv_change binv_afterWait)

lemma breach_binv: "breach s \<Longrightarrow> binv s"
  by (induction rule: breach.induct) (auto intro: binv_init binv_step)

subsection \<open>Example runs\<close>

definition ex_lost :: bsys where
  "ex_lost = \<lparr>cb = \<lparr>serial = 1, waiters = [0]\<rparr>,
     pcs = (\<lambda>_. PIdle)(0 := PBlocked 0 (Change_struct 0) False), nextChan = 1, total = 1\<rparr>"

lemma breach_ex_registered:
  "breach \<lparr>cb = \<lparr>serial = 0, waiters = [0]\<rparr>,
     pcs = (\<lambda>_. PIdle)(0 := PRegistered 0 (Change_struct 0) False), nextChan = 1, total = 0\<rparr>"
  (is "breach ?s")
proof -
  have "bstep bsys_init (afterWait 0 (Change_struct 0) False
      (Wait (Change_struct 0) (nextChan bsys_init) (cb bsys_init)) bsys_init)"
    by (rule bstep.wait) (simp_all add: bsys_init_def)
  also have "afterWait 0 (Change_struct 0) False
      (Wait (Change_struct 0) (nextChan bsys_init) (cb bsys_init)) bsys_init = ?s"
    by (simp add: afterWait_def Wait_def bsys_init_def NewChangeBroadcaster_def addWaiter_def)
  finally show ?thesis by (rule breach.step [OF breach.init])
qed

lemma breach_ex_lost: "breach ex_lost"
proof -
  let ?r = "\<lparr>cb = \<lparr>serial = 0, waiters = [0]\<rparr>,
     pcs = (\<lambda>_. PIdle)(0 := PRegistered 0 (Change_struct 0) False), nextChan = 1, total = 0\<rparr>"
  let ?b = "\<lparr>serial = 1, waiters = [0]\<rparr>"
  let ?s = "?r\<lparr>cb := ?b, pcs := deliver (Change_struct 1) [] \<circ> pcs ?r, total := Suc (total ?r)\<rparr>"
  have "Change (receiving ?r) (cb ?r) = (Change_struct 1, [], ?b)"
    by (simp add: Change_def receiving_def)
  then have "breach ?s" by (rule breach.step [OF breach_ex_registered bstep.change])
  moreover have "bstep ?s (?s\<lparr>pcs := (pcs ?s)(0 := PBlocked 0 (Change_struct 0) False)\<rparr>)"
    by (rule bstep.block) (simp add: deliver_def)
  moreover have "?s\<lparr>pcs := (pcs ?s)(0 := PBlocked 0 (Change_struct 0) False)\<rparr> = ex_lost"
    by (auto simp: ex_lost_def deliver_def)
  ultimately show ?thesis using breach.step by metis
qed

subsection \<open>What waiting guarantees\<close>

text \<open>
  C25. A successful wait reports news: when \<^verbatim>\<open>Wait\<close> or \<^verbatim>\<open>WaitTimeout\<close> returns a change, it is newer than
  the one the caller already knew and not newer than the broadcaster's own serial, as long as the
  64-bit serial has not wrapped around.
\<close>

theorem wait_returns_newer:
  assumes "breach s" "total s < 2 ^ 64" "pcs s t = PDone since c True"
  shows "serial_of since < serial_of c \<and> serial_of c \<le> serial (cb s)"
proof -
  have "pc_ok (total s) (pcs s t)" "serial (cb s) = of_nat (total s)"
    using breach_binv [OF assms(1)] assms(2) by (auto simp: binv_def)
  then show ?thesis
    using assms(2,3) unat_total [of s] by (simp add: pc_ok_def word_less_nat_alt word_le_nat_alt)
qed

theorem wait_returns_newer_witness:
  "\<exists>s c. breach s \<and> pcs s 0 = PDone (Change_struct 0) c True \<and> serial_of (Change_struct 0) < serial_of c"
proof -
  let ?c = "Change_struct 1"
  let ?s1 = "bsys_init\<lparr>cb := \<lparr>serial = 1, waiters = []\<rparr>,
      pcs := deliver ?c [] \<circ> pcs bsys_init, total := Suc (total bsys_init)\<rparr>"
  have "Change (receiving bsys_init) (cb bsys_init) = (?c, [], \<lparr>serial = 1, waiters = []\<rparr>)"
    by (simp add: Change_def bsys_init_def NewChangeBroadcaster_def)
  then have r1: "breach ?s1" by (rule breach.step [OF breach.init bstep.change])
  let ?s2 = "afterWait 0 (Change_struct 0) False (Wait (Change_struct 0) (nextChan ?s1) (cb ?s1)) ?s1"
  have "bstep ?s1 ?s2" by (rule bstep.wait) (simp_all add: bsys_init_def deliver_def)
  then have r2: "breach ?s2" by (rule breach.step [OF r1])
  have p: "pcs ?s2 0 = PDone (Change_struct 0) ?c True" "total ?s2 < 2 ^ 64"
    by (simp_all add: afterWait_def Wait_def bsys_init_def)
  show ?thesis using wait_returns_newer [OF r2 p(2,1)] r2 p(1) by blast
qed

text \<open>
  C26. A change reaches every waiter that is blocked in its receive at that moment, and reaches it
  with the serial that \<^verbatim>\<open>Change\<close> returned.
\<close>

theorem change_wakes_blocked:
  assumes "breach s" "pcs s t = PBlocked ch since timed"
    and "Change (receiving s) (cb s) = (c, chs, b)"
  shows "deliver c chs (pcs s t) = PGot ch since c \<and> c = LastChange b \<and> serial b = serial (cb s) + 1"
proof -
  have "ch \<in> set (waiters (cb s))"
    using holders_ok_mem [of "chan_of \<circ> pcs s" _ t ch] breach_binv [OF assms(1)] assms(2)
    by (auto simp: binv_def)
  moreover have "receiving s ch" using assms(2) by (auto simp: receiving_def)
  ultimately show ?thesis
    using assms(2,3) by (auto simp: Change_def Let_def LastChange_def deliver_def)
qed

theorem change_wakes_blocked_witness:
  "deliver (Change_struct 2) [0] (pcs ex_lost 0) = PGot 0 (Change_struct 0) (Change_struct 2)"
proof -
  have "receiving ex_lost = (\<lambda>ch. ch = 0)"
    by (auto simp: receiving_def ex_lost_def fun_eq_iff)
  then have C: "Change (receiving ex_lost) (cb ex_lost) = (Change_struct 2, [0], \<lparr>serial = 2, waiters = [0]\<rparr>)"
    by (simp add: Change_def ex_lost_def)
  have p: "pcs ex_lost 0 = PBlocked 0 (Change_struct 0) False" by (simp add: ex_lost_def)
  show ?thesis by (rule conjunct1 [OF change_wakes_blocked [OF breach_ex_lost p C]])
qed

text \<open>
  C27. Registrations do not leak: the registered channels are exactly those of the calls in progress,
  each once, so the list is empty again when no call is in progress.
\<close>

theorem waiters_exact:
  assumes "breach s"
  shows "distinct (waiters (cb s)) \<and> set (waiters (cb s)) = {ch. \<exists>t. chan_of (pcs s t) = Some ch}"
  using breach_binv [OF assms] by (auto simp: binv_def holders_ok_def ran_def)

theorem waiters_exact_witness: "set (waiters (cb ex_lost)) = {ch. \<exists>t. chan_of (pcs ex_lost t) = Some ch}"
  using waiters_exact [OF breach_ex_lost] by simp

text \<open>
  \<^verbatim>\<open>removeWaiter\<close> removes one registration of the channel, keeps all others, and changes nothing when
  the channel is not registered.
\<close>

theorem removeWaiter_removes:
  "mset (waiters (removeWaiter ch b)) = mset (waiters b) - {#ch#} \<and>
   serial (removeWaiter ch b) = serial b"
  by (simp add: waiters_removeWaiter)

subsection \<open>Changes that are missed\<close>

definition stuck :: "chan_id \<Rightarrow> change \<Rightarrow> wpc \<Rightarrow> bool" where
  "stuck ch since p \<longleftrightarrow> p = PRegistered ch since False \<or> p = PBlocked ch since False"

text \<open>Until the next call of \<^verbatim>\<open>Change\<close>, no step takes a registered \<^verbatim>\<open>Wait\<close> further than its receive.\<close>

lemma stuck_step: "bstep s s' \<Longrightarrow> stuck ch since (pcs s t) \<Longrightarrow> total s' = total s \<Longrightarrow> stuck ch since (pcs s' t)"
  by (cases rule: bstep.cases)
    (auto simp: stuck_def afterWait_def split: prod.splits wait_result.splits if_splits)

lemma bstep_total: "bstep s s' \<Longrightarrow> total s \<le> total s'"
  by (induction rule: bstep.induct) (auto simp: afterWait_def split: prod.split wait_result.split)

lemma bsteps_total: "bstep\<^sup>*\<^sup>* s s' \<Longrightarrow> total s \<le> total s'"
  by (induction rule: rtranclp_induct) (auto dest: bstep_total)

lemma stuck_steps: "bstep\<^sup>*\<^sup>* s s' \<Longrightarrow> stuck ch since (pcs s t) \<Longrightarrow> total s' = total s \<Longrightarrow> stuck ch since (pcs s' t)"
proof (induction rule: rtranclp_induct)
  case (step u v)
  then have "total u = total s" "total v = total u" using bsteps_total [OF step(1)] bstep_total [OF step(2)] by simp_all
  then show ?case using step stuck_step [of u v ch since t] by simp
qed

text \<open>
  C33. A change can be missed. Between releasing the mutex and blocking in the receive a registered \<^verbatim>\<open>Wait\<close> is not ready for the
  non-blocking send: a \<^verbatim>\<open>Change\<close> in that window is not delivered to it, although its serial is newer than the one the call waits on, and
  from then on, in every continuation in which \<^verbatim>\<open>Change\<close> is not called again, the call does not return.
\<close>

theorem change_can_be_missed:
  assumes "breach s" "Suc (total s) < 2 ^ 64" "pcs s t = PRegistered ch since False"
    and "Change (receiving s) (cb s) = (c, chs, b)"
    and "s' = s\<lparr>cb := b, pcs := deliver c chs \<circ> pcs s, total := Suc (total s)\<rparr>"
  shows "breach s' \<and> ch \<notin> set chs \<and> pcs s' t = PRegistered ch since False \<and> serial_of since < serial_of c \<and>
    (\<forall>u. bstep\<^sup>*\<^sup>* s' u \<longrightarrow> total u = total s' \<longrightarrow>
       (pcs u t = PRegistered ch since False \<or> pcs u t = PBlocked ch since False) \<and> serial_of since < serial (cb u))"
proof -
  have r: "breach s'" unfolding assms(5) by (rule breach.step [OF assms(1) bstep.change [OF assms(4)]])
  have p: "pcs s' t = PRegistered ch since False" by (simp add: assms(3,5) deliver_def)
  have "pc_ok (total s) (pcs s t)" using binv_pc_ok [OF breach_binv [OF assms(1)]] assms(2) by simp
  then have since: "unat (serial_of since) \<le> total s" by (simp add: assms(3) pc_ok_def)
  have serial: "unat (serial (cb u)) = total u" if "breach u" "total u < 2 ^ 64" for u
    using breach_binv [OF that(1)] unat_total [OF that(2)] by (simp add: binv_def)
  have c: "serial_of c = serial (cb s')" using assms(4) by (auto simp: assms(5) Change_def Let_def)
  have tot: "total s' = Suc (total s)" by (simp add: assms(5))
  have less: "serial_of since < serial (cb u)" if "breach u" "total u = total s'" for u
    using serial [OF that(1)] that(2) since assms(2) tot by (simp add: word_less_nat_alt)
  have nd: "ch \<notin> set chs"
  proof
    assume "ch \<in> set chs"
    then have "receiving s ch" using assms(4) by (auto simp: Change_def Let_def)
    then obtain t' since' timed where t': "pcs s t' = PBlocked ch since' timed" by (auto simp: receiving_def)
    then have "t' = t" using breach_binv [OF assms(1)] assms(3) holders_ok_unique [of "chan_of \<circ> pcs s" _ t' ch t] by (auto simp: binv_def)
    then show False using t' assms(3) by simp
  qed
  have reach: "breach u" if "bstep\<^sup>*\<^sup>* s' u" for u
    using that r by (induction rule: rtranclp_induct) (auto intro: breach.step)
  have "stuck ch since (pcs u t)" if "bstep\<^sup>*\<^sup>* s' u" "total u = total s'" for u
    by (rule stuck_steps [OF that(1) _ that(2)]) (simp add: p stuck_def)
  then show ?thesis using r nd p less [OF r] c less reach by (auto simp: stuck_def)
qed

theorem change_can_be_missed_witness:
  "\<exists>s u. breach s \<and> bstep\<^sup>*\<^sup>* s u \<and> pcs u 0 = PBlocked 0 (Change_struct 0) False \<and> serial_of (Change_struct 0) < serial (cb u)"
proof -
  let ?r = "\<lparr>cb = \<lparr>serial = 0, waiters = [0]\<rparr>,
     pcs = (\<lambda>_. PIdle)(0 := PRegistered 0 (Change_struct 0) False), nextChan = 1, total = 0\<rparr>"
  let ?b = "\<lparr>serial = 1, waiters = [0]\<rparr>"
  let ?s = "?r\<lparr>cb := ?b, pcs := deliver (Change_struct 1) [] \<circ> pcs ?r, total := Suc (total ?r)\<rparr>"
  have C: "Change (receiving ?r) (cb ?r) = (Change_struct 1, [], ?b)" by (simp add: Change_def receiving_def)
  have p: "pcs ?r 0 = PRegistered 0 (Change_struct 0) False" "Suc (total ?r) < 2 ^ 64" by simp_all
  note m = change_can_be_missed [OF breach_ex_registered p(2,1) C refl]
  have "bstep ?s (?s\<lparr>pcs := (pcs ?s)(0 := PBlocked 0 (Change_struct 0) False)\<rparr>)"
    by (rule bstep.block) (simp add: deliver_def)
  then have b: "bstep\<^sup>*\<^sup>* ?s (?s\<lparr>pcs := (pcs ?s)(0 := PBlocked 0 (Change_struct 0) False)\<rparr>)" by blast
  then have "serial_of (Change_struct 0) < serial (cb (?s\<lparr>pcs := (pcs ?s)(0 := PBlocked 0 (Change_struct 0) False)\<rparr>))"
    using m by simp
  then show ?thesis using m b by (intro exI [of _ ?s] exI [of _ "?s\<lparr>pcs := (pcs ?s)(0 := PBlocked 0 (Change_struct 0) False)\<rparr>"]) simp
qed

end
