(* ===== verification/FetchImage.thy ===== *)
theory FetchImage
  imports QueryResults ChangeBroadcaster
begin

section \<open>Reading a repository of the registry (fetcher/fetcher.go)\<close>

text \<open>
  The registry client is third-party code: a \<open>repoClient\<close> is what it answers for one repository. A
  manifest is one of the types the client decodes; a blob is the JSON value its bytes denote, or nothing
  when they are not JSON. The functions here only read; they return what they read or the first error.
\<close>

datatype manifest =
    Schema2 string string
  | OCIManifest string "string gomap" string
  | ManifestList string "string list"
  | OtherManifest

record descriptor =
  descMediaType :: string
  descDigest :: string

record repoClient =
  tagsAll :: "error + string list"
  tagsGet :: "string \<Rightarrow> error + descriptor"
  manifestsService :: "error + unit"
  manifestGet :: "string \<Rightarrow> error + manifest"
  blobGet :: "string \<Rightarrow> error + json option"

record registry =
  parseNamed :: "string \<Rightarrow> error + string"
  newRepositoryClient :: "string \<Rightarrow> error + repoClient"

record fetchOperation =
  opName :: string
  opClient :: repoClient

definition newFetchOperation :: "registry \<Rightarrow> string \<Rightarrow> error + fetchOperation" where
  "newFetchOperation reg repo =
     (case parseNamed reg repo of Inl e \<Rightarrow> Inl e
      | Inr ref \<Rightarrow> (case newRepositoryClient reg ref of Inl e \<Rightarrow> Inl e
        | Inr client \<Rightarrow> (case manifestsService client of Inl e \<Rightarrow> Inl e
          | Inr _ \<Rightarrow> Inr \<lparr>opName = ref, opClient = client\<rparr>)))"

subsection \<open>Images\<close>

text \<open>\<^verbatim>\<open>json.Unmarshal(bytes, &config)\<close> into a \<^verbatim>\<open>map[string]interface{}\<close>: a null leaves no entries.\<close>

fun decodeConfig :: "json option \<Rightarrow> error + json gomap" where
  "decodeConfig (Some (JObj es)) = Inr (fold (\<lambda>(k, v). gset k v) es [])"
| "decodeConfig (Some JNull) = Inr []"
| "decodeConfig _ = Inl InvalidJson"

text \<open>The type assertions \<^verbatim>\<open>.(string)\<close> and \<^verbatim>\<open>.(map[string]interface{})\<close>.\<close>

fun asString :: "json option \<Rightarrow> string option" where
  "asString (Some (JStr s)) = Some s"
| "asString _ = None"

fun asObject :: "json option \<Rightarrow> json gomap option" where
  "asObject (Some (JObj es)) = Some (fold (\<lambda>(k, v). gset k v) es [])"
| "asObject _ = None"

text \<open>What the image takes from its config blob, and the label map it finds there.\<close>

definition readConfig :: "repoClient \<Rightarrow> string \<Rightarrow> Image \<Rightarrow> error + Image \<times> json gomap option" where
  "readConfig client cfg im =
     (case blobGet client cfg of Inl e \<Rightarrow> Inl e
      | Inr bytes \<Rightarrow> (case decodeConfig bytes of Inl e \<Rightarrow> Inl e
        | Inr config \<Rightarrow>
            (let im = (case asString (gget config ''architecture'') of Some a \<Rightarrow> im\<lparr>Architecture := a\<rparr> | None \<Rightarrow> im);
                 im = (case asString (gget config ''os'') of Some os \<Rightarrow> im\<lparr>OS := os\<rparr> | None \<Rightarrow> im);
                 labelMap = (case asObject (gget config ''config'') of None \<Rightarrow> None
                   | Some entry \<Rightarrow> asObject (gget entry ''Labels''))
             in Inr (im, labelMap))))"

fun copyMap :: "string gomap \<Rightarrow> string list \<Rightarrow> string gomap \<Rightarrow> string gomap" where
  "copyMap src [] dst = dst"
| "copyMap src (k # ks) dst = copyMap src ks (gset k (gget0 '''' src k) dst)"

fun copyLabels :: "json gomap \<Rightarrow> string list \<Rightarrow> string gomap \<Rightarrow> string gomap" where
  "copyLabels src [] dst = dst"
| "copyLabels src (k # ks) dst = (case asString (gget src k) of
     Some v \<Rightarrow> copyLabels src ks (gset k v dst) | None \<Rightarrow> copyLabels src ks dst)"

definition fetchImage :: "(nat \<Rightarrow> string list \<Rightarrow> string list) \<Rightarrow> repoClient \<Rightarrow> string \<Rightarrow> Image \<Rightarrow> error + Image" where
  "fetchImage ord client dgst im =
     (case manifestGet client dgst of
        Inl e \<Rightarrow> Inl e
      | Inr mfst \<Rightarrow>
          (let im = im\<lparr>Digest := dgst, Annotations := [], Labels := []\<rparr>;
               read = (case mfst of
                   Schema2 mediaType cfg \<Rightarrow> readConfig client cfg (im\<lparr>MediaType := mediaType\<rparr>)
                 | OCIManifest mediaType annotations cfg \<Rightarrow>
                     readConfig client cfg (im\<lparr>MediaType := mediaType,
                       Annotations := copyMap annotations (ord 0 (gkeys annotations)) (Annotations im)\<rparr>)
                 | _ \<Rightarrow> Inl UnhandledManifest)
           in case read of
                Inl e \<Rightarrow> Inl e
              | Inr (im, None) \<Rightarrow> Inr im
              | Inr (im, Some labels) \<Rightarrow> Inr (im\<lparr>Labels := copyLabels labels (ord 1 (gkeys labels)) (Labels im)\<rparr>)))"

subsection \<open>Lists\<close>

fun fetchImages :: "(nat \<Rightarrow> string list \<Rightarrow> string list) \<Rightarrow> repoClient \<Rightarrow> string list \<Rightarrow> Image list \<Rightarrow> error + Image list" where
  "fetchImages ord client [] ims = Inr ims"
| "fetchImages ord client (d # ds) ims =
     (case fetchImage ord client d zeroImage of Inl e \<Rightarrow> Inl e
      | Inr im \<Rightarrow> fetchImages ord client ds (ims @ [im]))"

definition fetchImageList ::
    "(nat \<Rightarrow> string list \<Rightarrow> string list) \<Rightarrow> repoClient \<Rightarrow> string \<Rightarrow> ImageList \<Rightarrow> error + ImageList" where
  "fetchImageList ord client dgst l =
     (case manifestGet client dgst of
        Inl e \<Rightarrow> Inl e
      | Inr (ManifestList mediaType manifests) \<Rightarrow>
          (let l = l\<lparr>listDigest := dgst, listAnnotations := [], listMediaType := mediaType\<rparr>
           in case fetchImages ord client manifests (listImages l) of
                Inl e \<Rightarrow> Inl e
              | Inr ims \<Rightarrow> Inr (l\<lparr>listImages := ims\<rparr>))
      | Inr _ \<Rightarrow> Inl UnhandledManifest)"

subsection \<open>Tags\<close>

definition imageMediaTypes :: "string list" where
  "imageMediaTypes = [''application/vnd.docker.distribution.manifest.v2+json'',
     ''application/vnd.oci.image.manifest.v1+json'']"

definition listMediaTypes :: "string list" where
  "listMediaTypes = [''application/vnd.docker.distribution.manifest.list.v2+json'',
     ''application/vnd.oci.image.index.v1+json'']"

fun getTags_loop ::
    "repoClient \<Rightarrow> string list \<Rightarrow> string gomap \<Rightarrow> string gomap \<Rightarrow> error + string gomap \<times> string gomap" where
  "getTags_loop client [] imageTags tgs = Inr (imageTags, tgs)"
| "getTags_loop client (tag # tags) imageTags tgs =
     (case tagsGet client tag of
        Inl e \<Rightarrow> Inl e
      | Inr desc \<Rightarrow>
          if descMediaType desc \<in> set imageMediaTypes
          then getTags_loop client tags (gset tag (descDigest desc) imageTags) tgs
          else if descMediaType desc \<in> set listMediaTypes
          then getTags_loop client tags imageTags (gset tag (descDigest desc) tgs)
          else getTags_loop client tags imageTags tgs)"

definition getTagsFromRegistry :: "repoClient \<Rightarrow> error + string gomap \<times> string gomap" where
  "getTagsFromRegistry client =
     (case tagsAll client of Inl e \<Rightarrow> Inl e | Inr allTags \<Rightarrow> getTags_loop client allTags [] [])"

text \<open>\<^verbatim>\<open>stringsEqual\<close> compares lengths first and then element by element.\<close>

fun stringsEqual_loop :: "string list \<Rightarrow> string list \<Rightarrow> nat \<Rightarrow> nat \<Rightarrow> bool" where
  "stringsEqual_loop a b i 0 = True"
| "stringsEqual_loop a b i (Suc n) = (if a ! i \<noteq> b ! i then False else stringsEqual_loop a b (Suc i) n)"

definition stringsEqual :: "string list \<Rightarrow> string list \<Rightarrow> bool" where
  "stringsEqual a b = (if length a \<noteq> length b then False else stringsEqual_loop a b 0 (length a))"

subsection \<open>What is read\<close>

lemma stringsEqual_iff: "stringsEqual a b \<longleftrightarrow> a = b"
proof -
  have "stringsEqual_loop a b i n \<longleftrightarrow> (\<forall>j. i \<le> j \<and> j < i + n \<longrightarrow> a ! j = b ! j)" for i n
  proof (induction n arbitrary: i)
    case (Suc n)
    have "(\<forall>j. i \<le> j \<and> j < i + Suc n \<longrightarrow> a ! j = b ! j) \<longleftrightarrow>
        a ! i = b ! i \<and> (\<forall>j. Suc i \<le> j \<and> j < Suc i + n \<longrightarrow> a ! j = b ! j)"
      by (auto simp: Suc_le_eq) (metis nat_less_le)
    then show ?case using Suc by simp
  qed auto
  then show ?thesis by (auto simp: stringsEqual_def list_eq_iff_nth_eq)
qed

text \<open>What the registry says a tag names: the image or list digest, or neither.\<close>

definition tagTarget :: "string list \<Rightarrow> repoClient \<Rightarrow> string \<Rightarrow> string option" where
  "tagTarget types client tag = (case tagsGet client tag of
     Inr desc \<Rightarrow> if descMediaType desc \<in> set types then Some (descDigest desc) else None | Inl _ \<Rightarrow> None)"

lemma media_disjoint: "m \<in> set imageMediaTypes \<Longrightarrow> m \<notin> set listMediaTypes"
  by (auto simp: imageMediaTypes_def listMediaTypes_def)

lemma getTags_loop_spec:
  "getTags_loop client tags im li = Inr (im', li') \<Longrightarrow>
   (\<forall>g. gget im' g = (case tagTarget imageMediaTypes client g of Some d \<Rightarrow> if g \<in> set tags then Some d else gget im g
     | None \<Rightarrow> gget im g)) \<and>
   (\<forall>g. gget li' g = (case tagTarget listMediaTypes client g of Some d \<Rightarrow> if g \<in> set tags then Some d else gget li g
     | None \<Rightarrow> gget li g)) \<and> (gomap_wf im \<longrightarrow> gomap_wf im') \<and> (gomap_wf li \<longrightarrow> gomap_wf li')"
proof (induction tags arbitrary: im li)
  case Nil
  then show ?case by (auto split: option.splits)
next
  case (Cons tag tags)
  obtain desc where d: "tagsGet client tag = Inr desc" using Cons.prems by (cases "tagsGet client tag") auto
  consider "descMediaType desc \<in> set imageMediaTypes" "descMediaType desc \<notin> set listMediaTypes"
    | "descMediaType desc \<notin> set imageMediaTypes" "descMediaType desc \<in> set listMediaTypes"
    | "descMediaType desc \<notin> set imageMediaTypes" "descMediaType desc \<notin> set listMediaTypes"
    using media_disjoint by blast
  then show ?case
  proof cases
    case 1
    then show ?thesis using Cons.prems Cons.IH [of "gset tag (descDigest desc) im" li] d
      by (auto simp: tagTarget_def distinct_update split: option.splits sum.splits)
  next
    case 2
    then show ?thesis using Cons.prems Cons.IH [of im "gset tag (descDigest desc) li"] d
      by (auto simp: tagTarget_def distinct_update split: option.splits sum.splits)
  next
    case 3
    then show ?thesis using Cons.prems Cons.IH [of im li] d
      by (auto simp: tagTarget_def split: option.splits sum.splits)
  qed
qed

end
