(* ===== verification/UpdateRepository.thy ===== *)
theory UpdateRepository
  imports FetchImage
begin

section \<open>Bringing a repository up to date (fetcher/fetcher.go)\<close>

text \<open>
  \<^verbatim>\<open>updateRepositoryInDatabase\<close> compares what the registry says of a repository with the answer of a query
  and makes the database agree; \<^verbatim>\<open>fetchRepository\<close> wraps it in a transaction. The code runs the same two
  loops for images and for lists; they are one function here, with what differs as arguments. The change
  broadcaster is part of the state: the update announces a change before the transaction is committed.
\<close>

subsection \<open>The loops\<close>

text \<open>\<^verbatim>\<open>newImages[dgst] = append(newImages[dgst], tag)\<close> for every tag.\<close>

fun groupTags :: "string gomap \<Rightarrow> string list \<Rightarrow> string list gomap \<Rightarrow> string list gomap" where
  "groupTags m [] acc = acc"
| "groupTags m (tag # ks) acc =
     (let dgst = gget0 '''' m tag in groupTags m ks (gset dgst (gget0 [] acc dgst @ [tag]) acc))"

text \<open>The loop over the new digests: fetch and store what the database does not have, set the tags that
  differ. It returns the old entries it did not meet and whether anything changed.\<close>

fun updateTargets ::
    "(string \<Rightarrow> string list \<Rightarrow> error + 'a) \<Rightarrow> ('a \<Rightarrow> (sqlTx, unit) op) \<Rightarrow> (string \<Rightarrow> string list \<Rightarrow> (sqlTx, unit) op) \<Rightarrow>
     ('a \<Rightarrow> string list) \<Rightarrow> string list gomap \<Rightarrow> string list \<Rightarrow> 'a gomap \<Rightarrow> bool \<Rightarrow> (sqlTx, 'a gomap \<times> bool) op" where
  "updateTargets fetchT storeT setT tagsOf new [] old changed = ret (old, changed)"
| "updateTargets fetchT storeT setT tagsOf new (dgst # ks) old changed =
     (let newTags = sort (gget0 [] new dgst)
      in case gget old dgst of
           None \<Rightarrow> (case fetchT dgst newTags of
               Inl e \<Rightarrow> throw e
             | Inr x \<Rightarrow> tryM (storeT x) (\<lambda>_.
                 updateTargets fetchT storeT setT tagsOf new ks (gdel dgst old) True))
         | Some y \<Rightarrow>
             if \<not> stringsEqual (tagsOf y) newTags
             then tryM (setT dgst newTags) (\<lambda>_.
                    updateTargets fetchT storeT setT tagsOf new ks (gdel dgst old) True)
             else updateTargets fetchT storeT setT tagsOf new ks (gdel dgst old) changed)"

text \<open>The loop over what is left; the error of a deletion is ignored.\<close>

fun deleteTargets :: "(string \<Rightarrow> (sqlTx, unit) op) \<Rightarrow> string list \<Rightarrow> bool \<Rightarrow> (sqlTx, bool) op" where
  "deleteTargets deleteT [] changed = ret changed"
| "deleteTargets deleteT (dgst # ks) changed =
     (\<lambda>s. let (_, s') = deleteT dgst s in deleteTargets deleteT ks True s')"

definition fetchTaggedImage ::
    "(nat \<Rightarrow> string list \<Rightarrow> string list) \<Rightarrow> repoClient \<Rightarrow> string \<Rightarrow> string list \<Rightarrow> error + TaggedImage" where
  "fetchTaggedImage ord client dgst tags =
     (case fetchImage ord client dgst zeroImage of Inl e \<Rightarrow> Inl e | Inr im \<Rightarrow> Inr (withTags im tags))"

definition fetchTaggedList ::
    "(nat \<Rightarrow> string list \<Rightarrow> string list) \<Rightarrow> repoClient \<Rightarrow> string \<Rightarrow> string list \<Rightarrow> error + TaggedImageList" where
  "fetchTaggedList ord client dgst tags =
     (case fetchImageList ord client dgst zeroList of Inl e \<Rightarrow> Inl e | Inr l \<Rightarrow> Inr (listWithTags l tags))"

fun byDigest :: "('a \<Rightarrow> string) \<Rightarrow> 'a list \<Rightarrow> 'a gomap \<Rightarrow> 'a gomap" where
  "byDigest digestOf [] m = m"
| "byDigest digestOf (x # xs) m = byDigest digestOf xs (gset (digestOf x) x m)"

definition updateImages ::
    "env \<Rightarrow> postgresTransaction \<Rightarrow> repoClient \<Rightarrow> string \<Rightarrow> string gomap \<Rightarrow> TaggedImage gomap \<Rightarrow> bool \<Rightarrow> (sqlTx, bool) op" where
  "updateImages env ptx client repo imageTags oldImages changed = (\<lambda>s.
     let newImages = groupTags imageTags (loopOrd env s 2 (gkeys imageTags)) []
     in tryM (updateTargets (fetchTaggedImage (loopOrd env s) client) (StoreImage env ptx repo) (SetImageTags env ptx repo)
               Tags newImages (loopOrd env s 3 (gkeys newImages)) oldImages changed) (\<lambda>(oldImages, changed). (\<lambda>s.
          deleteTargets (DeleteImage env ptx repo) (loopOrd env s 4 (gkeys oldImages)) changed s)) s)"

definition updateLists ::
    "env \<Rightarrow> postgresTransaction \<Rightarrow> repoClient \<Rightarrow> string \<Rightarrow> string gomap \<Rightarrow> TaggedImageList gomap \<Rightarrow> bool \<Rightarrow> (sqlTx, bool) op" where
  "updateLists env ptx client repo tgs oldLists changed = (\<lambda>s.
     let newLists = groupTags tgs (loopOrd env s 5 (gkeys tgs)) []
     in tryM (updateTargets (fetchTaggedList (loopOrd env s) client) (StoreImageList env ptx repo) (SetImageListTags env ptx repo)
               listTags newLists (loopOrd env s 6 (gkeys newLists)) oldLists changed) (\<lambda>(oldLists, changed). (\<lambda>s.
          deleteTargets (DeleteImageList env ptx repo) (loopOrd env s 7 (gkeys oldLists)) changed s)) s)"

text \<open>All of \<^verbatim>\<open>updateRepositoryInDatabase\<close> up to the announcement.\<close>

definition updateTags ::
    "env \<Rightarrow> postgresTransaction \<Rightarrow> fetchOperation \<Rightarrow> string gomap \<Rightarrow> string gomap \<Rightarrow> (sqlTx, bool) op" where
  "updateTags env ptx fop imageTags tgs =
     (let repo = opName fop
      in tryM (DoQuery env ptx (Repository_q repo NewQuery)) (\<lambda>repositories.
         let oldImages = (if length repositories > 0 then byDigest Digest (Images (repositories ! 0)) [] else []);
             oldLists = (if length repositories > 0 then byDigest listDigest (Lists (repositories ! 0)) [] else [])
         in tryM (updateImages env ptx (opClient fop) repo imageTags oldImages False) (\<lambda>changed.
            updateLists env ptx (opClient fop) repo tgs oldLists changed)))"

subsection \<open>The transaction\<close>

text \<open>\<^verbatim>\<open>f.changes.Change()\<close>; \<open>recv\<close> says which channels have a receiver.\<close>

definition announce :: "(chan_id \<Rightarrow> bool) \<Rightarrow> changeBroadcaster \<Rightarrow> changeBroadcaster" where
  "announce recv bc = snd (snd (Change recv bc))"

definition updateRepositoryInDatabase ::
    "env \<Rightarrow> (chan_id \<Rightarrow> bool) \<Rightarrow> postgresTransaction \<Rightarrow> fetchOperation \<Rightarrow> string gomap \<Rightarrow> string gomap \<Rightarrow>
     (sqlTx \<times> changeBroadcaster, unit) op" where
  "updateRepositoryInDatabase env recv ptx fop imageTags tgs st =
     (case st of (s, bc) \<Rightarrow> (case updateTags env ptx fop imageTags tgs s of
        (Inl e, s') \<Rightarrow> (Inl e, (s', bc))
      | (Inr changed, s') \<Rightarrow> (Inr (), (s', if changed then announce recv bc else bc))))"

definition checkModification :: "(chan_id \<Rightarrow> bool) \<Rightarrow> postgresTransaction \<Rightarrow> changeBroadcaster \<Rightarrow> changeBroadcaster" where
  "checkModification recv ptx bc = (let (modified, _) = Modified ptx in if modified then announce recv bc else bc)"

definition fetchRepository ::
    "env \<Rightarrow> (chan_id \<Rightarrow> bool) \<Rightarrow> registry \<Rightarrow> string \<Rightarrow> tables \<Rightarrow> changeBroadcaster \<Rightarrow> (error + unit) \<times> tables \<times> changeBroadcaster" where
  "fetchRepository env recv reg repo db bc =
     (case newFetchOperation reg repo of
        Inl e \<Rightarrow> (Inl e, db, bc)
      | Inr fop \<Rightarrow> (case getTagsFromRegistry (opClient fop) of
        Inl e \<Rightarrow> (Inl e, db, bc)
      | Inr (imageTags, tgs) \<Rightarrow> (case Begin env db of
        Inl e \<Rightarrow> (Inl e, db, bc)
      | Inr (ptx, s) \<Rightarrow> (case updateRepositoryInDatabase env recv ptx fop imageTags tgs (s, bc) of
        (Inl e, (s', bc')) \<Rightarrow> (let (_, s'', db') = Rollback ptx s' db in (Inl e, db', bc'))
      | (Inr _, (s', bc')) \<Rightarrow> (case Commit env ptx s' db of
        (Inl e, s'', db') \<Rightarrow> (Inl e, db', bc')
      | (Inr _, s'', db') \<Rightarrow> (Inr (), db', checkModification recv ptx bc'))))))"

definition garbageCollect :: "env \<Rightarrow> tables \<Rightarrow> (error + unit) \<times> tables" where
  "garbageCollect env db =
     (case Begin env db of
        Inl e \<Rightarrow> (Inl e, db)
      | Inr (ptx, s) \<Rightarrow> (case DeleteUnused env ptx s of
        (Inl e, s') \<Rightarrow> (let (_, s'', db') = Rollback ptx s' db in (Inl e, db'))
      | (Inr _, s') \<Rightarrow> (case Commit env ptx s' db of (res, s'', db') \<Rightarrow> (res, db'))))"

subsection \<open>Grouping tags\<close>

lemma groupTags_get:
  "gget0 [] (groupTags m ks acc) d = gget0 [] acc d @ filter (\<lambda>g. gget0 '''' m g = d) ks"
proof (induction ks arbitrary: acc)
  case (Cons g ks)
  then show ?case by (auto simp: Let_def gget0_def)
qed simp

lemma groupTags_keys:
  "set (gkeys (groupTags m ks acc)) = set (gkeys acc) \<union> gget0 '''' m ` set ks"
  by (induction ks arbitrary: acc) (auto simp: Let_def dom_update)

lemma byDigest_get:
  "gget (byDigest digestOf xs m) d = (case filter (\<lambda>x. digestOf x = d) xs of [] \<Rightarrow> gget m d
     | ys \<Rightarrow> Some (last ys))"
proof (induction xs arbitrary: m)
  case (Cons x xs)
  then show ?case by (auto split: list.splits)
qed simp

lemma byDigest_some: "gget (byDigest digestOf xs []) d = Some x \<Longrightarrow> x \<in> set xs \<and> digestOf x = d"
proof -
  assume a: "gget (byDigest digestOf xs []) d = Some x"
  then have "filter (\<lambda>x. digestOf x = d) xs \<noteq> [] \<and> x = last (filter (\<lambda>x. digestOf x = d) xs)"
    unfolding byDigest_get by (auto split: list.splits)
  then have "x \<in> set (filter (\<lambda>x. digestOf x = d) xs)" using last_in_set by blast
  then show ?thesis by simp
qed

lemma byDigest_none: "gget (byDigest digestOf xs []) d = None \<longleftrightarrow> d \<notin> digestOf ` set xs"
  unfolding byDigest_get
  by (cases "filter (\<lambda>x. digestOf x = d) xs = []") (auto simp: filter_empty_conv split: list.splits)

end
