(* ===== verification/HttpUtil.thy ===== *)
theory HttpUtil
  imports IfMatch UpdateRepository
begin

section \<open>Requests, responses and their headers (web/httputil.go, config.go)\<close>

text \<open>
  A handler takes a request and a response writer and returns the writer. The first \<^verbatim>\<open>WriteHeader\<close> fixes the status and
  the headers; what is set later is not sent. \<open>webEnv\<close> holds what the handlers take from elsewhere: the
  database's environment, the build identifier, how an error and a time are printed.
\<close>

subsection \<open>Configuration\<close>

record Duration =
  durValue :: int

record Config =
  registryUrl :: string
  registryPublicUrl :: string
  componentsWebUI :: bool
  componentsAssertEndpoint :: bool
  eventsToken :: string
  databasePostgresUrl :: string
  cacheMaxAgeIndex :: Duration
  cacheMaxAgeHtml :: Duration
  intervalFetchAll :: Duration
  intervalGarbageCollect :: Duration

subsection \<open>Requests and responses\<close>

record request =
  reqMethod :: string
  reqHeader :: "string list gomap"
  reqForm :: "string list gomap"
  reqURLQuery :: "string list gomap"

datatype chunk = TextBody string | JsonBody json | HtmlBody "Repository list"

record response =
  respHeader :: "string gomap"
  respStatus :: "nat option"
  respBody :: "chunk list"

definition newResponse :: response where
  "newResponse = \<lparr>respHeader = [], respStatus = None, respBody = []\<rparr>"

definition setHeader :: "string \<Rightarrow> string \<Rightarrow> response \<Rightarrow> response" where
  "setHeader k v w = (if respStatus w = None then w\<lparr>respHeader := gset k v (respHeader w)\<rparr> else w)"

definition writeHeader :: "nat \<Rightarrow> response \<Rightarrow> response" where
  "writeHeader code w = (if respStatus w = None then w\<lparr>respStatus := Some code\<rparr> else w)"

definition writeBody :: "chunk \<Rightarrow> response \<Rightarrow> response" where
  "writeBody c w = (let w = writeHeader 200 w in w\<lparr>respBody := respBody w @ [c]\<rparr>)"

definition internalError :: "response \<Rightarrow> string \<Rightarrow> response" where
  "internalError w err =
     (let w = setHeader ''Content-Type'' ''text/plain'' w;
          w = writeHeader 500 w
      in writeBody (TextBody (''Error: '' @ err @ [CHR 0x0A])) w)"

definition badRequest :: "response \<Rightarrow> string \<Rightarrow> response" where
  "badRequest w err =
     (let w = setHeader ''Content-Type'' ''text/plain'' w;
          w = writeHeader 400 w
      in writeBody (TextBody (''Error: '' @ err @ [CHR 0x0A])) w)"

subsection \<open>Caching\<close>

text \<open>\<^verbatim>\<open>int(0.5+maxAge.Seconds())\<close>, computed exactly; the floating point of the code agrees for durations
  below \<open>2^22\<close> seconds.\<close>

definition roundSeconds :: "int \<Rightarrow> int" where
  "roundSeconds ns = (let x = ns + 500000000 in if 0 \<le> x then x div 1000000000 else - ((- x) div 1000000000))"

definition formatInt :: "int \<Rightarrow> string" where
  "formatInt i = (if i < 0 then ''-'' @ itoa (nat (- i)) else itoa (nat i))"

definition SetCacheControl :: "Duration \<Rightarrow> bool \<Rightarrow> response \<Rightarrow> response" where
  "SetCacheControl maxAge dynamic w =
     (let v = (if dynamic then ''no-store'' else ''max-age='' @ formatInt (roundSeconds (durValue maxAge)))
      in setHeader ''Cache-Control'' v w)"

record webEnv =
  webDb :: env
  formatTime :: "nat \<Rightarrow> string"
  errText :: "error \<Rightarrow> string"
  buildId :: string

definition etagOf :: "webEnv \<Rightarrow> nat \<Rightarrow> string" where
  "etagOf we mt = [dquote] @ buildId we @ ''-'' @ formatTime we mt @ [dquote]"

fun anyCandidate :: "string \<Rightarrow> string list \<Rightarrow> bool" where
  "anyCandidate etag [] = False"
| "anyCandidate etag (c # candidates) = (if c = etag \<or> c = ''*'' then True else anyCandidate etag candidates)"

fun checkNoneMatch :: "string \<Rightarrow> string list \<Rightarrow> response \<Rightarrow> bool \<times> response" where
  "checkNoneMatch etag [] w = (False, setHeader ''ETag'' etag w)"
| "checkNoneMatch etag (val # vals) w =
     (case ParseIfMatch val of
        Inl err \<Rightarrow> (True, badRequest w err)
      | Inr candidates \<Rightarrow>
          if anyCandidate etag candidates
          then (True, writeHeader 304 (setHeader ''ETag'' etag w))
          else checkNoneMatch etag vals w)"

definition CheckAndSetETag :: "webEnv \<Rightarrow> tables \<Rightarrow> request \<Rightarrow> response \<Rightarrow> bool \<times> response" where
  "CheckAndSetETag we db r w =
     (case pdb_ModificationTime (webDb we) db of
        Inl err \<Rightarrow> (True, internalError w (errText we err))
      | Inr mt \<Rightarrow>
          checkNoneMatch (etagOf we mt) (gget0 [] (reqHeader r) ''If-None-Match'') w)"

subsection \<open>Entity tags and caching\<close>

lemma anyCandidate_iff: "anyCandidate etag cs \<longleftrightarrow> etag \<in> set cs \<or> ''*'' \<in> set cs"
  by (induction cs) auto

text \<open>The outcome of the header check when all values can be parsed.\<close>

lemma checkNoneMatch_parsed:
  assumes "\<And>v. v \<in> set vals \<Longrightarrow> ParseIfMatch v = Inr (tagsIn v)"
  shows "checkNoneMatch etag vals w =
    (if \<exists>v \<in> set vals. etag \<in> set (tagsIn v) \<or> ''*'' \<in> set (tagsIn v)
     then (True, writeHeader 304 (setHeader ''ETag'' etag w)) else (False, setHeader ''ETag'' etag w))"
  using assms by (induction vals) (auto simp: anyCandidate_iff)

lemma scanQuoted_plain_text:
  "\<forall>c \<in> set t. c \<noteq> dquote \<and> c \<noteq> backslash \<Longrightarrow> scanQuoted (t @ [dquote]) = Some []"
  by (induction t) auto

text \<open>The tags this program makes are entity tags, as long as the build identifier and the time contain neither a
  quote nor a backslash.\<close>

definition plainText :: "string \<Rightarrow> bool" where
  "plainText t \<longleftrightarrow> dquote \<notin> set t \<and> backslash \<notin> set t"

lemma etagOf_entity:
  assumes "plainText (buildId we)" "plainText (formatTime we t)"
  shows "entityTag (etagOf we t)"
proof -
  have "scanQuoted ((buildId we @ ''-'' @ formatTime we t) @ [dquote]) = Some []"
    by (rule scanQuoted_plain_text) (use assms in \<open>auto simp: plainText_def dquote_def backslash_def\<close>)
  moreover have "dquote \<noteq> CHR ''*''" by (simp add: dquote_def)
  ultimately show ?thesis by (simp add: entityTag_def scanEntity_def etagOf_def)
qed

lemma ParseIfMatch_single: "entityTag t \<Longrightarrow> ParseIfMatch t = Inr [t]"
  using TrimSpace_tags [of "[t]" "'',''"] parseTokens_join [of "'',''" "[t]" t "[]"]
  by (simp add: ParseIfMatch_def separator_def scanComma_def reSpace_def)

text \<open>
  C17. Conditional requests: when every \<^verbatim>\<open>If-None-Match\<close> value is a list of entity tags, the handler is told to stop exactly
  if one of them is the current tag or \<^verbatim>\<open>*\<close>, and then the status is 304; in both cases the current tag is set as the
  \<^verbatim>\<open>ETag\<close> of the response and no body has been written.
\<close>

theorem CheckAndSetETag_correct:
  assumes "pdb_ModificationTime (webDb we) db = Inr t" "separator sep" "respStatus w = None"
    and "gget0 [] (reqHeader r) ''If-None-Match'' = map (join sep) tss"
    and "\<And>ts. ts \<in> set tss \<Longrightarrow> ts \<noteq> [] \<and> (\<forall>g \<in> set ts. entityTag g)"
  shows "\<exists>w'. CheckAndSetETag we db r w = ((\<exists>ts \<in> set tss. etagOf we t \<in> set ts \<or> ''*'' \<in> set ts), w') \<and>
    respStatus w' = (if \<exists>ts \<in> set tss. etagOf we t \<in> set ts \<or> ''*'' \<in> set ts then Some 304 else None) \<and>
    gget (respHeader w') ''ETag'' = Some (etagOf we t) \<and> respBody w' = respBody w"
proof -
  have parse: "ParseIfMatch (join sep ts) = Inr ts" if "ts \<in> set tss" for ts
    using assms(5) [OF that] TrimSpace_tags [of ts sep] parseTokens_join [OF assms(2), of ts] by (simp add: ParseIfMatch_def)
  then have p: "ParseIfMatch v = Inr (projr (ParseIfMatch v))" if "v \<in> set (map (join sep) tss)" for v
    using that by auto
  have c: "checkNoneMatch (etagOf we t) (map (join sep) tss) w = (if \<exists>v \<in> set (map (join sep) tss).
      etagOf we t \<in> set (projr (ParseIfMatch v)) \<or> ''*'' \<in> set (projr (ParseIfMatch v))
     then (True, writeHeader 304 (setHeader ''ETag'' (etagOf we t) w)) else (False, setHeader ''ETag'' (etagOf we t) w))"
    using p by (rule checkNoneMatch_parsed)
  have any: "(\<exists>v \<in> set (map (join sep) tss). e \<in> set (projr (ParseIfMatch v)) \<or> ''*'' \<in> set (projr (ParseIfMatch v))) \<longleftrightarrow>
      (\<exists>ts \<in> set tss. e \<in> set ts \<or> ''*'' \<in> set ts)" for e
    using parse by simp
  have "CheckAndSetETag we db r w = checkNoneMatch (etagOf we t) (map (join sep) tss) w"
    by (simp add: CheckAndSetETag_def assms(1,4))
  then show ?thesis unfolding c any
    using assms(3) by (auto simp: setHeader_def writeHeader_def)
qed

definition demoConfig :: Config where
  "demoConfig = \<lparr>registryUrl = ''http://r'', registryPublicUrl = '''', componentsWebUI = True, componentsAssertEndpoint = False,
     eventsToken = ''secret'', databasePostgresUrl = ''postgres:'', cacheMaxAgeIndex = \<lparr>durValue = 5000000000\<rparr>,
     cacheMaxAgeHtml = \<lparr>durValue = 5000000000\<rparr>, intervalFetchAll = \<lparr>durValue = 0\<rparr>, intervalGarbageCollect = \<lparr>durValue = 0\<rparr>\<rparr>"

definition plainEnv :: webEnv where
  "plainEnv = \<lparr>webDb = okEnv, formatTime = itoa, errText = (\<lambda>_. ''error''), buildId = ''XXXXXXXXXX''\<rparr>"

theorem CheckAndSetETag_correct_witness:
  "\<exists>w'. CheckAndSetETag plainEnv emptyTables
      \<lparr>reqMethod = ''GET'', reqHeader = [(''If-None-Match'', [join '', '' [[dquote, dquote], etagOf plainEnv 0]])],
       reqForm = [], reqURLQuery = []\<rparr> newResponse = (True, w') \<and> respStatus w' = Some 304"
proof -
  let ?tss = "[[[dquote, dquote], etagOf plainEnv 0]]"
  let ?r = "\<lparr>reqMethod = ''GET'', reqHeader = [(''If-None-Match'', [join '', '' [[dquote, dquote], etagOf plainEnv 0]])],
    reqForm = [], reqURLQuery = []\<rparr>"
  have t: "pdb_ModificationTime (webDb plainEnv) emptyTables = Inr 0" by code_simp
  have sep: "separator '', ''" by code_simp
  have "entityTag [dquote, dquote]" by code_simp
  moreover have "entityTag (etagOf plainEnv 0)" by code_simp
  ultimately have tags: "ts \<noteq> [] \<and> (\<forall>g \<in> set ts. entityTag g)" if "ts \<in> set ?tss" for ts using that by auto
  have h: "gget0 [] (reqHeader ?r) ''If-None-Match'' = map (join '', '') ?tss" by (simp add: gget0_def)
  have w: "respStatus newResponse = None" by (simp add: newResponse_def)
  from CheckAndSetETag_correct [OF t sep w h tags] show ?thesis by auto
qed

end
