(* ===== verification/Configuration.thy ===== *)
theory Configuration
  imports HttpUtil
begin

section \<open>Reading the configuration (config.go)\<close>

text \<open>
  Durations are written as Go's \<^verbatim>\<open>time.ParseDuration\<close> reads them: a sign and a sequence of decimal numbers with units, in 64-bit
  nanoseconds. Reading the file and the YAML library are parameters of \<open>LoadConfig\<close>. The fraction of a number is computed exactly here; the
  floating point of the library can differ in the last nanosecond.
\<close>

subsection \<open>Durations\<close>

datatype durError = InvalidDuration | MissingUnit | UnknownUnit string

definition int64Max :: nat where
  "int64Max = 2 ^ 63 - 1"

fun leadingInt :: "string \<Rightarrow> nat \<Rightarrow> (nat \<times> string) option" where
  "leadingInt [] x = Some (x, [])"
| "leadingInt (c # s) x =
     (if \<not> is_digit c then Some (x, c # s)
      else if int64Max div 10 < x then None
      else let x = x * 10 + (byte c - 48) in if int64Max < x then None else leadingInt s x)"

text \<open>Digits beyond the range of an integer are skipped.\<close>

fun leadingFraction :: "string \<Rightarrow> nat \<Rightarrow> nat \<Rightarrow> bool \<Rightarrow> nat \<times> nat \<times> string" where
  "leadingFraction [] x scale overflow = (x, scale, [])"
| "leadingFraction (c # s) x scale overflow =
     (if \<not> is_digit c then (x, scale, c # s)
      else if overflow then leadingFraction s x scale True
      else if int64Max div 10 < x then leadingFraction s x scale True
      else let y = x * 10 + (byte c - 48)
           in if int64Max < y then leadingFraction s x scale True else leadingFraction s y (scale * 10) False)"

definition unitMap :: "(string \<times> nat) list" where
  "unitMap = [(''ns'', 1), (''us'', 1000), ([char_of (194 :: nat), char_of (181 :: nat), CHR ''s''], 1000),
     ([char_of (206 :: nat), char_of (188 :: nat), CHR ''s''], 1000), (''ms'', 1000000), (''s'', 1000000000),
     (''m'', 60000000000), (''h'', 3600000000000)]"

definition unitChar :: "char \<Rightarrow> bool" where
  "unitChar c \<longleftrightarrow> c \<noteq> CHR ''.'' \<and> \<not> is_digit c"

text \<open>One number with its unit: its nanoseconds and what follows.\<close>

definition durationPart :: "string \<Rightarrow> durError + nat \<times> string" where
  "durationPart s =
     (if s = [] \<or> \<not> (hd s = CHR ''.'' \<or> is_digit (hd s)) then Inl InvalidDuration
      else case leadingInt s 0 of
        None \<Rightarrow> Inl InvalidDuration
      | Some (v, s1) \<Rightarrow>
          (let pre = (length s \<noteq> length s1);
               (f, scale, s2, post) =
                 (if s1 \<noteq> [] \<and> hd s1 = CHR ''.''
                  then (let (f, scale, s2) = leadingFraction (tl s1) 0 1 False in (f, scale, s2, length (tl s1) \<noteq> length s2))
                  else (0, 1, s1, False))
           in if \<not> pre \<and> \<not> post then Inl InvalidDuration
              else
                let u = takeWhile unitChar s2; rest = dropWhile unitChar s2
                in if u = [] then Inl MissingUnit
                   else case map_of unitMap u of
                       None \<Rightarrow> Inl (UnknownUnit u)
                     | Some unit \<Rightarrow>
                         if int64Max div unit < v then Inl InvalidDuration
                         else let v = v * unit + f * unit div scale
                              in if int64Max < v then Inl InvalidDuration else Inr (v, rest)))"

lemma leadingInt_length: "leadingInt s x = Some (v, s') \<Longrightarrow> length s' \<le> length s"
  by (induction s arbitrary: x) (force simp: Let_def split: if_splits)+

lemma leadingFraction_length: "leadingFraction s x scale b = (f, sc, s') \<Longrightarrow> length s' \<le> length s"
  by (induction s arbitrary: x scale b) (force simp: Let_def split: if_splits)+

lemma dropWhile_shorter: "takeWhile P s \<noteq> [] \<Longrightarrow> length (dropWhile P s) < length s"
  by (cases s) (auto simp: le_imp_less_Suc length_dropWhile_le split: if_splits)

lemma durationPart_shorter: "durationPart s = Inr (v, rest) \<Longrightarrow> length rest < length s"
proof -
  assume a: "durationPart s = Inr (v, rest)"
  then obtain v1 s1 where l: "leadingInt s 0 = Some (v1, s1)" by (auto simp: durationPart_def split: if_splits option.splits)
  obtain s2 where s2: "takeWhile unitChar s2 \<noteq> []" "rest = dropWhile unitChar s2" "s2 = s1 \<or>
      (s1 \<noteq> [] \<and> s2 = snd (snd (leadingFraction (tl s1) 0 1 False)))"
    using a l by (auto simp: durationPart_def Let_def case_prod_unfold split: if_splits option.splits)
  have "length s2 \<le> length s1"
    using s2(3) leadingFraction_length [of "tl s1" 0 1 False "fst (leadingFraction (tl s1) 0 1 False)"
        "fst (snd (leadingFraction (tl s1) 0 1 False))" s2] by auto
  then show ?thesis using dropWhile_shorter [OF s2(1)] leadingInt_length [OF l] by (simp add: s2(2))
qed

function durationParts :: "string \<Rightarrow> nat \<Rightarrow> durError + nat" where
  "durationParts s d =
     (if s = [] then Inr d
      else case durationPart s of
        Inl e \<Rightarrow> Inl e
      | Inr (v, rest) \<Rightarrow> if int64Max < d + v then Inl InvalidDuration else durationParts rest (d + v))"
  by pat_completeness auto
termination
  by (relation "measure (\<lambda>(s, d). length s)") (auto dest: durationPart_shorter)

declare durationParts.simps [simp del]

definition ParseDuration :: "string \<Rightarrow> durError + int" where
  "ParseDuration orig =
     (let neg = (take 1 orig = ''-'');
          s = (if neg \<or> take 1 orig = ''+'' then drop 1 orig else orig)
      in if s = ''0'' then Inr 0
         else if s = [] then Inl InvalidDuration
         else case durationParts s 0 of
             Inl e \<Rightarrow> Inl e
           | Inr d \<Rightarrow> Inr (if neg then - int d else int d))"

subsection \<open>The configuration\<close>

text \<open>\<open>unmarshalled\<close> is what the library's callback decodes for the string, or its error. The result is the error and the
  duration, which an error leaves as it was.\<close>

definition UnmarshalYAML :: "(durError \<Rightarrow> string) \<Rightarrow> string + string \<Rightarrow> Duration \<Rightarrow> string option \<times> Duration" where
  "UnmarshalYAML durText unmarshalled d =
     (case unmarshalled of
        Inl err \<Rightarrow> (Some err, d)
      | Inr s \<Rightarrow> (case ParseDuration s of
          Inl err \<Rightarrow> (Some (durText err), d)
        | Inr parsed \<Rightarrow> (None, d\<lparr>durValue := parsed\<rparr>)))"

definition zeroConfig :: Config where
  "zeroConfig = \<lparr>registryUrl = '''', registryPublicUrl = '''', componentsWebUI = False, componentsAssertEndpoint = False,
     eventsToken = '''', databasePostgresUrl = '''', cacheMaxAgeIndex = \<lparr>durValue = 0\<rparr>, cacheMaxAgeHtml = \<lparr>durValue = 0\<rparr>,
     intervalFetchAll = \<lparr>durValue = 0\<rparr>, intervalGarbageCollect = \<lparr>durValue = 0\<rparr>\<rparr>"

definition LoadConfig :: "(string \<Rightarrow> string + string) \<Rightarrow> (string \<Rightarrow> Config \<Rightarrow> string + Config) \<Rightarrow> string \<Rightarrow> string + Config" where
  "LoadConfig readFile yamlUnmarshal filename =
     (case readFile filename of
        Inl err \<Rightarrow> Inl err
      | Inr bytes \<Rightarrow> (case yamlUnmarshal bytes zeroConfig of Inl err \<Rightarrow> Inl err | Inr config \<Rightarrow> Inr config))"

subsection \<open>Durations are read back\<close>

lemma leadingInt_itoa:
  "\<exists>k. \<forall>acc s. leadingInt (itoa n @ s) acc =
     (if acc * 10 ^ k + n \<le> int64Max then leadingInt s (acc * 10 ^ k + n) else None)"
proof (induction n rule: itoa.induct)
  case (1 n)
  have d: "m < 10 \<Longrightarrow> is_digit (digit m) \<and> byte (digit m) - 48 = m" for m by (simp add: digit_def is_digit_def within_def)
  have one: "leadingInt (digit m # s) x = (if x * 10 + m \<le> int64Max then leadingInt s (x * 10 + m) else None)" if "m < 10" for m x s
    using d [OF that] by (auto simp: Let_def not_less not_le div_less_iff_less_mult less_mult_imp_div_less)
  show ?case
  proof (cases "n < 10")
    case True
    then have "leadingInt (itoa n @ s) acc = (if acc * 10 ^ 1 + n \<le> int64Max then leadingInt s (acc * 10 ^ 1 + n) else None)" for acc s
      using one [OF True] by (simp add: itoa.simps [of n])
    then show ?thesis by blast
  next
    case False
    from "1.IH" [OF False] obtain k where k: "\<And>acc s. leadingInt (itoa (n div 10) @ s) acc =
      (if acc * 10 ^ k + n div 10 \<le> int64Max then leadingInt s (acc * 10 ^ k + n div 10) else None)" by blast
    have e: "(acc * 10 ^ k + n div 10) * 10 + n mod 10 = acc * 10 ^ Suc k + n" for acc by (simp add: algebra_simps)
    have "leadingInt (itoa n @ s) acc = (if acc * 10 ^ Suc k + n \<le> int64Max then leadingInt s (acc * 10 ^ Suc k + n) else None)" for acc s
    proof -
      have "leadingInt (itoa n @ s) acc = leadingInt (itoa (n div 10) @ digit (n mod 10) # s) acc"
        using False by (simp add: itoa.simps [of n])
      also have "\<dots> = (if acc * 10 ^ k + n div 10 \<le> int64Max \<and> acc * 10 ^ Suc k + n \<le> int64Max
          then leadingInt s (acc * 10 ^ Suc k + n) else None)"
        using k [of "digit (n mod 10) # s" acc] one [of "n mod 10" s "acc * 10 ^ k + n div 10"] unfolding e by simp
      finally have f: "leadingInt (itoa n @ s) acc = (if acc * 10 ^ k + n div 10 \<le> int64Max \<and> acc * 10 ^ Suc k + n \<le> int64Max
          then leadingInt s (acc * 10 ^ Suc k + n) else None)" .
      have "x \<le> x * 10 + n mod 10" for x by simp
      from this [of "acc * 10 ^ k + n div 10"] have "acc * 10 ^ k + n div 10 \<le> acc * 10 ^ Suc k + n" unfolding e .
      then show ?thesis unfolding f by simp
    qed
    then show ?thesis by blast
  qed
qed

lemma leadingInt_itoa0: "leadingInt (itoa n @ s) 0 = (if n \<le> int64Max then leadingInt s n else None)"
proof -
  obtain k where "\<And>acc s. leadingInt (itoa n @ s) acc = (if acc * 10 ^ k + n \<le> int64Max then leadingInt s (acc * 10 ^ k + n) else None)"
    using leadingInt_itoa by blast
  from this [of s 0] show ?thesis by simp
qed

lemma unitMap_ok: "map_of unitMap u = Some unit \<Longrightarrow> u \<noteq> [] \<and> (\<forall>c \<in> set u. unitChar c) \<and> 0 < unit"
proof -
  have "char_of (194 :: nat) \<noteq> CHR ''.''" "char_of (181 :: nat) \<noteq> CHR ''.''" "char_of (206 :: nat) \<noteq> CHR ''.''"
      "char_of (188 :: nat) \<noteq> CHR ''.''"
    by code_simp+
  then have "list_all (\<lambda>(u, n). u \<noteq> [] \<and> list_all unitChar u \<and> 0 < n) unitMap"
    by (simp add: unitMap_def unitChar_def is_digit_def within_def)
  moreover assume "map_of unitMap u = Some unit"
  then have "(u, unit) \<in> set unitMap" by (rule map_of_SomeD)
  ultimately show ?thesis by (auto simp: list_all_iff)
qed

lemma durationPart_print:
  assumes "map_of unitMap u = Some unit" "rest = [] \<or> is_digit (hd rest)"
  shows "durationPart (itoa n @ u @ rest) = (if n * unit \<le> int64Max then Inr (n * unit, rest) else Inl InvalidDuration)"
proof -
  note u = unitMap_ok [OF assms(1)]
  obtain c u' where c: "u = c # u'" "unitChar c" using u by (cases u) auto
  have h: "is_digit (hd (itoa n @ u @ rest))" using itoa_digits [of "hd (itoa n)" n] by simp
  have l: "leadingInt (itoa n @ u @ rest) 0 = (if n \<le> int64Max then Some (n, u @ rest) else None)"
    using c by (simp add: leadingInt_itoa0 unitChar_def)
  have r: "rest = [] \<or> \<not> unitChar (hd rest)" using assms(2) by (auto simp: unitChar_def)
  have t: "takeWhile unitChar (u @ rest) = u" "dropWhile unitChar (u @ rest) = rest"
    using u r by (cases rest; auto simp: takeWhile_append dropWhile_append)+
  have o: "int64Max div unit < n \<longleftrightarrow> \<not> n * unit \<le> int64Max"
    using u by (simp add: div_less_iff_less_mult not_le)
  have "n * unit \<le> int64Max \<Longrightarrow> n \<le> int64Max" using u by (metis One_nat_def Suc_leI le_trans mult.right_neutral mult_le_mono2)
  then show ?thesis using h l t o assms(1) u c by (auto simp: durationPart_def Let_def unitChar_def)
qed

text \<open>The text of a duration: numbers with units.\<close>

fun durationText :: "(nat \<times> string) list \<Rightarrow> string" where
  "durationText [] = []"
| "durationText ((n, u) # ps) = itoa n @ u @ durationText ps"

fun durationSum :: "(nat \<times> string) list \<Rightarrow> nat" where
  "durationSum [] = 0"
| "durationSum ((n, u) # ps) = n * the (map_of unitMap u) + durationSum ps"

lemma durationText_digit: "durationText ps = [] \<or> is_digit (hd (durationText ps))"
proof (cases ps)
  case (Cons p ps')
  then show ?thesis using itoa_digits [of "hd (itoa (fst p))" "fst p"] by (cases p) simp
qed simp

lemma durationParts_print:
  assumes "\<forall>(n, u) \<in> set ps. map_of unitMap u \<noteq> None" "d \<le> int64Max"
  shows "durationParts (durationText ps) d = (if d + durationSum ps \<le> int64Max then Inr (d + durationSum ps) else Inl InvalidDuration)"
  using assms
proof (induction ps arbitrary: d)
  case (Cons p ps)
  obtain n u where p: "p = (n, u)" by fastforce
  obtain unit where u: "map_of unitMap u = Some unit" using Cons.prems(1) p by auto
  have ne: "durationText (p # ps) \<noteq> []" by (simp add: p)
  have ps: "\<forall>(n, u) \<in> set ps. map_of unitMap u \<noteq> None" using Cons.prems(1) by auto
  show ?case
    using durationPart_print [OF u durationText_digit, of n ps] Cons.IH [OF ps, of "d + n * unit"] ne u
    by (subst durationParts.simps) (auto simp: p)
qed (simp add: durationParts.simps)

lemma ParseDuration_sum:
  assumes "parts \<noteq> []" "\<forall>(n, u) \<in> set parts. map_of unitMap u \<noteq> None"
  shows "ParseDuration (durationText parts) =
      (if durationSum parts < 2 ^ 63 then Inr (int (durationSum parts)) else Inl InvalidDuration) \<and>
    ParseDuration (''-'' @ durationText parts) =
      (if durationSum parts < 2 ^ 63 then Inr (- int (durationSum parts)) else Inl InvalidDuration)"
proof -
  let ?t = "durationText parts"
  obtain n u ps where p: "parts = (n, u) # ps" using assms(1) by (cases parts) auto
  obtain unit where "map_of unitMap u = Some unit" using assms(2) p by auto
  then have u: "u \<noteq> []" using unitMap_ok by blast
  have t: "?t \<noteq> []" "?t \<noteq> ''0''" using u by (auto simp: p append_eq_Cons_conv)
  have "is_digit (hd ?t)" using durationText_digit [of parts] t(1) by blast
  moreover have "\<not> is_digit CHR ''-''" "\<not> is_digit CHR ''+''" by code_simp+
  moreover have "take 1 ?t = [hd ?t]" using t(1) by (cases ?t) auto
  ultimately have s: "take 1 ?t \<noteq> ''-''" "take 1 ?t \<noteq> ''+''" by auto
  have "durationParts ?t 0 = (if durationSum parts < 2 ^ 63 then Inr (durationSum parts) else Inl InvalidDuration)"
    using durationParts_print [OF assms(2), of 0] by (simp add: int64Max_def less_Suc_eq_le)
  then show ?thesis using t s by (simp add: ParseDuration_def)
qed

text \<open>
  C40. A duration of the configuration that is written as numbers with units is read as its sum in nanoseconds, whatever the order of the units,
  and with a minus sign as its negation. It is refused exactly when the sum does not fit a 64-bit duration, and then the value is left as it was.
\<close>

theorem UnmarshalYAML_reads:
  assumes "parts \<noteq> []" "\<forall>(n, u) \<in> set parts. map_of unitMap u \<noteq> None"
  shows "UnmarshalYAML durText (Inr (durationText parts)) d =
      (if durationSum parts < 2 ^ 63 then (None, d\<lparr>durValue := int (durationSum parts)\<rparr>) else (Some (durText InvalidDuration), d)) \<and>
    UnmarshalYAML durText (Inr (''-'' @ durationText parts)) d =
      (if durationSum parts < 2 ^ 63 then (None, d\<lparr>durValue := - int (durationSum parts)\<rparr>) else (Some (durText InvalidDuration), d))"
  using ParseDuration_sum [OF assms] by (simp add: UnmarshalYAML_def)

theorem UnmarshalYAML_reads_witness:
  "UnmarshalYAML (\<lambda>_. ''bad'') (Inr (durationText [(1, ''h''), (30, ''m'')])) \<lparr>durValue = 7\<rparr> = (None, \<lparr>durValue = 5400000000000\<rparr>) \<and>
   UnmarshalYAML (\<lambda>_. ''bad'') (Inr (durationText [(9223372037, ''s'')])) \<lparr>durValue = 7\<rparr> = (Some ''bad'', \<lparr>durValue = 7\<rparr>)"
proof -
  have "\<forall>(n, u) \<in> set [(1, ''h''), (30, ''m'')]. map_of unitMap u \<noteq> None" by (simp add: unitMap_def)
  note 1 = UnmarshalYAML_reads [OF _ this]
  have "\<forall>(n, u) \<in> set [(9223372037, ''s'')]. map_of unitMap u \<noteq> None" by (simp add: unitMap_def)
  note 2 = UnmarshalYAML_reads [OF _ this]
  show ?thesis using 1 2 by (simp add: unitMap_def del: durationText.simps)
qed

end
