(* ===== verification/Program.thy ===== *)
theory Program
  imports Dispatch Configuration
begin

section \<open>Putting the program together (version.go, web/interface.go, cmd/flagstate/main.go)\<close>

text \<open>
  The build identifier, the routes of the web interface, the timers and the order in which the program starts. The hash is a
  parameter (the bytes of SHA-256), and so are the opening of the database and what \<open>LoadConfig\<close> takes.
\<close>

subsection \<open>The build identifier\<close>

fun hexEncode :: "string \<Rightarrow> string" where
  "hexEncode [] = []"
| "hexEncode (c # s) = hexDigit (byte c div 16) # hexDigit (byte c mod 16) # hexEncode s"

text \<open>The values of \<^verbatim>\<open>BuildString\<close> and \<^verbatim>\<open>BuildId\<close>; a slice beyond the text panics (\<^const>\<open>None\<close>).\<close>

definition initVersion :: "(string \<Rightarrow> string) \<Rightarrow> string \<Rightarrow> string \<Rightarrow> (string \<times> string) option" where
  "initVersion sha256 gitVersion buildTime =
     (if gitVersion = '''' \<and> buildTime = '''' then Some (''<no build information supplied>'', ''XXXXXXXXXX'')
      else
        let hashMaterial = (if HasSuffix gitVersion ''*'' then gitVersion @ ''|'' @ buildTime else gitVersion);
            hex = hexEncode (sha256 hashMaterial)
        in if length hex < 10 then None
           else let bid = take 10 hex
                in Some (''GitVersion='' @ gitVersion @ '', BuildTime='' @ buildTime @ '', BuildId='' @ bid, bid))"

subsection \<open>Routes\<close>

datatype handler = EventHandler | AssertHandler | IndexHandler bool | HomeHandler

definition Start_routes :: "Config \<Rightarrow> (string \<times> handler) list" where
  "Start_routes config =
     [(''/events'', EventHandler)] @
     (if componentsAssertEndpoint config then [(''/assert'', AssertHandler)] else []) @
     [(''/index/static'', IndexHandler False), (''/index/dynamic'', IndexHandler True)] @
     (if componentsWebUI config then [(''/'', HomeHandler)] else [])"

text \<open>How the multiplexer of \<^verbatim>\<open>net/http\<close> finds the handler of a cleaned path: the entry for the path itself, or else the longest pattern
  that ends in a slash and begins the path.\<close>

definition pathMatch :: "string \<Rightarrow> string \<Rightarrow> bool" where
  "pathMatch pattern path \<longleftrightarrow> (if HasSuffix pattern ''/'' then HasPrefix path pattern else pattern = path)"

fun muxLongest :: "(string \<times> handler) list \<Rightarrow> string \<Rightarrow> nat \<Rightarrow> handler option \<Rightarrow> handler option" where
  "muxLongest [] path n h = h"
| "muxLongest ((k, v) # es) path n h =
     (if pathMatch k path \<and> (h = None \<or> n < length k) then muxLongest es path (length k) (Some v) else muxLongest es path n h)"

definition muxHandler :: "(string \<times> handler) list \<Rightarrow> string \<Rightarrow> handler option" where
  "muxHandler es path = (case map_of es path of Some h \<Rightarrow> Some h | None \<Rightarrow> muxLongest es path 0 None)"

subsection \<open>Timers and start\<close>

datatype ticker = fetchAllTicker | gcTicker

text \<open>\<^verbatim>\<open>time.Tick\<close> of an interval that is not positive is a channel on which nothing ever arrives.\<close>

definition tickerFires :: "Config \<Rightarrow> ticker \<Rightarrow> bool" where
  "tickerFires config tk \<longleftrightarrow> 0 < durValue (case tk of fetchAllTicker \<Rightarrow> intervalFetchAll config | gcTicker \<Rightarrow> intervalGarbageCollect config)"

text \<open>One round of the loop of \<^verbatim>\<open>startTimers\<close> in which the \<^verbatim>\<open>select\<close> takes the given ticker: \<^const>\<open>None\<close> while it cannot go on.\<close>

definition startTimers_round :: "Config \<Rightarrow> ticker \<Rightarrow> fetchRequest list \<Rightarrow> fetchRequest list option" where
  "startTimers_round config tk ch =
     (if tickerFires config tk then (case tk of fetchAllTicker \<Rightarrow> FetchAll ch | gcTicker \<Rightarrow> GarbageCollect ch) else None)"

datatype action = LogFatal string | SendFetchAll "fetchRequest list option" | StartTimers Config | ServeHTTP "(string \<times> handler) list"

definition flagstate_main ::
    "(string \<Rightarrow> string + string) \<Rightarrow> (string \<Rightarrow> Config \<Rightarrow> string + Config) \<Rightarrow> (string \<Rightarrow> string + unit) \<Rightarrow> string \<Rightarrow> action list" where
  "flagstate_main readFile yamlUnmarshal newPostgresDB configFile =
     (case LoadConfig readFile yamlUnmarshal configFile of
        Inl err \<Rightarrow> [LogFatal err]
      | Inr config \<Rightarrow>
          (let postgresUrl = databasePostgresUrl config;
               db = (if postgresUrl \<noteq> '''' then (case newPostgresDB postgresUrl of Inl err \<Rightarrow> Inl err | Inr d \<Rightarrow> Inr (Some d))
                     else Inr None)
           in case db of
                Inl err \<Rightarrow> [LogFatal err]
              | Inr None \<Rightarrow> [LogFatal ''No database configured'']
              | Inr (Some d) \<Rightarrow> [SendFetchAll (FetchAll []), StartTimers config, ServeHTTP (Start_routes config)]))"

subsection \<open>The identifier is ten plain characters\<close>

definition buildChar :: "char \<Rightarrow> bool" where
  "buildChar c \<longleftrightarrow> c = CHR ''X'' \<or> within 48 57 c \<or> within 97 102 c"

lemma hexDigit_buildChar: "d < 16 \<Longrightarrow> buildChar (hexDigit d)"
  by (auto simp: buildChar_def hexDigit_def within_def)

lemma hexEncode_chars: "c \<in> set (hexEncode s) \<Longrightarrow> buildChar c"
proof (induction s)
  case (Cons a s)
  have "byte a div 16 < 16" "byte a mod 16 < 16" using range_nat_of_char by (fastforce simp: less_mult_imp_div_less)+
  then show ?case using Cons by (auto intro: hexDigit_buildChar)
qed simp

lemma length_hexEncode: "length (hexEncode s) = 2 * length s"
  by (induction s) simp_all

lemma buildChar_plain: "\<forall>c \<in> set t. buildChar c \<Longrightarrow> plainText t"
  by (force simp: plainText_def buildChar_def within_def dquote_def backslash_def)

text \<open>
  C38. Whatever the versions, initialisation does not panic and the build identifier is ten characters, each a hexadecimal digit or an X, so every
  entity tag that is made with it can be parsed again; and a build of a clean tree has an identifier that does
  not depend on the time of the build.
\<close>

theorem BuildId_type:
  assumes "\<And>m. length (sha256 m) = 32" "\<And>t. plainText (formatTime we t)"
  shows "\<exists>bs bid. initVersion sha256 gitVersion buildTime = Some (bs, bid) \<and> length bid = 10 \<and> (\<forall>c \<in> set bid. buildChar c) \<and>
    ParseIfMatch (etagOf (we\<lparr>buildId := bid\<rparr>) t) = Inr [etagOf (we\<lparr>buildId := bid\<rparr>) t] \<and>
    (gitVersion \<noteq> '''' \<and> \<not> HasSuffix gitVersion ''*'' \<longrightarrow>
       map_option snd (initVersion sha256 gitVersion buildTime') = Some bid)"
proof -
  have len: "length (hexEncode (sha256 m)) = 64" for m by (simp add: length_hexEncode assms(1))
  have tag: "ParseIfMatch (etagOf (we\<lparr>buildId := bid\<rparr>) t) = Inr [etagOf (we\<lparr>buildId := bid\<rparr>) t]" if "\<forall>c \<in> set bid. buildChar c" for bid
    by (rule ParseIfMatch_single, rule etagOf_entity) (use assms(2) buildChar_plain [OF that] in simp_all)
  show ?thesis
  proof (cases "gitVersion = '''' \<and> buildTime = ''''")
    case True
    then have "initVersion sha256 gitVersion buildTime = Some (''<no build information supplied>'', ''XXXXXXXXXX'')"
      by (simp add: initVersion_def)
    then show ?thesis using tag [of "''XXXXXXXXXX''"] True by (simp add: buildChar_def)
  next
    case False
    let ?bid = "take 10 (hexEncode (sha256 (if HasSuffix gitVersion ''*'' then gitVersion @ ''|'' @ buildTime else gitVersion)))"
    have "\<forall>c \<in> set ?bid. buildChar c" by (meson hexEncode_chars in_set_takeD)
    then show ?thesis using False tag [of ?bid] len by (auto simp: initVersion_def Let_def)
  qed
qed

theorem BuildId_type_witness:
  "\<exists>bs bid. initVersion (\<lambda>m. take 32 (m @ replicate 32 CHR ''a'')) ''v1'' ''today'' = Some (bs, bid) \<and> length bid = 10 \<and>
     map_option snd (initVersion (\<lambda>m. take 32 (m @ replicate 32 CHR ''a'')) ''v1'' ''tomorrow'') = Some bid"
proof -
  have l: "length (take 32 (m @ replicate 32 CHR ''a'')) = 32" for m by simp
  have p: "plainText (formatTime plainEnv t)" for t
  proof -
    have "\<not> is_digit dquote" "\<not> is_digit backslash" by code_simp+
    then show ?thesis using itoa_digits [of dquote t] itoa_digits [of backslash t] by (auto simp: plainEnv_def plainText_def)
  qed
  have "''v1'' \<noteq> '''' \<and> \<not> HasSuffix ''v1'' ''*''" by code_simp
  then show ?thesis
    using BuildId_type [of "\<lambda>m. take 32 (m @ replicate 32 CHR ''a'')" plainEnv "''v1''" "''today''" _ "''tomorrow''", OF l p] by blast
qed

subsection \<open>What is served\<close>

text \<open>
  Every path is served by the handler the configuration says: the assertions only when they are enabled, everything that
  is no other route by the home page when the web interface is enabled and not at all otherwise; and the program starts
  to serve only after it has asked for a fetch of everything, with a configuration that names a database it could open.
\<close>

theorem program_serves:
  "muxHandler (Start_routes config) path =
     (if path = ''/events'' then Some EventHandler
      else if path = ''/assert'' \<and> componentsAssertEndpoint config then Some AssertHandler
      else if path = ''/index/static'' then Some (IndexHandler False)
      else if path = ''/index/dynamic'' then Some (IndexHandler True)
      else if HasPrefix path ''/'' \<and> componentsWebUI config then Some HomeHandler else None) \<and>
   (ServeHTTP es \<in> set (flagstate_main readFile yaml newDB configFile) \<longleftrightarrow>
     (\<exists>config'. LoadConfig readFile yaml configFile = Inr config' \<and> databasePostgresUrl config' \<noteq> '''' \<and> newDB (databasePostgresUrl config') = Inr () \<and>
        es = Start_routes config' \<and> flagstate_main readFile yaml newDB configFile =
          [SendFetchAll (Some [\<lparr>which = requestFetchAll, repository = '''', reqLowPriority = False\<rparr>]),
           StartTimers config', ServeHTTP es]))"
  by (auto simp: Start_routes_def muxHandler_def pathMatch_def HasSuffix_def HasPrefix_def flagstate_main_def chan_ops channelCap_def
      Let_def split: sum.splits if_splits option.splits)

end
