(* ===== verification/FetchCorrect.thy ===== *)
theory FetchCorrect
  imports UpdateRepository
begin

section \<open>A fetched repository agrees with the registry\<close>

text \<open>
  The update of a repository is proved against the contract of a tag store, once for both tables: the loop
  over the new digests and the deletion of the old ones leave exactly the tags the registry has. The
  theorems about \<^verbatim>\<open>fetchRepository\<close> follow for images and lists by interpretation.
\<close>

subsection \<open>The tags during an update\<close>

text \<open>\<open>partly r want P m\<close>: the tags after the digests in \<open>P\<close> have been dealt with.\<close>

definition partly :: "string \<Rightarrow> (string \<Rightarrow> string option) \<Rightarrow> string set \<Rightarrow> tag_map \<Rightarrow> tag_map" where
  "partly r want P m = (\<lambda>(r', g).
     if r' \<noteq> r then m (r', g)
     else case want g of
         Some d \<Rightarrow> if d \<in> P then Some d else (case m (r, g) of Some d' \<Rightarrow> if d' \<in> P then None else Some d' | None \<Rightarrow> None)
       | None \<Rightarrow> (case m (r, g) of Some d' \<Rightarrow> if d' \<in> P then None else Some d' | None \<Rightarrow> None))"

lemma partly_start: "partly r want {} m = m"
  by (auto simp: partly_def fun_eq_iff split: option.splits)

lemma partly_set:
  assumes "d \<notin> P" "set ts = {g. want g = Some d}"
  shows "withSet r d ts (partly r want P m) = partly r want (insert d P) m"
  using assms by (auto simp: withSet_def partly_def fun_eq_iff split: option.splits)

lemma partly_skip:
  assumes "d \<notin> P" "{g. m (r, g) = Some d} = {g. want g = Some d}"
  shows "partly r want P m = partly r want (insert d P) m"
proof -
  have eq: "m (r, g) = Some d \<longleftrightarrow> want g = Some d" for g using assms(2) by blast
  have "partly r want P m (r', g) = partly r want (insert d P) m (r', g)" for r' g
    using eq [of g] assms(1) by (cases "want g"; cases "m (r, g)") (auto simp: partly_def)
  then show ?thesis by (simp add: fun_eq_iff)
qed

definition becomes :: "string \<Rightarrow> (string \<Rightarrow> string option) \<Rightarrow> tag_map \<Rightarrow> tag_map" where
  "becomes r want m = (\<lambda>(r', g). if r' = r then want g else m (r', g))"

definition withoutAll :: "string \<Rightarrow> string set \<Rightarrow> tag_map \<Rightarrow> tag_map" where
  "withoutAll r D m = (\<lambda>(r', g). if r' = r \<and> (\<exists>d \<in> D. m (r', g) = Some d) then None else m (r', g))"

lemma partly_end:
  assumes "\<And>g d. want g = Some d \<Longrightarrow> d \<in> P" "\<And>g d. m (r, g) = Some d \<Longrightarrow> d \<in> P \<or> d \<in> D" "D \<inter> P = {}"
  shows "withoutAll r D (partly r want P m) = becomes r want m"
proof -
  have "withoutAll r D (partly r want P m) (r', g) = becomes r want m (r', g)" for r' g
  proof (cases "r' = r")
    case True
    then show ?thesis using assms(1) [of g] assms(2) [of g] assms(3)
      by (cases "want g"; cases "m (r, g)") (auto simp: withoutAll_def partly_def becomes_def)
  next
    case False
    then show ?thesis by (simp add: withoutAll_def partly_def becomes_def)
  qed
  then show ?thesis by (simp add: fun_eq_iff)
qed

subsection \<open>The loops\<close>

lemma sticky_deleteTargets:
  assumes "\<And>d. sticky (deleteT d)"
  shows "sticky (deleteTargets deleteT ks ch)"
proof (induction ks arbitrary: ch)
  case Nil
  show ?case by (simp add: sticky_ret)
next
  case (Cons d ks)
  have "(failed s \<longrightarrow> failed (snd (deleteTargets deleteT (d # ks) ch s))) \<and>
      txDone (snd (deleteTargets deleteT (d # ks) ch s)) = txDone s" for s
    using Cons [of True] assms [of d] by (simp add: sticky_def case_prod_unfold Let_def)
  then show ?case unfolding sticky_def by blast
qed

lemma sticky_updateTargets:
  assumes "\<And>x. sticky (storeT x)" "\<And>d ts. sticky (setT d ts)"
  shows "sticky (updateTargets fetchT storeT setT tagsOf new ks old ch)"
proof (induction ks arbitrary: old ch)
  case (Cons d ks)
  then show ?case using assms
    by (auto simp: Let_def split: option.splits sum.splits intro!: tx_sticky)
qed (simp add: sticky_ret)

lemma groupTags_wf: "gomap_wf acc \<Longrightarrow> gomap_wf (groupTags m ks acc)"
  by (induction ks arbitrary: acc) (simp_all add: Let_def distinct_update)

lemma groupTags_targets:
  assumes "set ks1 = set (gkeys tm)"
  shows "set (gget0 [] (groupTags tm ks1 []) d) = {g. gget tm g = Some d}"
proof -
  have "set (gget0 [] (groupTags tm ks1 []) d) = {g \<in> set (gkeys tm). gget0 '''' tm g = d}"
    using assms by (auto simp: groupTags_get)
  also have "\<dots> = {g. gget tm g = Some d}"
    unfolding gkeys_dom by (auto simp: gget0_def split: option.splits)
  finally show ?thesis .
qed

context tag_store
begin

lemma runs_deleteTargets:
  assumes "tables_wf (work s)" "\<not> txDone s" "runs (deleteTargets (deleteT env ptx r) ks ch) s ch' s'"
  shows "tags (work s') = withoutAll r (set ks) (tags (work s)) \<and> others (work s') = others (work s) \<and>
    tables_wf (work s') \<and> ch' = (ch \<or> ks \<noteq> [])"
  using assms
proof (induction ks arbitrary: s ch)
  case Nil
  then show ?case by (auto simp: withoutAll_def fun_eq_iff)
next
  case (Cons d ks)
  obtain res s1 where 1: "deleteT env ptx r d s = (res, s1)" by (cases "deleteT env ptx r d s")
  have run: "runs (deleteTargets (deleteT env ptx r) ks True) s1 ch' s'"
    using Cons.prems(3) by (simp add: runs_def 1 Let_def)
  have nf: "\<not> failed s1" using run stickyD(1) [OF sticky_deleteTargets [of "deleteT env ptx r", OF delete_sticky]]
    by (auto simp: runs_def)
  then have "res = Inr ()" using delete_error [of env ptx r d s _ s1] 1 Cons.prems(2) by (cases res) auto
  then have r1: "runs (deleteT env ptx r d) s () s1" using 1 nf by (simp add: runs_def)
  have d1: "tags (work s1) = without r d (tags (work s))" "others (work s1) = others (work s)"
    using delete_law [OF Cons.prems(1) r1] by simp_all
  have "tables_wf (work s1)" using runs_keeps [OF delete_wf r1 Cons.prems(1)] .
  moreover have "\<not> txDone s1" using stickyD(2) [OF delete_sticky 1] Cons.prems(2) by simp
  ultimately have IH: "tags (work s') = withoutAll r (set ks) (tags (work s1))" "others (work s') = others (work s1)"
      "tables_wf (work s')" "ch'"
    using Cons.IH [OF _ _ run] by simp_all
  have "withoutAll r (set ks) (without r d (tags (work s))) = withoutAll r (set (d # ks)) (tags (work s))"
    by (auto simp: withoutAll_def without_def fun_eq_iff)
  then show ?case using IH d1 by simp
qed

lemma runs_updateTargets:
  assumes "env_ok env" "tables_wf (work s)" "tags (work s) = partly r want P m"
    and "distinct ks" "set ks \<inter> P = {}" "\<And>d. d \<in> set ks \<Longrightarrow> set (gget0 [] new d) = {g. want g = Some d}"
    and "\<And>d y. d \<in> set ks \<Longrightarrow> gget old d = Some y \<Longrightarrow> tagsOf y = sort (gget0 [] new d) \<Longrightarrow>
        {g. m (r, g) = Some d} = {g. want g = Some d}"
    and "\<And>d ts x. fetchT d ts = Inr x \<Longrightarrow> digestOf x = d \<and> tagsOf x = ts"
    and "runs (updateTargets fetchT (storeT env ptx r) (setT env ptx r) tagsOf new ks old ch) s res s'"
  shows "tags (work s') = partly r want (P \<union> set ks) m \<and> others (work s') = others (work s) \<and>
    tables_wf (work s') \<and> gget (fst res) = (\<lambda>d. if d \<in> set ks then None else gget old d)"
  using assms(2-7,9)
proof (induction ks arbitrary: s P old ch)
  case Nil
  then show ?case by auto
next
  case (Cons d ks)
  let ?ts = "sort (gget0 [] new d)"
  let ?rest = "\<lambda>c. updateTargets fetchT (storeT env ptx r) (setT env ptx r) tagsOf new ks (gdel d old) c"
  have ts: "set ?ts = {g. want g = Some d}" using Cons.prems(5) by simp
  have dP: "d \<notin> P" using Cons.prems(4) by simp
  have stk: "sticky (?rest c)" for c by (intro sticky_updateTargets store_sticky set_sticky)
  have "\<exists>s1 c. runs (?rest c) s1 res s' \<and> tags (work s1) = partly r want (insert d P) m \<and>
      others (work s1) = others (work s) \<and> tables_wf (work s1)"
  proof (cases "gget old d")
    case None
    then obtain x where x: "fetchT d ?ts = Inr x"
      using Cons.prems(7) by (cases "fetchT d ?ts") (auto simp: Let_def)
    then have "runs (tryM (storeT env ptx r x) (\<lambda>_. ?rest True)) s res s'"
      using Cons.prems(7) None by (simp add: Let_def)
    then obtain s1 where s1: "runs (storeT env ptx r x) s () s1" "runs (?rest True) s1 res s'"
      unfolding runs_tryM [OF stk] by auto
    have "tags (work s1) = withSet r d ?ts (partly r want P m)" "others (work s1) = others (work s)"
      using store_law [OF Cons.prems(1) assms(1) s1(1)] assms(8) [OF x] Cons.prems(2) by simp_all
    then show ?thesis using s1(2) partly_set [OF dP ts] runs_keeps [OF store_wf s1(1) Cons.prems(1)] by auto
  next
    case (Some y)
    show ?thesis
    proof (cases "tagsOf y = ?ts")
      case True
      then have "runs (?rest ch) s res s'" using Cons.prems(7) Some by (simp add: Let_def stringsEqual_iff)
      moreover have "tags (work s) = partly r want (insert d P) m"
        using partly_skip [OF dP, of m r want] Cons.prems(2) Cons.prems(6) [OF _ Some True] by simp
      ultimately show ?thesis using Cons.prems(1) by blast
    next
      case False
      then have "runs (tryM (setT env ptx r d ?ts) (\<lambda>_. ?rest True)) s res s'"
        using Cons.prems(7) Some by (simp add: Let_def stringsEqual_iff)
      then obtain s1 where s1: "runs (setT env ptx r d ?ts) s () s1" "runs (?rest True) s1 res s'"
        unfolding runs_tryM [OF stk] by auto
      have "tags (work s1) = withSet r d ?ts (partly r want P m)" "others (work s1) = others (work s)"
        using set_law [OF Cons.prems(1) assms(1) s1(1)] Cons.prems(2) by simp_all
      then show ?thesis using s1(2) partly_set [OF dP ts] runs_keeps [OF set_wf s1(1) Cons.prems(1)] by auto
    qed
  qed
  then obtain s1 c where s1: "runs (?rest c) s1 res s'" "tags (work s1) = partly r want (insert d P) m"
      "others (work s1) = others (work s)" "tables_wf (work s1)" by blast
  have "tags (work s') = partly r want (insert d P \<union> set ks) m \<and> others (work s') = others (work s1) \<and>
      tables_wf (work s') \<and> gget (fst res) = (\<lambda>d'. if d' \<in> set ks then None else gget (gdel d old) d')"
  proof (rule Cons.IH [OF s1(4,2) _ _ _ _ s1(1)])
    show "distinct ks" "set ks \<inter> insert d P = {}" using Cons.prems(3,4) by auto
    show "set (gget0 [] new d') = {g. want g = Some d'}" if "d' \<in> set ks" for d' using Cons.prems(5) that by simp
    show "{g. m (r, g) = Some d'} = {g. want g = Some d'}"
      if "d' \<in> set ks" "gget (gdel d old) d' = Some y" "tagsOf y = sort (gget0 [] new d')" for d' y
      using Cons.prems(6) [of d' y] that by (auto split: if_splits)
  qed
  then show ?case using s1(3) by (auto simp: fun_eq_iff)
qed

text \<open>Both loops together.\<close>

lemma runs_update:
  assumes "env_ok env" "tables_wf (work s)" "\<not> txDone s" "set ks1 = set (gkeys tm)"
    and "mset ks2 = mset (gkeys (groupTags tm ks1 []))" "set ks3 = set (gkeys (fst res))"
    and "runs (updateTargets fetchT (storeT env ptx r) (setT env ptx r) tagsOf (groupTags tm ks1 []) ks2 old ch) s res s1"
    and "runs (deleteTargets (deleteT env ptx r) ks3 (snd res)) s1 ch' s'"
    and old: "\<And>g d. tags (work s) (r, g) = Some d \<Longrightarrow> gget old d \<noteq> None"
    and same: "\<And>d y. gget old d = Some y \<Longrightarrow> set (tagsOf y) = {g. tags (work s) (r, g) = Some d}"
    and "\<And>d ts x. fetchT d ts = Inr x \<Longrightarrow> digestOf x = d \<and> tagsOf x = ts"
  shows "tags (work s') = becomes r (gget tm) (tags (work s)) \<and> others (work s') = others (work s) \<and> tables_wf (work s')"
proof -
  let ?new = "groupTags tm ks1 []" and ?m = "tags (work s)"
  note new = groupTags_targets [OF assms(4)]
  have ks2: "set ks2 = set (gkeys ?new)" "distinct ks2"
    using assms(5) groupTags_wf [of "[]" tm ks1] by (metis set_mset_mset, metis mset_eq_imp_distinct_iff distinct.simps(1) list.map(1))
  have skip: "{g. ?m (r, g) = Some d} = {g. gget tm g = Some d}"
    if "gget old d = Some y" "tagsOf y = sort (gget0 [] ?new d)" for d y
    using same [OF that(1)] that(2) new [of d] by simp
  have P: "tags (work s) = partly r (gget tm) {} ?m" by (simp add: partly_start)
  have u: "tags (work s1) = partly r (gget tm) (set ks2) ?m" "others (work s1) = others (work s)" "tables_wf (work s1)"
      "gget (fst res) = (\<lambda>d. if d \<in> set ks2 then None else gget old d)"
    using runs_updateTargets [OF assms(1,2) P ks2(2) _ new _ assms(11) assms(7)] skip by simp_all
  have "\<not> txDone s1"
    using assms(3,7) stickyD(2) [OF sticky_updateTargets [of "storeT env ptx r" "setT env ptx r", OF store_sticky set_sticky]]
    by (auto simp: runs_def)
  from runs_deleteTargets [OF u(3) this assms(8)]
  have d: "tags (work s') = withoutAll r (set ks3) (tags (work s1))" "others (work s') = others (work s1)" "tables_wf (work s')"
    by simp_all
  have ks3: "set ks3 = {d. gget old d \<noteq> None} - set ks2"
    unfolding assms(6) gkeys_dom u(4) by auto
  have in2: "d \<in> set ks2" if "gget tm g = Some d" for g d
  proof -
    have "g \<in> set ks1" "gget0 '''' tm g = d" using that unfolding assms(4) gkeys_iff by auto
    then show ?thesis unfolding ks2(1) groupTags_keys by force
  qed
  have "withoutAll r (set ks3) (partly r (gget tm) (set ks2) ?m) = becomes r (gget tm) ?m"
    by (rule partly_end) (use in2 old ks3 in auto)
  then show ?thesis using d u by simp
qed

end

subsection \<open>What the query tells the update\<close>

text \<open>\<open>unshared tb t r\<close>: what has a tag in \<open>r\<close> has tags in no other repository. \<open>filled t r\<close>: every list
  with a tag in \<open>r\<close> has an entry.\<close>

definition unshared :: "tag_table \<Rightarrow> tables \<Rightarrow> string \<Rightarrow> bool" where
  "unshared tb t r \<longleftrightarrow> (\<forall>((r', g'), d') \<in> set (tagRows tb t). \<forall>((r1, g1), d1) \<in> set (tagRows tb t).
     r1 = r \<and> d1 = d' \<longrightarrow> r' = r)"

definition filled :: "tables \<Rightarrow> string \<Rightarrow> bool" where
  "filled t r \<longleftrightarrow> (\<forall>((r', g), l) \<in> set (listTagT t). r' = r \<longrightarrow> l \<in> fst ` set (listEntryT t))"

lemma byDigest_in: "x \<in> set xs \<Longrightarrow> digestOf x = d \<Longrightarrow> gget (byDigest digestOf xs []) d \<noteq> None"
  unfolding byDigest_none by blast

lemma tagMap_iff: "tables_wf t \<Longrightarrow> tagMap tb t (r, g) = Some d \<longleftrightarrow> ((r, g), d) \<in> set (tagRows tb t)"
  using tables_wf_distinct [of t tb] by (simp add: tagMap_def)

lemma unshared_tags:
  assumes "tables_wf t" "unshared tb t r" "((r, g0), d) \<in> set (tagRows tb t)"
  shows "set (tagsOfDigest (tagRows tb t) d) = {g. tagMap tb t (r, g) = Some d} \<and> distinct (tagsOfDigest (tagRows tb t) d)"
proof
  show "set (tagsOfDigest (tagRows tb t) d) = {g. tagMap tb t (r, g) = Some d}"
    using assms by (auto simp: tagsOfDigest_set tagMap_iff unshared_def)
  have r: "r' = r" if "((r', g), d) \<in> set (tagRows tb t)" for r' g
    using assms(2,3) that by (auto simp: unshared_def)
  have "inj_on (\<lambda>((r, g), d). g) (set (filter (\<lambda>((r, g), d'). d' = d) (tagRows tb t)))"
    by (rule inj_onI) (auto dest: r)
  then show "distinct (tagsOfDigest (tagRows tb t) d)"
    unfolding tagsOfDigest_def distinct_map
    using tables_wf_distinct [OF assms(1), of tb] by (simp add: distinct_map distinct_filter)
qed

lemma unshared_sorted:
  assumes "tables_wf t" "unshared tb t r" "ts = sort (tagsOfDigest (tagRows tb t) d) \<and> (\<exists>g. tagMap tb t (r, g) = Some d)"
  shows "set ts = {g. tagMap tb t (r, g) = Some d} \<and> sorted ts \<and> distinct ts \<and> (\<exists>g. tagMap tb t (r, g) = Some d)"
proof -
  obtain g where g: "tagMap tb t (r, g) = Some d" using assms(3) by blast
  then have "((r, g), d) \<in> set (tagRows tb t)" using tagMap_iff [OF assms(1)] by simp
  from unshared_tags [OF assms(1,2) this] g assms(3) show ?thesis by auto
qed

lemma old_images_all:
  assumes "tables_wf (work s)" "env_ok env" "text_ok r"
    and "runs (DoQuery env ptx (Repository_q r NewQuery)) s repos s'"
    and old_def: "old = (if length repos > 0 then byDigest Digest (Images (repos ! 0)) [] else [])"
  shows "tagMap TagImage (work s) (r, g) = Some d \<Longrightarrow> gget old d \<noteq> None"
    "gget old d = Some y \<Longrightarrow> Tags y = sort (tagsOfDigest (imageTagT (work s)) d) \<and> (\<exists>g. tagMap TagImage (work s) (r, g) = Some d)"
proof -
  let ?t = "work s"
  note q = query_wf_repo [of r] query_text_ok_repo [OF assms(3)]
  note one = runs_DoQuery_repo [OF assms(1-4)]
  have pairs: "imagePairs repos = (\<lambda>(r, g, im). (r, withTags im (sort (tagsOfDigest (imageTagT ?t) (Digest im))))) `
       {x \<in> set (joinImages ?t). fst x = r}"
    using runs_DoQuery(2) [OF assms(1,2) q assms(4)] by (simp add: query_matches_repo imageRow_def case_prod_unfold)
  have imgs: "(r, im) \<in> imagePairs repos \<longleftrightarrow> length repos > 0 \<and> im \<in> set (Images (repos ! 0))" for im
    using one by (cases repos) (auto simp: imagePairs_def)
  show "gget old d \<noteq> None" if row: "tagMap TagImage ?t (r, g) = Some d"
  proof -
    have "((r, g), d) \<in> set (imageTagT ?t)" using row tagMap_iff [OF assms(1), of TagImage] by simp
    moreover then have "gget (imageT ?t) d \<noteq> None" using assms(1) by (force simp: tables_wf_def tags_wf_def)
    ultimately obtain im where "(r, g, im) \<in> set (joinImages ?t)" "Digest im = d"
      unfolding joinImages_iff using tables_wf_image [OF assms(1)] by blast
    then have "(r, withTags im (sort (tagsOfDigest (imageTagT ?t) d))) \<in> imagePairs repos" unfolding pairs by force
    then have ims: "length repos > 0" "withTags im (sort (tagsOfDigest (imageTagT ?t) d)) \<in> set (Images (repos ! 0))"
      unfolding imgs by simp_all
    show ?thesis using byDigest_in [OF ims(2), of Digest d] ims(1) \<open>Digest im = d\<close> by (simp add: old_def)
  qed
  show "Tags y = sort (tagsOfDigest (imageTagT ?t) d) \<and> (\<exists>g. tagMap TagImage ?t (r, g) = Some d)" if y: "gget old d = Some y"
  proof -
    have b: "length repos > 0" "gget (byDigest Digest (Images (repos ! 0)) []) d = Some y"
      using y by (auto simp: old_def split: if_splits)
    then have "(r, y) \<in> imagePairs repos" "Digest y = d" unfolding imgs using byDigest_some [OF b(2)] by simp_all
    then obtain g im where im: "(r, g, im) \<in> set (joinImages ?t)" "y = withTags im (sort (tagsOfDigest (imageTagT ?t) (Digest im)))"
      unfolding pairs by auto
    then have d: "Digest im = d" using \<open>Digest y = d\<close> by simp
    have row: "((r, g), d) \<in> set (tagRows TagImage ?t)"
      using im(1) d tables_wf_image [OF assms(1)] unfolding joinImages_iff by fastforce
    then show ?thesis using im(2) d tagMap_iff [OF assms(1)] by auto
  qed
qed

lemma old_images:
  assumes "tables_wf (work s)" "env_ok env" "text_ok r" "unshared TagImage (work s) r"
    and "runs (DoQuery env ptx (Repository_q r NewQuery)) s repos s'"
    and "old = (if length repos > 0 then byDigest Digest (Images (repos ! 0)) [] else [])"
  shows "tagMap TagImage (work s) (r, g) = Some d \<Longrightarrow> gget old d \<noteq> None"
    "gget old d = Some y \<Longrightarrow> set (Tags y) = {g. tagMap TagImage (work s) (r, g) = Some d} \<and> sorted (Tags y) \<and> distinct (Tags y) \<and>
       (\<exists>g. tagMap TagImage (work s) (r, g) = Some d)"
  using old_images_all [OF assms(1-3,5,6)] unshared_sorted [OF assms(1,4), of "Tags y" d] by simp_all

lemma old_lists_all:
  assumes "tables_wf (work s)" "env_ok env" "text_ok r" "filled (work s) r"
    and "runs (DoQuery env ptx (Repository_q r NewQuery)) s repos s'"
    and old_def: "old = (if length repos > 0 then byDigest listDigest (Lists (repos ! 0)) [] else [])"
  shows "tagMap TagList (work s) (r, g) = Some l \<Longrightarrow> gget old l \<noteq> None"
    "gget old l = Some y \<Longrightarrow> listTags y = sort (tagsOfDigest (listTagT (work s)) l) \<and> (\<exists>g. tagMap TagList (work s) (r, g) = Some l)"
proof -
  let ?t = "work s"
  note q = query_wf_repo [of r] query_text_ok_repo [OF assms(3)]
  note one = runs_DoQuery_repo [OF assms(1-3,5)]
  note res = runs_DoQuery(3,4) [OF assms(1,2) q assms(5)]
  have lists: "(r, li) \<in> listPairs repos \<longleftrightarrow> length repos > 0 \<and> li \<in> set (Lists (repos ! 0))" for li
    using one by (cases repos) (auto simp: listPairs_def)
  show "gget old l \<noteq> None" if row: "tagMap TagList ?t (r, g) = Some l"
  proof -
    have r: "((r, g), l) \<in> set (listTagT ?t)" using row tagMap_iff [OF assms(1), of TagList] by simp
    then obtain d where e: "(l, d) \<in> set (listEntryT ?t)" using assms(4) by (force simp: filled_def)
    then obtain im where "gget (imageT ?t) d = Some im" using assms(1) by (force simp: tables_wf_def)
    then have "(r, g, l, im) \<in> set (joinLists ?t)" unfolding joinLists_iff using r e by blast
    then obtain li where "(r, li) \<in> listPairs repos" "listDigest li = l"
      using res(2) [of r g l im] by (auto simp: query_matches_repo listRow_def)
    then have lis: "length repos > 0" "li \<in> set (Lists (repos ! 0))" "listDigest li = l" unfolding lists by simp_all
    show ?thesis using byDigest_in [OF lis(2), of listDigest l] lis(1,3) by (simp add: old_def)
  qed
  show "listTags y = sort (tagsOfDigest (listTagT ?t) l) \<and> (\<exists>g. tagMap TagList ?t (r, g) = Some l)" if y: "gget old l = Some y"
  proof -
    have b: "length repos > 0" "gget (byDigest listDigest (Lists (repos ! 0)) []) l = Some y"
      using y by (auto simp: old_def split: if_splits)
    then have li: "(r, y) \<in> listPairs repos" "listDigest y = l" unfolding lists using byDigest_some [OF b(2)] by simp_all
    have m: "listMatch (Repository_q r NewQuery) ?t r y" by (rule res(1) [OF li(1)])
    then have "hd (listImages y) \<in> {im. \<exists>g. (r, g, l, im) \<in> set (joinLists ?t) \<and>
        query_matches (Repository_q r NewQuery) (listRow (r, g, l, im))}"
      using hd_in_set [of "listImages y"] li(2) unfolding listMatch_def by blast
    then obtain g where row: "((r, g), l) \<in> set (tagRows TagList ?t)" unfolding joinLists_iff by auto
    then show ?thesis using m li(2) tagMap_iff [OF assms(1)] by (auto simp: listMatch_def)
  qed
qed

lemma old_lists:
  assumes "tables_wf (work s)" "env_ok env" "text_ok r" "unshared TagList (work s) r" "filled (work s) r"
    and "runs (DoQuery env ptx (Repository_q r NewQuery)) s repos s'"
    and "old = (if length repos > 0 then byDigest listDigest (Lists (repos ! 0)) [] else [])"
  shows "tagMap TagList (work s) (r, g) = Some l \<Longrightarrow> gget old l \<noteq> None"
    "gget old l = Some y \<Longrightarrow> set (listTags y) = {g. tagMap TagList (work s) (r, g) = Some l} \<and> sorted (listTags y) \<and> distinct (listTags y) \<and>
       (\<exists>g. tagMap TagList (work s) (r, g) = Some l)"
  using old_lists_all [OF assms(1-3,5-7)] unshared_sorted [OF assms(1,4), of "listTags y" l] by simp_all

subsection \<open>The update of a repository\<close>

lemma readConfig_Digest: "readConfig client cfg im = Inr (im', lm) \<Longrightarrow> Digest im' = Digest im"
  by (auto simp: readConfig_def Let_def split: sum.splits option.splits)

lemma fetchImage_Digest: "fetchImage ord client d im = Inr im' \<Longrightarrow> Digest im' = d"
  by (auto simp: fetchImage_def Let_def dest!: readConfig_Digest split: sum.splits option.splits manifest.splits)

lemma fetchTaggedImage_law: "fetchTaggedImage ord client d ts = Inr x \<Longrightarrow> Digest x = d \<and> Tags x = ts"
  by (auto simp: fetchTaggedImage_def fetchImage_Digest split: sum.splits)

lemma fetchTaggedList_law: "fetchTaggedList ord client d ts = Inr x \<Longrightarrow> listDigest x = d \<and> listTags x = ts"
  by (auto simp: fetchTaggedList_def fetchImageList_def Let_def split: sum.splits manifest.splits)

lemma loopOrd_set: "env_ok env \<Longrightarrow> set (loopOrd env s i ks) = set ks"
  using loopOrd_range range_order_set by blast

lemma loopOrd_mset: "env_ok env \<Longrightarrow> mset (loopOrd env s i ks) = mset ks"
  using loopOrd_range [of env s] by (simp add: range_order_def)

lemma sticky_delete_loop:
  "(\<And>d. sticky (deleteT d)) \<Longrightarrow> sticky (case x of (old, ch) \<Rightarrow> (\<lambda>s. deleteTargets deleteT (loopOrd env s i (gkeys old)) ch s))"
proof -
  assume a: "\<And>d. sticky (deleteT d)"
  have "sticky (\<lambda>s. deleteTargets deleteT (loopOrd env s i (gkeys (fst x))) (snd x) s)"
    by (rule sticky_state [where f = "\<lambda>ks. deleteTargets deleteT ks (snd x)"]) (rule sticky_deleteTargets [OF a])
  then show ?thesis by (simp add: case_prod_unfold)
qed

lemma runs_updateImages:
  assumes "env_ok env" "tables_wf (work s)" "\<not> txDone s"
    and "runs (updateImages env ptx client r imageTags old ch) s ch' s'"
    and "\<And>g d. tagMap TagImage (work s) (r, g) = Some d \<Longrightarrow> gget old d \<noteq> None"
    and "\<And>d y. gget old d = Some y \<Longrightarrow> set (Tags y) = {g. tagMap TagImage (work s) (r, g) = Some d}"
  shows "tagMap TagImage (work s') = becomes r (gget imageTags) (tagMap TagImage (work s)) \<and>
    tagMap TagList (work s') = tagMap TagList (work s) \<and> tables_wf (work s') \<and> txDone s' = txDone s"
proof -
  let ?ks1 = "loopOrd env s 2 (gkeys imageTags)"
  let ?new = "groupTags imageTags ?ks1 []"
  let ?u = "updateTargets (fetchTaggedImage (loopOrd env s) client) (StoreImage env ptx r) (SetImageTags env ptx r)
    Tags ?new (loopOrd env s 3 (gkeys ?new)) old ch"
  let ?d = "\<lambda>x. case x of (old, ch) \<Rightarrow> (\<lambda>s. deleteTargets (DeleteImage env ptx r) (loopOrd env s 4 (gkeys old)) ch s)"
  have stk: "sticky (?d x)" for x by (rule sticky_delete_loop) (rule sticky_Store)
  have "runs (tryM ?u ?d) s ch' s'" using assms(4) by (simp add: updateImages_def Let_def runs_def)
  then obtain res s1 where u: "runs ?u s res s1" and d: "runs (?d res) s1 ch' s'" unfolding runs_tryM [OF stk] by blast
  have d': "runs (deleteTargets (DeleteImage env ptx r) (loopOrd env s1 4 (gkeys (fst res))) (snd res)) s1 ch' s'"
    using d by (simp add: runs_def case_prod_unfold)
  have stku: "sticky ?u" by (intro sticky_updateTargets tx_sticky)
  have "txDone s' = txDone s"
    using stickyD(2) [OF stku, of s "Inr res" s1] stickyD(2) [OF stk, of res s1 "Inr ch'" s'] u d by (simp add: runs_def)
  then show ?thesis
    using image_store.runs_update [OF assms(1-3) loopOrd_set [OF assms(1)] loopOrd_mset [OF assms(1)]
        loopOrd_set [OF assms(1)] u d' assms(5,6) fetchTaggedImage_law] by simp
qed

lemma runs_updateLists:
  assumes "env_ok env" "tables_wf (work s)" "\<not> txDone s"
    and "runs (updateLists env ptx client r lm old ch) s ch' s'"
    and "\<And>g d. tagMap TagList (work s) (r, g) = Some d \<Longrightarrow> gget old d \<noteq> None"
    and "\<And>d y. gget old d = Some y \<Longrightarrow> set (listTags y) = {g. tagMap TagList (work s) (r, g) = Some d}"
  shows "tagMap TagList (work s') = becomes r (gget lm) (tagMap TagList (work s)) \<and>
    tagMap TagImage (work s') = tagMap TagImage (work s) \<and> tables_wf (work s')"
proof -
  let ?ks1 = "loopOrd env s 5 (gkeys lm)"
  let ?new = "groupTags lm ?ks1 []"
  let ?u = "updateTargets (fetchTaggedList (loopOrd env s) client) (StoreImageList env ptx r) (SetImageListTags env ptx r)
    listTags ?new (loopOrd env s 6 (gkeys ?new)) old ch"
  let ?d = "\<lambda>x. case x of (old, ch) \<Rightarrow> (\<lambda>s. deleteTargets (DeleteImageList env ptx r) (loopOrd env s 7 (gkeys old)) ch s)"
  have stk: "sticky (?d x)" for x by (rule sticky_delete_loop) (rule sticky_Store)
  have "runs (tryM ?u ?d) s ch' s'" using assms(4) by (simp add: updateLists_def Let_def runs_def)
  then obtain res s1 where u: "runs ?u s res s1" and d: "runs (?d res) s1 ch' s'" unfolding runs_tryM [OF stk] by blast
  have d': "runs (deleteTargets (DeleteImageList env ptx r) (loopOrd env s1 7 (gkeys (fst res))) (snd res)) s1 ch' s'"
    using d by (simp add: runs_def case_prod_unfold)
  show ?thesis
    using list_store.runs_update [OF assms(1-3) loopOrd_set [OF assms(1)] loopOrd_mset [OF assms(1)]
        loopOrd_set [OF assms(1)] u d' assms(5,6) fetchTaggedList_law] by simp
qed

lemma sticky_updateLists: "sticky (updateLists env ptx client r tm old ch)"
proof -
  let ?f = "\<lambda>ord. tryM (updateTargets (fetchTaggedList ord client) (StoreImageList env ptx r) (SetImageListTags env ptx r)
      listTags (groupTags tm (ord (5::nat) (gkeys tm)) []) (ord 6 (gkeys (groupTags tm (ord 5 (gkeys tm)) []))) old ch)
      (\<lambda>(oldLists, changed). (\<lambda>s. deleteTargets (DeleteImageList env ptx r) (loopOrd env s 7 (gkeys oldLists)) changed s))"
  have "sticky (?f ord)" for ord
    by (intro sticky_tryM sticky_updateTargets sticky_delete_loop tx_sticky)
  from sticky_state [where f = ?f and g = "loopOrd env", OF this] show ?thesis
    by (simp add: updateLists_def [abs_def] Let_def)
qed

lemma sticky_updateImages: "sticky (updateImages env ptx client r tm old ch)"
proof -
  let ?f = "\<lambda>ord. tryM (updateTargets (fetchTaggedImage ord client) (StoreImage env ptx r) (SetImageTags env ptx r)
      Tags (groupTags tm (ord (2::nat) (gkeys tm)) []) (ord 3 (gkeys (groupTags tm (ord 2 (gkeys tm)) []))) old ch)
      (\<lambda>(oldImages, changed). (\<lambda>s. deleteTargets (DeleteImage env ptx r) (loopOrd env s 4 (gkeys oldImages)) changed s))"
  have "sticky (?f ord)" for ord
    by (intro sticky_tryM sticky_updateTargets sticky_delete_loop tx_sticky)
  from sticky_state [where f = ?f and g = "loopOrd env", OF this] show ?thesis
    by (simp add: updateImages_def [abs_def] Let_def)
qed

text \<open>The entries the update starts from, and its three steps.\<close>

definition oldEntries :: "('a \<Rightarrow> string) \<Rightarrow> (Repository \<Rightarrow> 'a list) \<Rightarrow> Repository list \<Rightarrow> 'a gomap" where
  "oldEntries digestOf entries repos = (if length repos > 0 then byDigest digestOf (entries (repos ! 0)) [] else [])"

lemma updateTags_steps:
  assumes "runs (updateTags env ptx fop im li) s ch s'"
  obtains repos s0 ch1 s1 where "runs (DoQuery env ptx (Repository_q (opName fop) NewQuery)) s repos s0"
    "runs (updateImages env ptx (opClient fop) (opName fop) im (oldEntries Digest Images repos) False) s0 ch1 s1"
    "runs (updateLists env ptx (opClient fop) (opName fop) li (oldEntries listDigest Lists repos) ch1) s1 ch s'"
proof -
  let ?q = "DoQuery env ptx (Repository_q (opName fop) NewQuery)"
  let ?u = "\<lambda>repos. updateImages env ptx (opClient fop) (opName fop) im (oldEntries Digest Images repos) False"
  let ?l = "\<lambda>repos ch. updateLists env ptx (opClient fop) (opName fop) li (oldEntries listDigest Lists repos) ch"
  have stk: "sticky (tryM (?u repos) (?l repos))" for repos
    by (intro sticky_tryM sticky_updateImages sticky_updateLists)
  have "runs (tryM ?q (\<lambda>repos. tryM (?u repos) (?l repos))) s ch s'"
    using assms by (simp add: updateTags_def Let_def oldEntries_def)
  then obtain repos s0 where q: "runs ?q s repos s0" and "runs (tryM (?u repos) (?l repos)) s0 ch s'"
    unfolding runs_tryM [OF stk] by blast
  then obtain ch1 s1 where "runs (?u repos) s0 ch1 s1" "runs (?l repos ch1) s1 ch s'"
    unfolding runs_tryM [OF sticky_updateLists] by blast
  with q show thesis by (rule that)
qed

lemma runs_updateTags:
  assumes "env_ok env" "tables_wf (work s)" "\<not> txDone s" "text_ok (opName fop)"
    and "unshared TagImage (work s) (opName fop)" "unshared TagList (work s) (opName fop)" "filled (work s) (opName fop)"
    and "runs (updateTags env ptx fop im li) s ch s'"
  shows "tagMap TagImage (work s') = becomes (opName fop) (gget im) (tagMap TagImage (work s)) \<and>
    tagMap TagList (work s') = becomes (opName fop) (gget li) (tagMap TagList (work s)) \<and> tables_wf (work s')"
proof -
  let ?r = "opName fop"
  from updateTags_steps [OF assms(8)] obtain repos s0 ch1 s1 where q: "runs (DoQuery env ptx (Repository_q ?r NewQuery)) s repos s0"
    and u: "runs (updateImages env ptx (opClient fop) ?r im (oldEntries Digest Images repos) False) s0 ch1 s1"
    and l: "runs (updateLists env ptx (opClient fop) ?r li (oldEntries listDigest Lists repos) ch1) s1 ch s'" .
  have w0: "work s0 = work s" using runs_DoQuery(1) [OF assms(2,1) query_wf_repo query_text_ok_repo [OF assms(4)] q] .
  have d0: "\<not> txDone s0" using stickyD(2) [OF sticky_DoQuery, of env ptx _ s "Inr repos" s0] q assms(3) by (auto simp: runs_def)
  note oi = old_images [OF assms(2,1,4,5) q oldEntries_def [of Digest Images repos]] and ol = old_lists [OF assms(2,1,4,6,7) q oldEntries_def [of listDigest Lists repos]]
  have i: "tagMap TagImage (work s1) = becomes ?r (gget im) (tagMap TagImage (work s))"
    "tagMap TagList (work s1) = tagMap TagList (work s)" "tables_wf (work s1)" "\<not> txDone s1"
    using runs_updateImages [OF assms(1) _ d0 u] oi assms(2) d0 unfolding w0 by simp_all
  show ?thesis using runs_updateLists [OF assms(1) i(3,4) l] ol i(1,2) by simp
qed

subsection \<open>The whole fetch\<close>

text \<open>What the registry holds of a repository: the digest each of its tags names.\<close>

definition registryTags :: "string list \<Rightarrow> repoClient \<Rightarrow> string \<Rightarrow> string option" where
  "registryTags types client = (\<lambda>g. case tagsAll client of
     Inr allTags \<Rightarrow> if g \<in> set allTags then tagTarget types client g else None | Inl _ \<Rightarrow> None)"

lemma getTagsFromRegistry_spec:
  assumes "getTagsFromRegistry client = Inr (im, li)"
  shows "gget im = registryTags imageMediaTypes client" "gget li = registryTags listMediaTypes client"
  using assms getTags_loop_spec [of client _ "[]" "[]" im li]
  by (auto simp: getTagsFromRegistry_def registryTags_def fun_eq_iff split: sum.splits option.splits)

lemma fetchRepository_nil:
  assumes "fetchRepository env recv reg repo db bc = (Inr (), db', bc')"
  obtains fop im li ch s' where "newFetchOperation reg repo = Inr fop" "getTagsFromRegistry (opClient fop) = Inr (im, li)"
    "runs (updateTags env ptx0 fop im li) (newTx db) ch s'" "db' = work s'" "bc' = (if ch then announce recv bc else bc)"
proof -
  from assms obtain fop im li where f: "newFetchOperation reg repo = Inr fop" "getTagsFromRegistry (opClient fop) = Inr (im, li)"
    by (auto simp: fetchRepository_def split: sum.splits)
  obtain res s' where u: "updateTags env ptx0 fop im li (newTx db) = (res, s')" by (cases "updateTags env ptx0 fop im li (newTx db)")
  have b: "Begin env db = Inr (ptx0, newTx db)" "modify ptx0 = False"
    using assms f by (auto simp: fetchRepository_def Begin_def ptx0_def newTx_def split: if_splits)
  obtain ch where ch: "res = Inr ch"
    using assms f b u by (cases res) (auto simp: fetchRepository_def updateRepositoryInDatabase_def Rollback_def case_prod_unfold)
  have c: "db' = work s' \<and> \<not> failed s' \<and> bc' = (if ch then announce recv bc else bc)"
    using assms f b u ch by (auto simp: fetchRepository_def updateRepositoryInDatabase_def Commit_def sqlCommit_def Let_def
        checkModification_def Modified_def split: if_splits commit_outcome.splits)
  show thesis by (rule that [OF f, of ch s']) (use u ch c in \<open>simp_all add: runs_def\<close>)
qed

text \<open>
  C1. When a fetch of a repository succeeds, the database has exactly the registry's tags for it: every image tag
  and every list tag of the repository names the digest the registry gave for it, a tag the registry does
  not have is gone, the tags of every other repository are as they were, and the keys and references of
  the schema still hold. This needs, of the tables before, that they keep the schema, that what is tagged in the repository is not tagged in
  another one and that its lists have entries, and that the name is a text the database can hold; the client is arbitrary, and so are the order of maps and rows.
\<close>

theorem fetchRepository_correct:
  assumes "fetchRepository env recv reg repo db bc = (Inr (), db', bc')"
    and "parseNamed reg repo = Inr r" "newRepositoryClient reg r = Inr client" "text_ok r"
    and "env_ok env" "tables_wf db" "unshared TagImage db r" "unshared TagList db r" "filled db r"
  shows "tagMap TagImage db' = becomes r (registryTags imageMediaTypes client) (tagMap TagImage db) \<and>
    tagMap TagList db' = becomes r (registryTags listMediaTypes client) (tagMap TagList db) \<and> tables_wf db'"
proof -
  from fetchRepository_nil [OF assms(1)] obtain fop im li ch s' where f: "newFetchOperation reg repo = Inr fop"
      "getTagsFromRegistry (opClient fop) = Inr (im, li)" "runs (updateTags env ptx0 fop im li) (newTx db) ch s'" "db' = work s'" .
  have fop: "opName fop = r" "opClient fop = client"
    using f(1) assms(2,3) by (auto simp: newFetchOperation_def split: sum.splits)
  have w: "work (newTx db) = db" "\<not> txDone (newTx db)" by (simp_all add: newTx_def)
  show ?thesis using runs_updateTags [OF assms(5) _ w(2) _ _ _ _ f(3)] assms(4,6-9)
      getTagsFromRegistry_spec [OF f(2)] unfolding fop w f(4) by simp
qed

text \<open>
  C7. When a fetch of a repository fails, wherever it fails, the database is as it was; only when the answer
  to the commit was lost may the whole update have been applied.
\<close>

theorem fetchRepository_atomic:
  assumes "fetchRepository env recv reg repo db bc = (Inl e, db', bc')"
  shows "db' = db \<or> commitOutcome env = CommitUnknown"
proof -
  have r: "Rollback p s d = (x, s', d') \<Longrightarrow> d' = d" for p s d x s' d'
    by (auto simp: Rollback_def sqlRollback_def split: if_splits)
  have c: "Commit env p s d = (Inl x, s', d') \<Longrightarrow> d' = d \<or> commitOutcome env = CommitUnknown" for p s d x s' d'
    by (auto simp: Commit_def sqlCommit_def sqlRollback_def Let_def split: if_splits commit_outcome.splits sum.splits prod.splits)
  show ?thesis using assms
    by (auto simp: fetchRepository_def Let_def split: sum.splits prod.splits dest: r c)
qed

subsection \<open>Examples\<close>

definition demoClient :: "string list \<Rightarrow> repoClient" where
  "demoClient tgs = \<lparr>tagsAll = Inr tgs,
     tagsGet = (\<lambda>g. if g = ''multi'' then Inr \<lparr>descMediaType = listMediaTypes ! 0, descDigest = ''l1''\<rparr>
       else Inr \<lparr>descMediaType = imageMediaTypes ! 0, descDigest = ''d1''\<rparr>),
     manifestsService = Inr (),
     manifestGet = (\<lambda>d. if d = ''l1'' then Inr (ManifestList ''ml'' [''d1'']) else Inr (Schema2 ''m'' ''c'')),
     blobGet = (\<lambda>_. Inr (Some (JObj [(''os'', JStr ''linux'')])))\<rparr>"

definition demoRegistry :: "string list \<Rightarrow> registry" where
  "demoRegistry tgs = \<lparr>parseNamed = Inr, newRepositoryClient = (\<lambda>_. Inr (demoClient tgs))\<rparr>"

text \<open>One repository with a stale tag; its image keeps its digest but the tag \<open>v0\<close> is gone from the registry.\<close>

definition staleTag :: tables where
  "staleTag = emptyTables\<lparr>imageT := [(''d0'', zeroImage\<lparr>Digest := ''d0''\<rparr>)], imageTagT := [((''app'', ''v0''), ''d0'')]\<rparr>"

lemma staleTag_wf: "tables_wf staleTag"
  by (simp add: staleTag_def emptyTables_def tables_wf_def images_wf_def lists_wf_def tags_wf_def image_wf_def zeroImage_def)

theorem fetchRepository_correct_witness:
  "\<exists>db' bc'. fetchRepository okEnv (\<lambda>_. False) (demoRegistry [''v1'', ''multi'']) ''app'' staleTag NewChangeBroadcaster = (Inr (), db', bc') \<and>
     tagMap TagImage db' (''app'', ''v1'') = Some ''d1'' \<and> tagMap TagImage db' (''app'', ''v0'') = None \<and>
     tagMap TagList db' (''app'', ''multi'') = Some ''l1'' \<and> tables_wf db'"
proof -
  let ?reg = "demoRegistry [''v1'', ''multi'']" and ?cl = "demoClient [''v1'', ''multi'']"
  let ?f = "fetchRepository okEnv (\<lambda>_. False) ?reg ''app'' staleTag NewChangeBroadcaster"
  have "fst ?f = Inr ()" by code_simp
  then obtain db' bc' where f: "?f = (Inr (), db', bc')" by (cases ?f) auto
  have 1: "parseNamed ?reg ''app'' = Inr ''app''" "newRepositoryClient ?reg ''app'' = Inr ?cl"
    by (simp_all add: demoRegistry_def)
  have 2: "text_ok ''app''" by code_simp
  have 3: "unshared TagImage staleTag ''app''" by code_simp
  have 4: "unshared TagList staleTag ''app''" by code_simp
  have 5: "filled staleTag ''app''" by code_simp
  have 6: "registryTags imageMediaTypes ?cl ''v1'' = Some ''d1''" by code_simp
  have 7: "registryTags imageMediaTypes ?cl ''v0'' = None" by code_simp
  have 8: "registryTags listMediaTypes ?cl ''multi'' = Some ''l1''" by code_simp
  show ?thesis using fetchRepository_correct [OF f 1 2 okEnv_ok(1) staleTag_wf 3 4 5] f 6 7 8 by (simp add: becomes_def)
qed

theorem fetchRepository_atomic_witness:
  "\<exists>e bc'. fetchRepository (okEnv\<lparr>faultAt := (\<lambda>k. k = 3)\<rparr>) (\<lambda>_. False) (demoRegistry [''v1'', ''multi'']) ''app'' staleTag
     NewChangeBroadcaster = (Inl e, staleTag, bc')"
proof -
  let ?f = "fetchRepository (okEnv\<lparr>faultAt := (\<lambda>k. k = 3)\<rparr>) (\<lambda>_. False) (demoRegistry [''v1'', ''multi'']) ''app'' staleTag
     NewChangeBroadcaster"
  have "fst ?f = Inl ConnError" by code_simp
  then obtain db' bc' where f: "?f = (Inl ConnError, db', bc')" by (cases ?f) auto
  have "commitOutcome (okEnv\<lparr>faultAt := (\<lambda>k. k = 3)\<rparr>) \<noteq> CommitUnknown" by (simp add: okEnv_def)
  then show ?thesis using fetchRepository_atomic [OF f] f by auto
qed


text \<open>
  The change is announced before the transaction is committed: with a commit that fails, the waiters have
  been told of a change of a database that did not change.
\<close>

theorem change_announced_before_commit:
  "fetchRepository (okEnv\<lparr>commitOutcome := CommitLost\<rparr>) (\<lambda>_. False) (demoRegistry [''v1'']) ''app'' staleTag NewChangeBroadcaster =
     (Inl ConnError, staleTag, NewChangeBroadcaster\<lparr>serial := 1\<rparr>)"
  by code_simp

subsection \<open>A fetch with nothing new\<close>

lemma updateTargets_idle:
  "\<forall>d \<in> set ks. \<exists>y. gget old d = Some y \<and> tagsOf y = sort (gget0 [] new d) \<Longrightarrow> distinct ks \<Longrightarrow>
   \<exists>old'. updateTargets fetchT storeT setT tagsOf new ks old ch s = (Inr (old', ch), s) \<and>
     gget old' = (\<lambda>d. if d \<in> set ks then None else gget old d)"
proof (induction ks arbitrary: old)
  case Nil
  then show ?case by (simp add: ret_def)
next
  case (Cons d ks)
  obtain y where y: "gget old d = Some y" "tagsOf y = sort (gget0 [] new d)" using Cons.prems(1) by auto
  have "\<forall>d' \<in> set ks. \<exists>y. gget (gdel d old) d' = Some y \<and> tagsOf y = sort (gget0 [] new d')"
    using Cons.prems by auto
  from Cons.IH [OF this] Cons.prems(2) obtain old' where
    o: "updateTargets fetchT storeT setT tagsOf new ks (gdel d old) ch s = (Inr (old', ch), s)"
      "gget old' = (\<lambda>d'. if d' \<in> set ks then None else gget (gdel d old) d')"
    by auto
  have "updateTargets fetchT storeT setT tagsOf new (d # ks) old ch s = (Inr (old', ch), s)"
    using y o(1) by (simp add: Let_def stringsEqual_iff)
  moreover have "gget old' = (\<lambda>d'. if d' \<in> set (d # ks) then None else gget old d')"
    using o(2) by (auto simp: fun_eq_iff)
  ultimately show ?case by blast
qed

text \<open>Both loops, when the old entries have exactly the tags the registry gives them.\<close>

lemma update_idle:
  assumes "set ks1 = set (gkeys tm)" "distinct ks1" "mset ks2 = mset (gkeys (groupTags tm ks1 []))"
    and "\<And>g d. gget tm g = Some d \<Longrightarrow> \<exists>y. gget old d = Some y"
    and "\<And>d y. gget old d = Some y \<Longrightarrow> set (tagsOf y) = {g. gget tm g = Some d} \<and> sorted (tagsOf y) \<and> distinct (tagsOf y)"
    and "\<And>d y. gget old d = Some y \<Longrightarrow> \<exists>g. gget tm g = Some d"
  shows "\<exists>old'. updateTargets fetchT storeT setT tagsOf (groupTags tm ks1 []) ks2 old ch s = (Inr (old', ch), s) \<and> gkeys old' = []"
proof -
  let ?new = "groupTags tm ks1 []"
  have ks2: "set ks2 = set (gkeys ?new)" "distinct ks2"
    using assms(3) groupTags_wf [of "[]" tm ks1] by (metis set_mset_mset, metis mset_eq_imp_distinct_iff distinct.simps(1) list.map(1))
  have keys: "d \<in> set ks2 \<longleftrightarrow> (\<exists>g. gget tm g = Some d)" for d
  proof -
    have "set ks2 = gget0 '''' tm ` {g. gget tm g \<noteq> None}"
      using ks2(1) groupTags_keys [of tm ks1 "[]"] assms(1) gkeys_dom [of tm] by simp
    then show ?thesis by (force simp: gget0_def image_iff)
  qed
  have new: "gget0 [] ?new d = filter (\<lambda>g. gget0 '''' tm g = d) ks1" for d by (simp add: groupTags_get)
  have "\<exists>y. gget old d = Some y \<and> tagsOf y = sort (gget0 [] ?new d)" if d: "d \<in> set ks2" for d
  proof -
    obtain y where y: "gget old d = Some y" using d assms(4) unfolding keys by blast
    note groupTags_targets [OF assms(1), of d]
    moreover have "distinct (gget0 [] ?new d)" unfolding new using assms(2) by simp
    ultimately have "tagsOf y = sort (gget0 [] ?new d)"
      using assms(5) [OF y] by (intro sorted_distinct_set_unique) simp_all
    then show ?thesis using y by blast
  qed
  then obtain old' where o: "updateTargets fetchT storeT setT tagsOf ?new ks2 old ch s = (Inr (old', ch), s)"
      "gget old' = (\<lambda>d. if d \<in> set ks2 then None else gget old d)"
    using updateTargets_idle [where ks = ks2 and old = old and new = ?new, OF _ ks2(2)] by blast
  have "gget old' d = None" for d using assms(6) [of d] keys [of d] by (cases "gget old d") (auto simp: o(2))
  then have "set (gkeys old') = {}" unfolding gkeys_dom by (auto simp: dom_def)
  then show ?thesis using o(1) by auto
qed

lemma loopOrd_distinct: "env_ok env \<Longrightarrow> gomap_wf m \<Longrightarrow> distinct (loopOrd env s i (gkeys m))"
  using loopOrd_mset [of env s i "gkeys m"] mset_eq_imp_distinct_iff by blast

lemma loopOrd_Nil: "env_ok env \<Longrightarrow> loopOrd env s i [] = []"
  using loopOrd_set [of env s i "[]"] by simp

lemma updateImages_idle:
  assumes "env_ok env" "gomap_wf tm"
    and "\<And>g d. gget tm g = Some d \<Longrightarrow> \<exists>y. gget old d = Some y"
    and "\<And>d y. gget old d = Some y \<Longrightarrow> set (Tags y) = {g. gget tm g = Some d} \<and> sorted (Tags y) \<and> distinct (Tags y)"
    and "\<And>d y. gget old d = Some y \<Longrightarrow> \<exists>g. gget tm g = Some d"
  shows "updateImages env ptx client r tm old ch s = (Inr ch, s)"
proof -
  have "\<exists>old'. updateTargets (fetchTaggedImage (loopOrd env s) client) (StoreImage env ptx r) (SetImageTags env ptx r)
      Tags (groupTags tm (loopOrd env s 2 (gkeys tm)) [])
      (loopOrd env s 3 (gkeys (groupTags tm (loopOrd env s 2 (gkeys tm)) []))) old ch s = (Inr (old', ch), s) \<and> gkeys old' = []"
    by (rule update_idle [OF loopOrd_set [OF assms(1)] loopOrd_distinct [OF assms(1,2)] loopOrd_mset [OF assms(1)] assms(3-5)])
  then show ?thesis by (auto simp: updateImages_def Let_def tryM_def loopOrd_Nil [OF assms(1)] ret_def)
qed

lemma updateLists_idle:
  assumes "env_ok env" "gomap_wf tm"
    and "\<And>g d. gget tm g = Some d \<Longrightarrow> \<exists>y. gget old d = Some y"
    and "\<And>d y. gget old d = Some y \<Longrightarrow> set (listTags y) = {g. gget tm g = Some d} \<and> sorted (listTags y) \<and> distinct (listTags y)"
    and "\<And>d y. gget old d = Some y \<Longrightarrow> \<exists>g. gget tm g = Some d"
  shows "updateLists env ptx client r tm old ch s = (Inr ch, s)"
proof -
  have "\<exists>old'. updateTargets (fetchTaggedList (loopOrd env s) client) (StoreImageList env ptx r) (SetImageListTags env ptx r)
      listTags (groupTags tm (loopOrd env s 5 (gkeys tm)) [])
      (loopOrd env s 6 (gkeys (groupTags tm (loopOrd env s 5 (gkeys tm)) []))) old ch s = (Inr (old', ch), s) \<and> gkeys old' = []"
    by (rule update_idle [OF loopOrd_set [OF assms(1)] loopOrd_distinct [OF assms(1,2)] loopOrd_mset [OF assms(1)] assms(3-5)])
  then show ?thesis by (auto simp: updateLists_def Let_def tryM_def loopOrd_Nil [OF assms(1)] ret_def)
qed

text \<open>\<open>looksCurrent tb want t r\<close>: what \<open>want\<close> names has a tag in \<open>r\<close>, and what has a tag in \<open>r\<close> has, \<^emph>\<open>counting all repositories\<close>,
  exactly the tags that \<open>want\<close> gives it, each once. This is what the update compares.\<close>

definition looksCurrent :: "tag_table \<Rightarrow> (string \<Rightarrow> string option) \<Rightarrow> tables \<Rightarrow> string \<Rightarrow> bool" where
  "looksCurrent tb want t r \<longleftrightarrow> (\<forall>g d. want g = Some d \<longrightarrow> (\<exists>g0. tagMap tb t (r, g0) = Some d)) \<and>
     (\<forall>g0 d. tagMap tb t (r, g0) = Some d \<longrightarrow>
        distinct (tagsOfDigest (tagRows tb t) d) \<and> set (tagsOfDigest (tagRows tb t) d) = {g. want g = Some d})"

lemma looksCurrent_unshared:
  assumes "tables_wf t" "unshared tb t r" "\<And>g. tagMap tb t (r, g) = want g"
  shows "looksCurrent tb want t r"
  using unshared_tags [OF assms(1,2)] tagMap_iff [OF assms(1), of tb r] assms(3) by (auto simp: looksCurrent_def)

lemma looksCurrent_tagged:
  assumes "tables_wf t" "looksCurrent tb want t r" "tagMap tb t (r, g0) = Some d"
  shows "\<exists>g. want g = Some d"
proof -
  have "g0 \<in> set (tagsOfDigest (tagRows tb t) d)" using assms(3) tagMap_iff [OF assms(1)] by (auto simp: tagsOfDigest_set)
  then show ?thesis using assms(2,3) by (auto simp: looksCurrent_def)
qed

lemma fetchRepository_nothing:
  assumes "fetchRepository env recv reg repo db bc = (Inr (), db', bc')"
    and "parseNamed reg repo = Inr r" "newRepositoryClient reg r = Inr client" "text_ok r"
    and "env_ok env" "tables_wf db" "filled db r"
    and "looksCurrent TagImage (registryTags imageMediaTypes client) db r"
    and "looksCurrent TagList (registryTags listMediaTypes client) db r"
  shows "db' = db \<and> bc' = bc"
proof -
  from fetchRepository_nil [OF assms(1)] obtain fop im li ch s' where f: "newFetchOperation reg repo = Inr fop"
      "getTagsFromRegistry (opClient fop) = Inr (im, li)" "runs (updateTags env ptx0 fop im li) (newTx db) ch s'"
      "db' = work s'" "bc' = (if ch then announce recv bc else bc)" .
  have fop: "opName fop = r" "opClient fop = client"
    using f(1) assms(2,3) by (auto simp: newFetchOperation_def split: sum.splits)
  have wf: "gomap_wf im" "gomap_wf li"
    using f(2) getTags_loop_spec [of "opClient fop" _ "[]" "[]" im li] by (auto simp: getTagsFromRegistry_def split: sum.splits)
  have w: "work (newTx db) = db" by (simp add: newTx_def)
  have db: "tables_wf (work (newTx db))" "filled (work (newTx db)) r" using assms(6,7) by (simp_all add: w)
  from updateTags_steps [OF f(3), unfolded fop] obtain repos s0 ch1 s1 where
      q: "runs (DoQuery env ptx0 (Repository_q r NewQuery)) (newTx db) repos s0"
    and u: "runs (updateImages env ptx0 client r im (oldEntries Digest Images repos) False) s0 ch1 s1"
    and l: "runs (updateLists env ptx0 client r li (oldEntries listDigest Lists repos) ch1) s1 ch s'" .
  note oi = old_images_all [OF db(1) assms(5,4) q oldEntries_def [of Digest Images repos], unfolded w]
  note ol = old_lists_all [OF db(1) assms(5,4) db(2) q oldEntries_def [of listDigest Lists repos], unfolded w]
  note regs = getTagsFromRegistry_spec [OF f(2), unfolded fop]
  have "updateImages env ptx0 client r im (oldEntries Digest Images repos) False s0 = (Inr False, s0)"
  proof (rule updateImages_idle [OF assms(5) wf(1)])
    show "\<exists>y. gget (oldEntries Digest Images repos) d = Some y" if "gget im g = Some d" for g d
      using oi(1) assms(8) that by (fastforce simp: regs looksCurrent_def)
    fix d y assume y: "gget (oldEntries Digest Images repos) d = Some y"
    show "set (Tags y) = {g. gget im g = Some d} \<and> sorted (Tags y) \<and> distinct (Tags y)"
      using oi(2) [OF y] assms(8) by (auto simp: regs looksCurrent_def)
    show "\<exists>g. gget im g = Some d" using oi(2) [OF y] looksCurrent_tagged [OF assms(6,8)] by (auto simp: regs)
  qed
  then have 1: "ch1 = False" "s1 = s0" using u by (simp_all add: runs_def)
  have "updateLists env ptx0 client r li (oldEntries listDigest Lists repos) False s0 = (Inr False, s0)"
  proof (rule updateLists_idle [OF assms(5) wf(2)])
    show "\<exists>y. gget (oldEntries listDigest Lists repos) d = Some y" if "gget li g = Some d" for g d
      using ol(1) assms(9) that by (fastforce simp: regs looksCurrent_def)
    fix d y assume y: "gget (oldEntries listDigest Lists repos) d = Some y"
    show "set (listTags y) = {g. gget li g = Some d} \<and> sorted (listTags y) \<and> distinct (listTags y)"
      using ol(2) [OF y] assms(9) by (auto simp: regs looksCurrent_def)
    show "\<exists>g. gget li g = Some d" using ol(2) [OF y] looksCurrent_tagged [OF assms(6,9)] by (auto simp: regs)
  qed
  then have 2: "ch = False" "s' = s0" using l 1 by (simp_all add: runs_def)
  have "work s0 = work (newTx db)" by (rule runs_DoQuery(1) [OF db(1) assms(5) query_wf_repo query_text_ok_repo [OF assms(4)] q])
  then show ?thesis using f(4,5) 2 w by simp
qed

text \<open>
  C20. A fetch that finds nothing new writes nothing and announces nothing. The condition: the database already has the
  registry's tags for the repository, what is tagged in the repository is tagged in no other one, and its lists have entries. Then a fetch
  that returns nil leaves every table and the broadcaster as they were, whatever the order in which maps and rows are enumerated. Without the
  second condition it is false: a digest that another repository also tags can be written and announced again although nothing is new.
\<close>

theorem fetchRepository_idle:
  assumes "fetchRepository env recv reg repo db bc = (Inr (), db', bc')"
    and "parseNamed reg repo = Inr r" "newRepositoryClient reg r = Inr client" "text_ok r"
    and "env_ok env" "tables_wf db" "unshared TagImage db r" "unshared TagList db r" "filled db r"
    and "\<And>g. tagMap TagImage db (r, g) = registryTags imageMediaTypes client g"
    and "\<And>g. tagMap TagList db (r, g) = registryTags listMediaTypes client g"
  shows "db' = db \<and> bc' = bc"
  by (rule fetchRepository_nothing [OF assms(1-6,9) looksCurrent_unshared [OF assms(6,7,10)] looksCurrent_unshared [OF assms(6,8,11)]])




definition upToDate :: tables where
  "upToDate = emptyTables\<lparr>imageT := [(''d1'', zeroImage\<lparr>Digest := ''d1''\<rparr>)], imageTagT := [((''app'', ''v1''), ''d1'')]\<rparr>"

theorem fetchRepository_idle_witness:
  "fetchRepository revEnv (\<lambda>_. True) (demoRegistry [''v1'']) ''app'' upToDate NewChangeBroadcaster = (Inr (), upToDate, NewChangeBroadcaster)"
proof -
  let ?f = "fetchRepository revEnv (\<lambda>_. True) (demoRegistry [''v1'']) ''app'' upToDate NewChangeBroadcaster"
  have "fst ?f = Inr ()" by code_simp
  then obtain db' bc' where f: "?f = (Inr (), db', bc')" by (cases ?f) auto
  have 1: "parseNamed (demoRegistry [''v1'']) ''app'' = Inr ''app''"
      "newRepositoryClient (demoRegistry [''v1'']) ''app'' = Inr (demoClient [''v1''])"
    by (simp_all add: demoRegistry_def)
  have 2: "text_ok ''app''" by code_simp
  have wf: "tables_wf upToDate"
    by (simp add: upToDate_def emptyTables_def tables_wf_def images_wf_def lists_wf_def tags_wf_def image_wf_def zeroImage_def)
  have 3: "unshared TagImage upToDate ''app''" by code_simp
  have 4: "unshared TagList upToDate ''app''" by code_simp
  have 5: "filled upToDate ''app''" by code_simp
  have 6: "tagMap TagImage upToDate (''app'', g) = registryTags imageMediaTypes (demoClient [''v1'']) g" for g
    by (auto simp: tagMap_def upToDate_def registryTags_def demoClient_def tagTarget_def imageMediaTypes_def)
  have 7: "tagMap TagList upToDate (''app'', g) = registryTags listMediaTypes (demoClient [''v1'']) g" for g
    by (auto simp: tagMap_def upToDate_def emptyTables_def registryTags_def demoClient_def tagTarget_def imageMediaTypes_def listMediaTypes_def)
  show ?thesis using fetchRepository_idle [OF f 1 2 revEnv_ok wf 3 4 5 6 7] f by simp
qed

subsection \<open>Garbage collection\<close>

text \<open>
  C21. Whatever fails in a garbage collection, it removes all or nothing, and no client can tell: either the
  tables are as they were, or exactly the lists without a tag and the images used by no tag and no
  remaining list are gone; the schema still holds, and a query of the database gives the same answer before and after.
  When it returns nil, what was unused is gone.
\<close>

theorem garbageCollect_safe:
  assumes "tables_wf db" "garbageCollect env db = (res, db')"
  shows "(db' = db \<or> unusedGone db db') \<and> tables_wf db' \<and> (res = Inr () \<longrightarrow> unusedGone db db') \<and>
    fst (pdb_DoQuery env' q db') = fst (pdb_DoQuery env' q db)"
proof -
  have rb: "Rollback p s d = (x, s', d') \<Longrightarrow> d' = d" for p s d x s' d'
    by (auto simp: Rollback_def sqlRollback_def split: if_splits)
  have c: "(d' = d \<and> x \<noteq> Inr ()) \<or> (d' = work s \<and> \<not> failed s)" if "Commit env ptx0 s d = (x, s', d')" for s d x s' d'
    using that by (auto simp: Commit_def ptx0_def sqlCommit_def Let_def split: if_splits commit_outcome.splits)
  obtain r s1 where d: "DeleteUnused env ptx0 (newTx db) = (r, s1)" by (cases "DeleteUnused env ptx0 (newTx db)")
  have w: "work (newTx db) = db" by (simp add: newTx_def)
  have gone: "unusedGone db (work s1) \<and> tables_wf (work s1)" if "r = Inr ()" "\<not> failed s1"
  proof -
    have run: "runs (DeleteUnused env ptx0) (newTx db) () s1" using d that by (simp add: runs_def)
    show ?thesis using runs_DeleteUnused [of "newTx db", OF _ run] runs_keeps [OF schema.keeps_DeleteUnused run] assms(1) by (simp add: w)
  qed
  have "(db' = db \<and> res \<noteq> Inr ()) \<or> (db' = work s1 \<and> r = Inr () \<and> \<not> failed s1)"
    using assms(2) d c
    by (auto simp: garbageCollect_def Begin_def Let_def newTx_def ptx0_def split: if_splits sum.splits prod.splits dest!: rb)
  then have main: "(db' = db \<and> res \<noteq> Inr ()) \<or> (unusedGone db db' \<and> tables_wf db')" using gone by blast
  have "fst (pdb_DoQuery env' q db') = fst (pdb_DoQuery env' q db)" if "unusedGone db db'"
  proof -
    have "DoQuery env' ptx0 q ((newTx db)\<lparr>work := db'\<rparr>) = map_prod id (\<lambda>s1. s1\<lparr>work := db'\<rparr>) (DoQuery env' ptx0 q (newTx db))"
      by (rule DoQuery_gone) (use that assms(1) in \<open>simp_all add: w\<close>)
    then have "DoQuery env' ptx0 q (newTx db') = map_prod id (\<lambda>s1. s1\<lparr>work := db'\<rparr>) (DoQuery env' ptx0 q (newTx db))"
      by (simp add: newTx_def)
    then show ?thesis
      by (cases "DoQuery env' ptx0 q (newTx db)")
        (auto simp: pdb_DoQuery_def Begin_def Commit_def sqlCommit_def Let_def newTx_def ptx0_def
          split: sum.splits commit_outcome.splits)
  qed
  then show ?thesis using main assms(1) by auto
qed

theorem garbageCollect_safe_witness:
  "\<exists>db'. garbageCollect okEnv (staleTag\<lparr>imageTagT := []\<rparr>) = (Inr (), db') \<and> unusedGone (staleTag\<lparr>imageTagT := []\<rparr>) db' \<and> tables_wf db'"
proof -
  let ?t = "staleTag\<lparr>imageTagT := []\<rparr>"
  have wf: "tables_wf ?t"
    by (simp add: staleTag_def emptyTables_def tables_wf_def images_wf_def lists_wf_def tags_wf_def image_wf_def zeroImage_def)
  have "fst (garbageCollect okEnv ?t) = Inr ()" by code_simp
  then obtain db' where g: "garbageCollect okEnv ?t = (Inr (), db')" by (cases "garbageCollect okEnv ?t") auto
  show ?thesis using garbageCollect_safe [OF wf g, of okEnv NewQuery] g by auto
qed

end
