(* ===== verification/FetchEverything.thy ===== *)
theory FetchEverything
  imports FetchCorrect Requests
begin

section \<open>Fetching all repositories (fetcher/fetcher.go)\<close>

text \<open>
  \<^verbatim>\<open>fetchAll\<close> pages through the catalogue of the registry, removes what the catalogue does not have and
  sends a request for everything it has into the channel of the fetcher. The loop over the pages ends only if the registry
  behaves, so it is a partial function: \<^const>\<open>None\<close> is a loop that never ends. The catalogue is third-party code, a function
  of the number of the call, the size of the page and the last name; its contract is \<open>catalogue_ok\<close>.
\<close>

subsection \<open>The pages\<close>

type_synonym catalogue = "nat \<Rightarrow> nat \<Rightarrow> string \<Rightarrow> string list \<times> error option"

definition pageSize :: nat where
  "pageSize = 100"

fun markRepos :: "string list \<Rightarrow> bool gomap \<Rightarrow> bool gomap" where
  "markRepos [] allRepos = allRepos"
| "markRepos (repo # page) allRepos = markRepos page (gset repo True allRepos)"

text \<open>\<open>page\<close> is the part of the buffer that was filled; an index beyond the buffer panics.\<close>

partial_function (option) fetchPages :: "catalogue \<Rightarrow> nat \<Rightarrow> string \<Rightarrow> bool gomap \<Rightarrow> (error + bool gomap) option" where
  "fetchPages cat i lst allRepos =
     (let (page, err) = cat i pageSize lst
      in if err \<noteq> None \<and> err \<noteq> Some EOF then Some (Inl (the err))
         else if length page = 0 then Some (Inr allRepos)
         else if length page > pageSize then Some (Inl (GoPanic ''index out of range''))
         else if err = Some EOF then Some (Inr (markRepos page allRepos))
         else fetchPages cat (Suc i) (page ! (length page - 1)) (markRepos page allRepos))"

subsection \<open>The whole of fetchAll\<close>

text \<open>The result of \<^verbatim>\<open>fetchAll\<close> (\<^const>\<open>None\<close>: it blocks in a send, for good, because it runs in the goroutine that
  is the only reader of the channel), the tables, the broadcaster, and the channel. The sends of other goroutines
  meanwhile are the subject of \<open>Dispatch\<close>.\<close>

definition fetchAll ::
    "env \<Rightarrow> (chan_id \<Rightarrow> bool) \<Rightarrow> error + catalogue \<Rightarrow> tables \<Rightarrow> changeBroadcaster \<Rightarrow> fetchRequest list \<Rightarrow>
     ((error + unit) option \<times> tables \<times> changeBroadcaster \<times> fetchRequest list) option" where
  "fetchAll env recv newRegistry db bc ch =
     (case newRegistry of
        Inl e \<Rightarrow> Some (Some (Inl e), db, bc, ch)
      | Inr cat \<Rightarrow> (case fetchPages cat 0 '''' [] of
        None \<Rightarrow> None
      | Some (Inl e) \<Rightarrow> Some (Some (Inl e), db, bc, ch)
      | Some (Inr allRepos) \<Rightarrow> Some (case Begin env db of
        Inl e \<Rightarrow> (Some (Inl e), db, bc, ch)
      | Inr (ptx, s) \<Rightarrow> (case DeleteMissingRepos env ptx allRepos s of
        (Inl e, s') \<Rightarrow> (let (_, s'', db') = Rollback ptx s' db in (Some (Inl e), db', bc, ch))
      | (Inr _, s') \<Rightarrow> (case Commit env ptx s' db of
        (Inl e, s'', db') \<Rightarrow> (Some (Inl e), db', bc, ch)
      | (Inr _, s'', db') \<Rightarrow>
          (let (rest, ch') = sendRepos (loopOrd env s'' 8 (gkeys allRepos)) ch
           in (if rest = [] then Some (Inr ()) else None, db', checkModification recv ptx bc, ch')))))))"

subsection \<open>The contract of a catalogue\<close>

text \<open>\<open>catalogue_ok cat listing\<close>: the catalogue lists \<open>listing\<close> in order, a page holds the next names after the
  last one, and the end is reported with the page that reaches it.\<close>

definition catalogue_ok :: "catalogue \<Rightarrow> string list \<Rightarrow> bool" where
  "catalogue_ok cat listing \<longleftrightarrow> sorted_wrt (<) listing \<and> '''' \<notin> set listing \<and>
     (\<forall>i n lst. 0 < n \<longrightarrow> cat i n lst =
        (let more = filter (\<lambda>x. lst < x) listing in (take n more, if length more \<le> n then Some EOF else None)))"

definition pagedCatalogue :: "string list \<Rightarrow> catalogue" where
  "pagedCatalogue listing i n lst =
     (let more = filter (\<lambda>x. lst < x) listing in (take n more, if length more \<le> n then Some EOF else None))"

lemma pagedCatalogue_ok: "sorted_wrt (<) listing \<Longrightarrow> '''' \<notin> set listing \<Longrightarrow> catalogue_ok (pagedCatalogue listing) listing"
  by (simp add: catalogue_ok_def pagedCatalogue_def)

lemma markRepos_get: "gget (markRepos page m) k = (if k \<in> set page then Some True else gget m k)"
  by (induction page arbitrary: m) auto

lemma markRepos_wf: "gomap_wf m \<Longrightarrow> gomap_wf (markRepos page m)"
  by (induction page arbitrary: m) (simp_all add: distinct_update)

lemma filter_after:
  assumes "sorted_wrt (<) (xs :: string list)" "0 < n" "n < length xs"
  shows "filter (\<lambda>x. xs ! (n - 1) < x) xs = drop n xs"
proof -
  have "xs = take n xs @ drop n xs" by simp
  moreover have "filter (\<lambda>x. xs ! (n - 1) < x) (take n xs) = []"
  proof (rule filter_False, rule ballI)
    fix x assume "x \<in> set (take n xs)"
    then obtain k where k: "x = xs ! k" "k < n" using assms(3) by (auto simp: in_set_conv_nth)
    then have "x = xs ! (n - 1) \<or> x < xs ! (n - 1)"
      using sorted_wrt_nth_less [OF assms(1), of k "n - 1"] assms(3) by (cases "k = n - 1") auto
    then show "\<not> xs ! (n - 1) < x" by auto
  qed
  moreover have "filter (\<lambda>x. xs ! (n - 1) < x) (drop n xs) = drop n xs"
  proof (rule filter_True, rule ballI)
    fix x assume "x \<in> set (drop n xs)"
    then obtain k where k: "x = xs ! (n + k)" "n + k < length xs" by (auto simp: in_set_conv_nth)
    then show "xs ! (n - 1) < x" using sorted_wrt_nth_less [OF assms(1), of "n - 1" "n + k"] assms(2) by simp
  qed
  ultimately show ?thesis by (metis append_Nil filter_append)
qed

lemma fetchPages_complete:
  assumes "catalogue_ok cat listing"
  shows "gomap_wf m \<Longrightarrow> \<exists>m'. fetchPages cat i lst m = Some (Inr m') \<and> gomap_wf m' \<and>
    gget m' = (\<lambda>k. if k \<in> set (filter (\<lambda>x. lst < x) listing) then Some True else gget m k)"
proof (induction "length (filter (\<lambda>x. lst < x) listing)" arbitrary: i lst m rule: less_induct)
  case less
  let ?more = "filter (\<lambda>x. lst < x) listing"
  have cat: "cat i pageSize lst = (take pageSize ?more, if length ?more \<le> pageSize then Some EOF else None)"
    using assms by (simp add: catalogue_ok_def pageSize_def Let_def)
  show ?case
  proof (cases "length ?more \<le> pageSize")
    case True
    then show ?thesis using less.prems
      by (subst fetchPages.simps) (auto simp: cat markRepos_get fun_eq_iff filter_empty_conv intro: markRepos_wf)
  next
    case False
    let ?l = "?more ! (pageSize - 1)" and ?m = "markRepos (take pageSize ?more) m"
    have sorted: "sorted_wrt (<) ?more" using assms by (simp add: catalogue_ok_def sorted_wrt_filter)
    have pos: "0 < pageSize" "pageSize < length ?more" using False by (simp_all add: pageSize_def)
    have "?l \<in> set ?more" using pos by (intro nth_mem) simp
    then have "lst < ?l" by simp
    then have "filter (\<lambda>x. ?l < x) listing = filter (\<lambda>x. ?l < x) ?more" by (auto intro!: filter_cong)
    then have rest: "filter (\<lambda>x. ?l < x) listing = drop pageSize ?more" using filter_after [OF sorted pos] by simp
    have "fetchPages cat i lst m = fetchPages cat (Suc i) ?l ?m"
      using pos by (subst fetchPages.simps) (auto simp: cat min_def)
    moreover obtain m' where "fetchPages cat (Suc i) ?l ?m = Some (Inr m')" "gomap_wf m'"
        "gget m' = (\<lambda>k. if k \<in> set (drop pageSize ?more) then Some True else gget ?m k)"
    proof -
      have "length (drop pageSize ?more) < length ?more" unfolding length_drop using pos by arith
      from less.hyps [of ?l ?m "Suc i", unfolded rest, OF this markRepos_wf [OF less.prems]] show thesis
        by (elim exE conjE) (rule that)
    qed
    moreover have "set ?more = set (take pageSize ?more) \<union> set (drop pageSize ?more)"
      by (metis append_take_drop_id set_append)
    ultimately show ?thesis by (auto simp: markRepos_get fun_eq_iff)
  qed
qed

text \<open>The contract is needed: a registry that ignores the last name and never reports the end is paged through forever.\<close>

lemma one_le_page: "\<not> pageSize < Suc 0" "pageSize \<noteq> 0"
  by (simp_all add: pageSize_def)

lemma fetchPages_diverges:
  assumes "\<And>i l. cat i pageSize l = ([x], None)"
  shows "fetchPages cat i lst m = None"
proof (rule ccontr)
  assume "fetchPages cat i lst m \<noteq> None"
  then obtain r where "fetchPages cat i lst m = Some r" by blast
  then have "(\<forall>i l. cat i pageSize l = ([x], None)) \<longrightarrow> False"
  proof (rule fetchPages.raw_induct [rotated], intro impI)
    fix pages cat i lst m r
    assume IH: "\<And>cat i lst m r. pages cat i lst m = Some r \<Longrightarrow> (\<forall>i l. cat i pageSize l = ([x], None)) \<longrightarrow> False"
      and eq: "(let (page, err) = cat i pageSize lst
        in if err \<noteq> None \<and> err \<noteq> Some EOF then Some (Inl (the err)) else if length page = 0 then Some (Inr m)
           else if length page > pageSize then Some (Inl (GoPanic ''index out of range''))
           else if err = Some EOF then Some (Inr (markRepos page m))
           else pages cat (Suc i) (page ! (length page - 1)) (markRepos page m)) = Some r"
      and cat: "\<forall>i l. cat i pageSize l = ([x], None)"
    have "pages cat (Suc i) x (markRepos [x] m) = Some r" using eq by (simp add: cat pageSize_def [symmetric] one_le_page)
    from IH [OF this] cat show False by blast
  qed
  then show False using assms by blast
qed

text \<open>What is missing is what the catalogue does not list.\<close>

lemma missing_listing:
  assumes "catalogue_ok cat listing"
  obtains m where "fetchPages cat 0 '''' [] = Some (Inr m)" "gomap_wf m" "set (gkeys m) = set listing"
    "\<And>tb t. missingRepos tb m t = fst ` fst ` set (tagRows tb t) - set listing"
proof -
  have nonempty: "'''' < x" if "x \<in> set listing" for x :: string
    using assms that by (cases x) (auto simp: catalogue_ok_def)
  obtain m where m: "fetchPages cat 0 '''' [] = Some (Inr m)" "gomap_wf m"
      "gget m = (\<lambda>k. if k \<in> set listing then Some True else None)"
    using fetchPages_complete [OF assms, of "[]" 0 "''''"] nonempty by (auto cong: if_cong)
  have "set (gkeys m) = set listing" unfolding gkeys_dom m(3) by auto
  moreover have "missingRepos tb m t = fst ` fst ` set (tagRows tb t) - set listing" for tb t
    unfolding missingRepos_def gget0_def m(3) by (force simp: case_prod_unfold split: if_splits)
  ultimately show thesis by (rule that [OF m(1,2)])
qed

text \<open>
  C15. \<^verbatim>\<open>fetchAll\<close> asks for every repository as long as the channel has room: with a catalogue that keeps its contract,
  whatever its size, the loop over the pages ends. When the database has no repository the registry lacks, nothing fails and
  no other goroutine sends meanwhile, the tables and the broadcaster are left alone, and: if the free slots of the channel are
  enough for all repositories of the registry, \<^verbatim>\<open>fetchAll\<close> returns nil and has sent one low-priority request for each,
  after what was in the channel; otherwise it fills the channel with requests for distinct repositories and never returns.
\<close>

theorem fetchAll_requests_all:
  assumes "catalogue_ok cat listing" "env_ok env" "no_faults env" "\<not> beginFault env" "commitOutcome env = CommitOk"
    and "\<And>tb. fst ` fst ` set (tagRows tb db) \<subseteq> set listing" and "length ch \<le> channelCap"
  shows "\<exists>reqs. distinct reqs \<and> set reqs = set listing \<and>
    fetchAll env recv (Inr cat) db bc ch =
      Some (if length ch + length listing \<le> channelCap then Some (Inr ()) else None, db, bc,
            ch @ map repoRequest (take (channelCap - length ch) reqs))"
proof -
  from missing_listing [OF assms(1)] obtain m where m: "fetchPages cat 0 '''' [] = Some (Inr m)" "gomap_wf m"
      "set (gkeys m) = set listing" "\<And>tb t. missingRepos tb m t = fst ` fst ` set (tagRows tb t) - set listing" by metis
  have w: "work (newTx db) = db" "ready env (newTx db)" using assms(3) by (simp_all add: newTx_def ready_def)
  have none: "missingRepos tb m db = {}" for tb unfolding m(4) using assms(6) [of tb] by blast
  let ?reqs = "loopOrd env ((newTx db)\<lparr>stmts := 2, txDone := True\<rparr>) 8 (gkeys m)"
  have reqs: "set ?reqs = set listing" "distinct ?reqs"
    using loopOrd_set [OF assms(2)] loopOrd_distinct [OF assms(2) m(2)] m(3) by auto
  have "distinct listing" using assms(1) by (auto simp: catalogue_ok_def strict_sorted_iff)
  then have "length ?reqs = length listing" using reqs by (metis distinct_card)
  moreover have "DeleteMissingRepos env ptx0 m (newTx db) = (Inr (), (newTx db)\<lparr>stmts := Suc (Suc (stmts (newTx db)))\<rparr>)"
    by (rule DeleteMissingRepos_none [OF w(2) assms(2)]) (simp_all only: w(1) none)
  ultimately have "fetchAll env recv (Inr cat) db bc ch =
      Some (if length ch + length listing \<le> channelCap then Some (Inr ()) else None, db, bc,
            ch @ map repoRequest (take (channelCap - length ch) ?reqs))"
    using m(1) assms(4,5,7) by (auto simp: fetchAll_def Begin_def newTx_def ptx0_def Commit_def sqlCommit_def Let_def
        checkModification_def Modified_def numeral_2_eq_2 sendRepos_eq)
  with reqs show ?thesis by (intro exI [of _ ?reqs]) simp
qed

theorem fetchAll_requests_all_witness:
  "(\<exists>reqs. distinct reqs \<and> set reqs = {''app'', ''lib''} \<and>
     fetchAll okEnv (\<lambda>_. False) (Inr (pagedCatalogue [''app'', ''lib''])) oneImage NewChangeBroadcaster [] =
     Some (Some (Inr ()), oneImage, NewChangeBroadcaster, map repoRequest (take 100 reqs))) \<and>
   (\<exists>reqs. distinct reqs \<and> set reqs = {''app'', ''lib''} \<and>
     fetchAll okEnv (\<lambda>_. False) (Inr (pagedCatalogue [''app'', ''lib''])) oneImage NewChangeBroadcaster (replicate 99 (repoRequest ''app'')) =
     Some (None, oneImage, NewChangeBroadcaster, replicate 99 (repoRequest ''app'') @ map repoRequest (take 1 reqs)))"
proof -
  have c: "catalogue_ok (pagedCatalogue [''app'', ''lib'']) [''app'', ''lib'']"
    by (rule pagedCatalogue_ok) (code_simp, code_simp)
  have k: "fst ` fst ` set (tagRows tb oneImage) \<subseteq> set [''app'', ''lib'']" for tb
    by (cases tb) (auto simp: oneImage_def emptyTables_def)
  have o: "\<not> beginFault okEnv" "commitOutcome okEnv = CommitOk" by (simp_all add: okEnv_def)
  have l: "length ([] :: fetchRequest list) \<le> channelCap" "length (replicate 99 (repoRequest ''app'')) \<le> channelCap"
    by (simp_all add: channelCap_def)
  show ?thesis
    using fetchAll_requests_all [OF c okEnv_ok o k l(1), of "\<lambda>_. False" NewChangeBroadcaster]
      fetchAll_requests_all [OF c okEnv_ok o k l(2), of "\<lambda>_. False" NewChangeBroadcaster]
    by (simp add: channelCap_def)
qed

text \<open>
  C36. \<^verbatim>\<open>fetchAll\<close> stops working once a repository has gone from the registry: with a catalogue that keeps its
  contract and a database that still has tags of a repository the registry lacks, it returns the error of
  \<^verbatim>\<open>DeleteMissingRepos\<close>, deletes nothing, announces nothing and sends no request at all.
\<close>

theorem fetchAll_stops_at_missing:
  assumes "catalogue_ok cat listing" "env_ok env" "no_faults env" "\<not> beginFault env"
    and "((r, g), d) \<in> set (tagRows tb db)" "r \<notin> set listing"
  shows "\<exists>e. fetchAll env recv (Inr cat) db bc ch = Some (Some (Inl e), db, bc, ch) \<and>
    e \<in> {UndefinedTable ''imageTagTag'', UndefinedTable ''listTagTag''}"
proof -
  from missing_listing [OF assms(1)] obtain m where m: "fetchPages cat 0 '''' [] = Some (Inr m)"
      "\<And>tb t. missingRepos tb m t = fst ` fst ` set (tagRows tb t) - set listing" by metis
  have w: "work (newTx db) = db" "ready env (newTx db)" using assms(3) by (simp_all add: newTx_def ready_def)
  have "r \<in> missingRepos tb m db" unfolding m(2) using assms(5,6) by force
  then have "missingRepos TagImage m (work (newTx db)) \<noteq> {} \<or> missingRepos TagList m (work (newTx db)) \<noteq> {}"
    unfolding w by (cases tb) auto
  from DeleteMissingRepos_fails [OF w(2) assms(2) this] obtain e s' where
    "DeleteMissingRepos env ptx0 m (newTx db) = (Inl e, s')" "e \<in> {UndefinedTable ''imageTagTag'', UndefinedTable ''listTagTag''}"
    by blast
  then show ?thesis using m(1) assms(4)
    by (auto simp: fetchAll_def Begin_def newTx_def ptx0_def Let_def Rollback_def sqlRollback_def split: prod.splits if_splits)
qed

theorem fetchAll_stops_at_missing_witness:
  "\<exists>e. fetchAll okEnv (\<lambda>_. False) (Inr (pagedCatalogue [''app''])) oneImage NewChangeBroadcaster [] =
     Some (Some (Inl e), oneImage, NewChangeBroadcaster, []) \<and> e \<in> {UndefinedTable ''imageTagTag'', UndefinedTable ''listTagTag''}"
proof -
  have c: "catalogue_ok (pagedCatalogue [''app'']) [''app'']" by (rule pagedCatalogue_ok) (simp, code_simp)
  have r: "((''lib'', ''v1''), ''d1'') \<in> set (tagRows TagImage oneImage)" by (simp add: oneImage_def)
  have "''lib'' \<notin> set [''app'']" "\<not> beginFault okEnv" by (simp_all add: okEnv_def)
  from fetchAll_stops_at_missing [OF c okEnv_ok this(2) r this(1)] show ?thesis .
qed

end
