(* ===== verification/IndexHandler.thy ===== *)
theory IndexHandler
  imports HttpUtil
begin

section \<open>The index and the home page (web/index.go, web/home.go)\<close>

text \<open>
  The index handler turns the form of a request into a query and answers with the repositories it finds. The
  loop over the values of a parameter changes the variable that holds its name, so \<open>formValues\<close> passes the
  name on. The form is the map that \<^verbatim>\<open>ParseForm\<close> leaves in the request.
\<close>

subsection \<open>From the form to the query\<close>

fun formValues :: "string \<Rightarrow> string list \<Rightarrow> Query \<Rightarrow> Query" where
  "formValues k [] q = q"
| "formValues k (vv # v) q =
     (if k = ''repository'' then formValues k v (Repository_q vv q)
      else if k = ''tag'' then formValues k v (Tag_q vv q)
      else if k = ''tag:matches'' then formValues k v (TagMatches vv q)
      else if k = ''os'' then formValues k v (OS_q vv q)
      else if k = ''architecture'' then formValues k v (Architecture_q vv q)
      else
        let (k, is_annotation) =
              (if HasPrefix k ''annotation:'' then (TrimPrefix k ''annotation:'', True)
               else if HasPrefix k ''label:'' then (k, True)
               else (k, False))
        in if is_annotation then
             (if HasSuffix k '':exists'' then
                let k = TrimSuffix k '':exists''
                in formValues k v (if vv = ''1'' then AnnotationExists k q else q)
              else if HasSuffix k '':matches'' then
                let k = TrimSuffix k '':matches''
                in formValues k v (if vv = ''1'' then AnnotationMatches k vv q else q)
              else formValues k v (AnnotationIs k vv q))
           else formValues k v q)"

fun formQuery :: "string list gomap \<Rightarrow> string list \<Rightarrow> Query \<Rightarrow> Query" where
  "formQuery form [] q = q"
| "formQuery form (k # ks) q = formQuery form ks (formValues k (gget0 [] form k) q)"

subsection \<open>JSON of the answer\<close>

text \<open>\<^verbatim>\<open>json.Marshal\<close> of the structs of types.go: fields by name, embedded structs inlined, empty maps left out,
  map keys sorted, characters that are not UTF-8 replaced.\<close>

definition jsonText :: "string \<Rightarrow> json" where
  "jsonText s = JStr (normal s)"

definition mapField :: "string \<Rightarrow> string gomap \<Rightarrow> (string \<times> json) list" where
  "mapField name m = (if m = [] then []
     else [(name, JObj (map (\<lambda>k. (normal k, jsonText (gget0 '''' m k))) (sort (gkeys m))))])"

definition imageFields :: "'a Image_scheme \<Rightarrow> (string \<times> json) list" where
  "imageFields im = [(''Digest'', jsonText (Digest im)), (''MediaType'', jsonText (MediaType im)), (''OS'', jsonText (OS im)),
     (''Architecture'', jsonText (Architecture im))] @ mapField ''Annotations'' (Annotations im) @ mapField ''Labels'' (Labels im)"

definition taggedImageJson :: "TaggedImage \<Rightarrow> json" where
  "taggedImageJson im = JObj (imageFields im @ [(''Tags'', JArr (map jsonText (Tags im)))])"

definition taggedListJson :: "TaggedImageList \<Rightarrow> json" where
  "taggedListJson l = JObj ([(''Digest'', jsonText (listDigest l)), (''MediaType'', jsonText (listMediaType l)),
     (''Images'', JArr (map (\<lambda>im. JObj (imageFields im)) (listImages l)))] @
     mapField ''Annotations'' (listAnnotations l) @ [(''Tags'', JArr (map jsonText (listTags l)))])"

definition repositoryJson :: "Repository \<Rightarrow> json" where
  "repositoryJson repo = JObj [(''Name'', jsonText (Name repo)), (''Images'', JArr (map taggedImageJson (Images repo))),
     (''Lists'', JArr (map taggedListJson (Lists repo)))]"

subsection \<open>The handlers\<close>

text \<open>They return the response and the tables.\<close>

definition index_ServeHTTP :: "webEnv \<Rightarrow> Config \<Rightarrow> bool \<Rightarrow> tables \<Rightarrow> response \<Rightarrow> request \<Rightarrow> response \<times> tables" where
  "index_ServeHTTP we config dynamic db w r =
     (let reg = (if registryPublicUrl config \<noteq> '''' then registryPublicUrl config else registryUrl config);
          w = SetCacheControl (cacheMaxAgeIndex config) dynamic w
      in case CheckAndSetETag we db r w of
           (True, w) \<Rightarrow> (w, db)
         | (False, w) \<Rightarrow>
             (let q = formQuery (reqForm r) (mapOrd (webDb we) 9 (gkeys (reqForm r))) NewQuery
              in case pdb_DoQuery (webDb we) q db of
                   (Inl err, s, db') \<Rightarrow> (internalError w (errText we err), db')
                 | (Inr results, s, db') \<Rightarrow>
                     (let w = setHeader ''Content-Type'' ''application/json'' w;
                          w = writeHeader 200 w
                      in (writeBody (JsonBody (JObj [(''Registry'', jsonText reg),
                            (''Results'', JArr (map repositoryJson results))])) w, db'))))"

definition home_ServeHTTP :: "webEnv \<Rightarrow> Config \<Rightarrow> tables \<Rightarrow> response \<Rightarrow> request \<Rightarrow> response \<times> tables" where
  "home_ServeHTTP we config db w r =
     (let w = SetCacheControl (cacheMaxAgeHtml config) False w
      in case CheckAndSetETag we db r w of
           (True, w) \<Rightarrow> (w, db)
         | (False, w) \<Rightarrow>
             (case pdb_DoQuery (webDb we) NewQuery db of
                (Inl err, s, db') \<Rightarrow> (internalError w (errText we err), db')
              | (Inr results, s, db') \<Rightarrow>
                  (let w = setHeader ''Content-Type'' ''text/html'' w;
                       w = writeHeader 200 w
                   in (writeBody (HtmlBody results) w, db'))))"

subsection \<open>Labels are never asked for\<close>

lemma formValues_labels: "qLabels (formValues k vs q) = qLabels q"
  by (induction k vs q rule: formValues.induct) (auto simp: query_ops Let_def split: if_splits)

text \<open>
  The index cannot be asked for labels: whatever the form, the query it builds has no label term. A parameter
  \<^verbatim>\<open>label:x=v\<close> asks for an annotation named \<^verbatim>\<open>label:x\<close> instead.
\<close>

theorem index_never_queries_labels:
  "qLabels (formQuery form ks NewQuery) = [] \<and>
   formQuery [(''label:x'', [v])] [''label:x''] NewQuery = AnnotationIs ''label:x'' v NewQuery"
proof
  have "qLabels (formQuery form ks q) = qLabels q" for q
    by (induction form ks q rule: formQuery.induct) (simp_all add: formValues_labels)
  then show "qLabels (formQuery form ks NewQuery) = []" by (simp add: NewQuery_def)
  show "formQuery [(''label:x'', [v])] [''label:x''] NewQuery = AnnotationIs ''label:x'' v NewQuery"
    by (simp add: HasPrefix_def HasSuffix_def)
qed

text \<open>
  The loop over the values of a parameter overwrites its name: a second value of \<^verbatim>\<open>annotation:os\<close> is taken as the
  parameter \<^verbatim>\<open>os\<close>, a second value of another annotation is dropped, and a pattern is only accepted when it is
  the text \<^verbatim>\<open>1\<close>.
\<close>

theorem index_repeated_annotation:
  "formValues ''annotation:os'' [v, v'] q = OS_q v' (AnnotationIs ''os'' v q) \<and>
   formValues ''annotation:a'' [v, v'] q = AnnotationIs ''a'' v q \<and>
   formValues ''annotation:a:matches'' [v] q = (if v = ''1'' then AnnotationMatches ''a'' ''1'' q else q)"
  by (simp add: HasPrefix_def HasSuffix_def TrimPrefix_def TrimSuffix_def)

subsection \<open>What a form asks for\<close>

text \<open>Forms whose parameters are attributes, or annotations with one value.\<close>

definition attributes :: "string list" where
  "attributes = [''repository'', ''tag'', ''tag:matches'', ''os'', ''architecture'']"

definition annotationName :: "string \<Rightarrow> string" where
  "annotationName k = TrimPrefix k ''annotation:''"

definition annotationKey :: "string \<Rightarrow> bool" where
  "annotationKey k \<longleftrightarrow> HasPrefix k ''annotation:'' \<and> \<not> HasSuffix (annotationName k) '':exists'' \<and> \<not> HasSuffix (annotationName k) '':matches''"

definition plainForm :: "string list gomap \<Rightarrow> bool" where
  "plainForm form \<longleftrightarrow> gomap_wf form \<and>
     (\<forall>(k, vs) \<in> set form. k \<in> set attributes \<or> annotationKey k \<and> length vs = 1)"

text \<open>A row is asked for when each attribute has one of the values given for it, and each annotation its value.\<close>

definition oneOf :: "string list \<Rightarrow> string \<Rightarrow> bool" where
  "oneOf vs v \<longleftrightarrow> vs = [] \<or> v \<in> set vs"

definition form_matches :: "string list gomap \<Rightarrow> join_row \<Rightarrow> bool" where
  "form_matches form row \<longleftrightarrow>
     oneOf (gget0 [] form ''repository'') (rowRepository row) \<and>
     (gget0 [] form ''tag'' = [] \<and> gget0 [] form ''tag:matches'' = [] \<or> rowTag row \<in> set (gget0 [] form ''tag'') \<or>
      (\<exists>p \<in> set (gget0 [] form ''tag:matches''). glob_match (runes p) (runes (rowTag row)))) \<and>
     oneOf (gget0 [] form ''os'') (OS (rowImage row)) \<and>
     oneOf (gget0 [] form ''architecture'') (Architecture (rowImage row)) \<and>
     (\<forall>(k, vs) \<in> set form. annotationKey k \<longrightarrow> gget (Annotations (rowImage row)) (annotationName k) = Some (vs ! 0))"

abbreviation isTerms :: "string list \<Rightarrow> QueryTerm list" where
  "isTerms vs \<equiv> map (\<lambda>v. \<lparr>queryType = QueryIs, argument = v\<rparr>) vs"

abbreviation matchTerms :: "string list \<Rightarrow> QueryTerm list" where
  "matchTerms vs \<equiv> map (\<lambda>v. \<lparr>queryType = QueryMatches, argument = v\<rparr>) vs"

lemma formValues_attribute:
  "formValues ''repository'' vs q = q\<lparr>qRepository := qRepository q @ isTerms vs\<rparr>"
  "formValues ''tag'' vs q = q\<lparr>qTag := qTag q @ isTerms vs\<rparr>"
  "formValues ''tag:matches'' vs q = q\<lparr>qTag := qTag q @ matchTerms vs\<rparr>"
  "formValues ''os'' vs q = q\<lparr>qOS := qOS q @ isTerms vs\<rparr>"
  "formValues ''architecture'' vs q = q\<lparr>qArchitecture := qArchitecture q @ isTerms vs\<rparr>"
  by (induction vs arbitrary: q) (simp_all add: query_ops)

lemma annotationKey_not_attribute: "annotationKey k \<Longrightarrow> k \<notin> set attributes"
  by (auto simp: annotationKey_def HasPrefix_def attributes_def)

lemma formValues_annotation:
  assumes "annotationKey k"
  shows "formValues k [v] q = AnnotationIs (annotationName k) v q"
proof -
  have "k \<notin> set attributes" by (rule annotationKey_not_attribute [OF assms])
  then show ?thesis using assms by (simp add: attributes_def annotationKey_def annotationName_def)
qed

lemma annotationKey_name: "annotationKey k \<Longrightarrow> k = ''annotation:'' @ annotationName k"
proof -
  assume "annotationKey k"
  then have p: "take (length ''annotation:'') k = ''annotation:''" by (simp only: annotationKey_def HasPrefix_def)
  have n: "annotationName k = drop (length ''annotation:'') k"
    unfolding annotationName_def TrimPrefix_def HasPrefix_def by (rule if_P) (rule p)
  show ?thesis unfolding n using append_take_drop_id [of "length ''annotation:''" k] unfolding p by (rule sym)
qed

text \<open>What one parameter adds to each part of the query.\<close>

definition plainParam :: "string \<Rightarrow> string list \<Rightarrow> bool" where
  "plainParam k vs \<longleftrightarrow> k \<in> set attributes \<or> annotationKey k \<and> length vs = 1"

lemma plainParam_cases:
  assumes "plainParam k vs"
  obtains "k = ''repository''" "\<not> annotationKey k" | "k = ''tag''" "\<not> annotationKey k" | "k = ''tag:matches''" "\<not> annotationKey k"
    | "k = ''os''" "\<not> annotationKey k" | "k = ''architecture''" "\<not> annotationKey k"
    | v where "annotationKey k" "vs = [v]" "formValues k vs = AnnotationIs (annotationName k) v" "k \<notin> set attributes"
proof (cases "annotationKey k")
  case True
  then have "k \<notin> set attributes" by (rule annotationKey_not_attribute)
  then have "length vs = 1" using assms by (simp add: plainParam_def)
  then obtain v where "vs = [v]" by (cases vs) auto
  then have "formValues k vs = AnnotationIs (annotationName k) v" using formValues_annotation [OF True] by (simp add: fun_eq_iff)
  then show thesis by (rule that(6) [OF True \<open>vs = [v]\<close> _ \<open>k \<notin> set attributes\<close>])
next
  case False
  then have "k = ''repository'' \<or> k = ''tag'' \<or> k = ''tag:matches'' \<or> k = ''os'' \<or> k = ''architecture''"
    using assms by (simp add: plainParam_def attributes_def)
  then show thesis
    by (elim disjE) (erule that(1-5) [OF _ False])+
qed

lemma formValues_fields:
  assumes "plainParam k vs"
  shows "qRepository (formValues k vs q) = qRepository q @ (if k = ''repository'' then isTerms vs else [])"
    "qTag (formValues k vs q) = qTag q @ (if k = ''tag'' then isTerms vs else if k = ''tag:matches'' then matchTerms vs else [])"
    "qOS (formValues k vs q) = qOS q @ (if k = ''os'' then isTerms vs else [])"
    "qArchitecture (formValues k vs q) = qArchitecture q @ (if k = ''architecture'' then isTerms vs else [])"
    "qAnnotations (formValues k vs q) = (if annotationKey k
       then appendTerm (annotationName k) \<lparr>queryType = QueryIs, argument = vs ! 0\<rparr> (qAnnotations q) else qAnnotations q)"
  by (rule plainParam_cases [OF assms]; simp add: formValues_attribute AnnotationIs_def attributes_def)+

lemma formQuery_fields:
  assumes "\<forall>k \<in> set ks. plainParam k (gget0 [] form k)"
  shows "qRepository (formQuery form ks q) =
      qRepository q @ concat (map (\<lambda>k. if k = ''repository'' then isTerms (gget0 [] form k) else []) ks)"
    "qTag (formQuery form ks q) = qTag q @ concat (map (\<lambda>k. if k = ''tag'' then isTerms (gget0 [] form k)
       else if k = ''tag:matches'' then matchTerms (gget0 [] form k) else []) ks)"
    "qOS (formQuery form ks q) = qOS q @ concat (map (\<lambda>k. if k = ''os'' then isTerms (gget0 [] form k) else []) ks)"
    "qArchitecture (formQuery form ks q) =
      qArchitecture q @ concat (map (\<lambda>k. if k = ''architecture'' then isTerms (gget0 [] form k) else []) ks)"
  using assms by (induction ks arbitrary: q) (simp_all add: formValues_fields)

lemma formQuery_wf: "query_wf q \<Longrightarrow> query_wf (formQuery form ks q)"
proof -
  have "query_wf q \<Longrightarrow> query_wf (formValues k vs q)" for k vs q
    by (induction k vs q rule: formValues.induct) (simp_all add: query_wf_ops Let_def)
  then show "query_wf q \<Longrightarrow> query_wf (formQuery form ks q)"
    by (induction form ks q rule: formQuery.induct) simp_all
qed

lemma formQuery_annotations:
  assumes "distinct ks" "\<forall>k \<in> set ks. plainParam k (gget0 [] form k)"
    and "\<And>k. k \<in> set ks \<Longrightarrow> annotationKey k \<Longrightarrow> gget (qAnnotations q) (annotationName k) = None"
  shows "gget (qAnnotations (formQuery form ks q)) a = (case find (\<lambda>k. annotationKey k \<and> annotationName k = a) ks of
      Some k \<Rightarrow> Some (isTerms [gget0 [] form k ! 0]) | None \<Rightarrow> gget (qAnnotations q) a)"
  using assms
proof (induction ks arbitrary: q)
  case (Cons k ks)
  let ?q = "formValues k (gget0 [] form k) q"
  have p: "plainParam k (gget0 [] form k)" using Cons.prems(2) by simp
  have inj: "annotationName k' \<noteq> annotationName k" if "k' \<in> set ks" "annotationKey k'" "annotationKey k" for k'
    using that Cons.prems(1) annotationKey_name [of k] annotationKey_name [of k'] by (metis distinct.simps(2))
  have none: "gget (qAnnotations ?q) (annotationName k') = None" if "k' \<in> set ks" "annotationKey k'" for k'
    using Cons.prems(3) [of k'] that inj [of k'] by (auto simp: formValues_fields(5) [OF p] gget_appendTerm)
  have IH: "gget (qAnnotations (formQuery form ks ?q)) a = (case find (\<lambda>k. annotationKey k \<and> annotationName k = a) ks of
      Some k \<Rightarrow> Some (isTerms [gget0 [] form k ! 0]) | None \<Rightarrow> gget (qAnnotations ?q) a)"
    using Cons.prems(1,2) none by (intro Cons.IH) simp_all
  show ?case
  proof (cases "annotationKey k \<and> annotationName k = a")
    case True
    then have "find (\<lambda>k. annotationKey k \<and> annotationName k = a) ks = None"
      using inj by (auto simp: find_None_iff)
    moreover have "gget0 [] (qAnnotations q) a = []" using Cons.prems(3) [of k] True by simp
    ultimately show ?thesis using True IH by (simp add: formValues_fields(5) [OF p] gget_appendTerm)
  next
    case False
    then have "gget (qAnnotations ?q) a = gget (qAnnotations q) a"
      by (auto simp: formValues_fields(5) [OF p] gget_appendTerm)
    then show ?thesis using False IH by (auto split: option.splits)
  qed
qed simp

lemma NewQuery_fields [simp]:
  "qRepository NewQuery = []" "qTag NewQuery = []" "qOS NewQuery = []" "qArchitecture NewQuery = []"
  "qAnnotations NewQuery = []" "qLabels NewQuery = []"
  by (simp_all add: NewQuery_def)

lemma concat_single: "distinct ks \<Longrightarrow> concat (map (\<lambda>k. if k = a then f k else []) ks) = (if a \<in> set ks then f a else [])"
  by (induction ks) auto

lemma gget0_absent: "k \<notin> set (gkeys m) \<Longrightarrow> gget0 z m k = z"
  using gkeys_iff [of k m] by (cases "gget m k") auto

lemma concat_field:
  assumes "mset ks = mset (gkeys form)" "gomap_wf form"
  shows "concat (map (\<lambda>k. if k = a then isTerms (gget0 [] form k) else []) ks) = isTerms (gget0 [] form a)"
proof -
  have "distinct ks" "set ks = set (gkeys form)"
    using assms mset_eq_imp_distinct_iff [OF assms(1)] mset_eq_setD [OF assms(1)] by blast+
  then show ?thesis using concat_single [of ks a "\<lambda>k. isTerms (gget0 [] form k)"] gget0_absent [of a form "[]"] by auto
qed

lemma terms_hold_is: "terms_hold (isTerms vs) v \<longleftrightarrow> oneOf vs v"
  by (auto simp: terms_hold_def term_holds_def oneOf_def)

lemma UN_same:
  "(\<And>k. k \<in> A \<Longrightarrow> k \<notin> B \<Longrightarrow> g k = {}) \<Longrightarrow> (\<And>k. k \<in> B \<Longrightarrow> k \<notin> A \<Longrightarrow> g k = {}) \<Longrightarrow> (\<Union>k \<in> A. g k) = (\<Union>k \<in> B. g k)"
  by blast

lemma formQuery_tags:
  assumes "mset ks = mset (gkeys form)"
  shows "set (concat (map (\<lambda>k. if k = ''tag'' then isTerms (gget0 [] form k)
       else if k = ''tag:matches'' then matchTerms (gget0 [] form k) else []) ks)) =
     set (isTerms (gget0 [] form ''tag'')) \<union> set (matchTerms (gget0 [] form ''tag:matches''))"
proof -
  let ?f = "\<lambda>k. if k = ''tag'' then isTerms (gget0 [] form k) else if k = ''tag:matches'' then matchTerms (gget0 [] form k) else []"
  have "set (concat (map ?f ks)) = (\<Union>k \<in> set (gkeys form). set (?f k))"
    by (simp only: set_concat set_map image_image mset_eq_setD [OF assms])
  also have "\<dots> = (\<Union>k \<in> {''tag'', ''tag:matches''}. set (?f k))"
  proof (rule UN_same)
    show "set (?f k) = {}" if "k \<notin> {''tag'', ''tag:matches''}" for k using that by simp
    show "set (?f k) = {}" if "k \<notin> set (gkeys form)" for k using gget0_absent [OF that, of "[]"] by auto
  qed
  finally show ?thesis by simp
qed

lemma plainForm_param:
  assumes "plainForm form" "k \<in> set (gkeys form)"
  shows "plainParam k (gget0 [] form k)"
proof -
  obtain vs where "gget form k = Some vs" using assms(2) unfolding gkeys_iff by blast
  moreover from this have "(k, vs) \<in> set form" by (rule map_of_SomeD)
  ultimately show ?thesis using assms(1) by (auto simp: plainForm_def plainParam_def)
qed

lemma annotations_meaning:
  assumes "plainForm form" "mset ks = mset (gkeys form)"
  shows "map_terms_hold (qAnnotations (formQuery form ks NewQuery)) vs \<longleftrightarrow>
    (\<forall>(k, v) \<in> set form. annotationKey k \<longrightarrow> gget vs (annotationName k) = Some (v ! 0))"
proof -
  let ?m = "qAnnotations (formQuery form ks NewQuery)"
  have wf: "gomap_wf form" using assms(1) by (simp add: plainForm_def)
  have ks: "distinct ks" "set ks = set (gkeys form)"
    using wf mset_eq_imp_distinct_iff [OF assms(2)] mset_eq_setD [OF assms(2)] by blast+
  have get: "gget ?m a = (case find (\<lambda>k. annotationKey k \<and> annotationName k = a) ks of
      Some k \<Rightarrow> Some (isTerms [gget0 [] form k ! 0]) | None \<Rightarrow> None)" for a
    using formQuery_annotations [of ks form NewQuery a] ks plainForm_param [OF assms(1)] by (simp split: option.split)
  have one: "gget ?m (annotationName k) = Some (isTerms [v ! 0])" if kv: "(k, v) \<in> set form" "annotationKey k" for k v
  proof -
    let ?P = "\<lambda>k'. annotationKey k' \<and> annotationName k' = annotationName k"
    have "k \<in> set ks" using kv(1) ks(2) by force
    then obtain k' where f: "find ?P ks = Some k'" using kv(2) by (cases "find ?P ks") (auto simp: find_None_iff)
    then have "?P k'" by (auto simp: find_Some_iff)
    then have "k' = k" using annotationKey_name kv(2) by metis
    then show ?thesis using get [of "annotationName k"] f kv(1) wf by simp
  qed
  have keys: "a \<in> set (gkeys ?m) \<longleftrightarrow> (\<exists>(k, v) \<in> set form. annotationKey k \<and> annotationName k = a)" for a
  proof
    assume "a \<in> set (gkeys ?m)"
    then have "gget ?m a \<noteq> None" unfolding gkeys_iff .
    then obtain k where "find (\<lambda>k. annotationKey k \<and> annotationName k = a) ks = Some k"
      using get [of a] by (cases "find (\<lambda>k. annotationKey k \<and> annotationName k = a) ks") auto
    then have "annotationKey k" "annotationName k = a" "k \<in> set ks" by (auto simp: find_Some_iff)
    then show "\<exists>(k, v) \<in> set form. annotationKey k \<and> annotationName k = a" using ks(2) by auto
  next
    assume "\<exists>(k, v) \<in> set form. annotationKey k \<and> annotationName k = a"
    then show "a \<in> set (gkeys ?m)" unfolding gkeys_iff using one by auto
  qed
  have hold: "(\<exists>x. gget vs (annotationName k) = Some x \<and> (\<exists>t \<in> set (gget0 [] ?m (annotationName k)). term_holds t x)) \<longleftrightarrow>
      gget vs (annotationName k) = Some (v ! 0)" if "(k, v) \<in> set form" "annotationKey k" for k v
    using one [OF that] by (auto simp: term_holds_def)
  have "map_terms_hold ?m vs \<longleftrightarrow> (\<forall>(k, v) \<in> set form. annotationKey k \<longrightarrow>
      (\<exists>x. gget vs (annotationName k) = Some x \<and> (\<exists>t \<in> set (gget0 [] ?m (annotationName k)). term_holds t x)))"
  proof -
    have set: "set (gkeys ?m) = (\<lambda>x. annotationName (fst x)) ` {x \<in> set form. annotationKey (fst x)}"
      by (rule set_eqI) (unfold keys, force)
    show ?thesis unfolding map_terms_hold_def set by auto
  qed
  also have "\<dots> \<longleftrightarrow> (\<forall>(k, v) \<in> set form. annotationKey k \<longrightarrow> gget vs (annotationName k) = Some (v ! 0))"
  proof (intro ball_cong refl, clarify)
    fix k v assume kv: "(k, v) \<in> set form"
    show "(annotationKey k \<longrightarrow> (\<exists>x. gget vs (annotationName k) = Some x \<and>
        (\<exists>t \<in> set (gget0 [] ?m (annotationName k)). term_holds t x))) = (annotationKey k \<longrightarrow> gget vs (annotationName k) = Some (v ! 0))"
      by (rule imp_cong [OF refl]) (rule hold [OF kv])
  qed
  finally show ?thesis .
qed

lemma formQuery_matches:
  assumes "plainForm form" "mset ks = mset (gkeys form)"
  shows "query_matches (formQuery form ks NewQuery) row \<longleftrightarrow> form_matches form row"
proof -
  let ?q = "formQuery form ks NewQuery"
  have wf: "gomap_wf form" using assms(1) by (simp add: plainForm_def)
  have p: "\<forall>k \<in> set ks. plainParam k (gget0 [] form k)"
    using plainForm_param [OF assms(1)] mset_eq_setD [OF assms(2)] by blast
  have fields: "qRepository ?q = isTerms (gget0 [] form ''repository'')" "qOS ?q = isTerms (gget0 [] form ''os'')"
      "qArchitecture ?q = isTerms (gget0 [] form ''architecture'')"
    using formQuery_fields [OF p, of NewQuery] concat_field [OF assms(2) wf] by simp_all
  have tag: "set (qTag ?q) = set (isTerms (gget0 [] form ''tag'')) \<union> set (matchTerms (gget0 [] form ''tag:matches''))"
    using formQuery_fields(2) [OF p, of NewQuery] formQuery_tags [OF assms(2)] by simp
  have tags: "terms_hold (qTag ?q) v \<longleftrightarrow> gget0 [] form ''tag'' = [] \<and> gget0 [] form ''tag:matches'' = [] \<or>
      v \<in> set (gget0 [] form ''tag'') \<or> (\<exists>p \<in> set (gget0 [] form ''tag:matches''). glob_match (runes p) (runes v))" for v
  proof -
    have "qTag ?q = [] \<longleftrightarrow> gget0 [] form ''tag'' = [] \<and> gget0 [] form ''tag:matches'' = []"
      using tag by (metis Un_empty list.map_disc_iff set_empty)
    then show ?thesis unfolding terms_hold_def tag bex_Un set_map bex_simps by (auto simp: term_holds_def)
  qed
  have labels: "qLabels ?q = []"
  proof -
    have "qLabels (formQuery form ks q) = qLabels q" for q
      by (induction form ks q rule: formQuery.induct) (simp_all add: formValues_labels)
    then show ?thesis by (simp add: NewQuery_def)
  qed
  show ?thesis
    unfolding query_matches_def form_matches_def fields terms_hold_is tags labels annotations_meaning [OF assms]
    by (simp add: map_terms_hold_def)
qed

subsection \<open>The answer of the index\<close>

lemma pdb_DoQuery_runs:
  assumes "pdb_DoQuery env q db = (Inr repos, s, db')"
  obtains s1 where "runs (DoQuery env ptx0 q) (newTx db) repos s1" "db' = work s1"
proof -
  obtain res s1 where d: "DoQuery env ptx0 q (newTx db) = (res, s1)" by (cases "DoQuery env ptx0 q (newTx db)")
  have "res = Inr repos \<and> \<not> failed s1 \<and> db' = work s1"
    using assms d by (auto simp: pdb_DoQuery_def Begin_def newTx_def ptx0_def Commit_def sqlCommit_def Let_def
        split: if_splits sum.splits prod.splits commit_outcome.splits)
  then show thesis using that [of s1] d by (simp add: runs_def)
qed

lemma checkNoneMatch_status:
  "respStatus w = None \<Longrightarrow> checkNoneMatch e vals w = (True, w') \<Longrightarrow> respStatus w' \<in> {Some 304, Some 400}"
  "checkNoneMatch e vals w = (False, w') \<Longrightarrow> w' = setHeader ''ETag'' e w"
  by (induction vals) (auto simp: badRequest_def writeHeader_def setHeader_def writeBody_def Let_def split: sum.splits if_splits)

lemma CheckAndSetETag_status:
  assumes "respStatus w = None"
  shows "CheckAndSetETag we db r w = (True, w') \<Longrightarrow> respStatus w' \<in> {Some 304, Some 400, Some 500}"
    "CheckAndSetETag we db r w = (False, w') \<Longrightarrow> \<exists>e. w' = setHeader ''ETag'' e w"
proof -
  show "respStatus w' \<in> {Some 304, Some 400, Some 500}" if "CheckAndSetETag we db r w = (True, w')"
    using that checkNoneMatch_status(1) [OF assms]
    by (auto simp: CheckAndSetETag_def internalError_def writeHeader_def setHeader_def writeBody_def assms Let_def split: sum.splits)
  show "\<exists>e. w' = setHeader ''ETag'' e w" if "CheckAndSetETag we db r w = (False, w')"
    using that by (auto simp: CheckAndSetETag_def split: sum.splits dest: checkNoneMatch_status(2))
qed

text \<open>Texts the database can hold, and patterns without a backslash.\<close>

definition form_text_ok :: "string list gomap \<Rightarrow> bool" where
  "form_text_ok form \<longleftrightarrow> (\<forall>(k, vs) \<in> set form. list_all text_ok vs \<and> (k = ''tag:matches'' \<longrightarrow> list_all no_backslash vs) \<and>
     (annotationKey k \<longrightarrow> text_ok (annotationName k)))"

lemma map_terms_ok_append:
  assumes "map_terms_ok m" "text_ok k" "term_ok t"
  shows "map_terms_ok (appendTerm k t m)"
proof -
  have "list_all term_ok (gget0 [] m k)"
  proof (cases "gget m k")
    case (Some ts)
    then have "(k, ts) \<in> set m" by (rule map_of_SomeD)
    then show ?thesis using assms(1) Some by (auto simp: map_terms_ok_def)
  qed simp
  moreover have "set (AList.update k x m) \<subseteq> insert (k, x) (set m)" for x by (induction m) auto
  ultimately show ?thesis using assms unfolding map_terms_ok_def appendTerm_def by fastforce
qed

lemma formValues_text_ok:
  assumes "plainParam k vs" "query_text_ok q" "list_all text_ok vs" "k = ''tag:matches'' \<Longrightarrow> list_all no_backslash vs"
    and "annotationKey k \<Longrightarrow> text_ok (annotationName k)"
  shows "query_text_ok (formValues k vs q)"
proof -
  have is_ok: "list_all term_ok (isTerms vs)" using assms(3) by (simp add: list_all_iff term_ok_def)
  have m_ok: "list_all term_ok (matchTerms vs)" if "k = ''tag:matches''"
    using assms(3) assms(4) [OF that] by (simp add: list_all_iff term_ok_def)
  have "map_terms_ok (qAnnotations (formValues k vs q))"
  proof (cases "annotationKey k")
    case True
    then obtain v where "vs = [v]" using assms(1) annotationKey_not_attribute [OF True]
      by (cases vs) (auto simp: plainParam_def)
    then have "text_ok (vs ! 0)" using assms(3) by simp
    moreover have "qAnnotations (formValues k vs q) =
        appendTerm (annotationName k) \<lparr>queryType = QueryIs, argument = vs ! 0\<rparr> (qAnnotations q)"
      using formValues_fields(5) [OF assms(1), of q] True by (simp only: if_True)
    ultimately show ?thesis using assms(2) assms(5) [OF True]
      by (simp only:) (intro map_terms_ok_append, simp_all add: query_text_ok_def term_ok_def)
  next
    case False
    then show ?thesis using assms(2) by (simp add: formValues_fields(5) [OF assms(1)] query_text_ok_def)
  qed
  then show ?thesis using assms(2) is_ok m_ok
    by (simp add: query_text_ok_def formValues_labels formValues_fields(1-4) [OF assms(1)])
qed

lemma formQuery_text_ok:
  assumes "plainForm form" "form_text_ok form" "set ks \<subseteq> set (gkeys form)" "query_text_ok q"
  shows "query_text_ok (formQuery form ks q)"
  using assms(3,4)
proof (induction ks arbitrary: q)
  case (Cons k ks)
  then have k: "k \<in> set (gkeys form)" by simp
  then obtain vs where vs: "gget form k = Some vs" unfolding gkeys_iff by blast
  then have "(k, vs) \<in> set form" by (rule map_of_SomeD)
  then have "list_all text_ok vs \<and> (k = ''tag:matches'' \<longrightarrow> list_all no_backslash vs) \<and> (annotationKey k \<longrightarrow> text_ok (annotationName k))"
    using assms(2) by (auto simp: form_text_ok_def)
  then have "query_text_ok (formValues k vs q)"
    using plainForm_param [OF assms(1) k] Cons.prems(2) vs by (intro formValues_text_ok) simp_all
  then have "query_text_ok (formValues k (gget0 [] form k) q)" using vs by simp
  then show ?case using Cons by simp
qed simp

lemma index_200:
  assumes "index_ServeHTTP we config dynamic db newResponse r = (w, db')" "respStatus w = Some 200"
  obtains repos s reg where "pdb_DoQuery (webDb we) (formQuery (reqForm r) (mapOrd (webDb we) 9 (gkeys (reqForm r))) NewQuery) db = (Inr repos, s, db')"
    "respBody w = [JsonBody (JObj [(''Registry'', reg), (''Results'', JArr (map repositoryJson repos))])]"
proof -
  let ?q = "formQuery (reqForm r) (mapOrd (webDb we) 9 (gkeys (reqForm r))) NewQuery"
  let ?w1 = "SetCacheControl (cacheMaxAgeIndex config) dynamic newResponse"
  have w1: "respStatus ?w1 = None" "respBody ?w1 = []" by (simp_all add: SetCacheControl_def setHeader_def newResponse_def Let_def)
  obtain b w2 where c: "CheckAndSetETag we db r ?w1 = (b, w2)" by (cases "CheckAndSetETag we db r ?w1")
  have nb: "\<not> b" using c assms CheckAndSetETag_status(1) [OF w1(1), of we db r w2]
    by (auto simp: index_ServeHTTP_def Let_def)
  obtain e where w2: "w2 = setHeader ''ETag'' e ?w1" using CheckAndSetETag_status(2) [OF w1(1), of we db r w2] c nb by auto
  have st: "respStatus w2 = None" "respBody w2 = []" using w1 by (simp_all add: w2 setHeader_def)
  obtain x s d where q: "pdb_DoQuery (webDb we) ?q db = (x, s, d)" by (cases "pdb_DoQuery (webDb we) ?q db")
  show thesis using that c nb q assms st
    by (cases x) (auto simp: index_ServeHTTP_def Let_def internalError_def writeHeader_def setHeader_def writeBody_def)
qed

text \<open>
  C8. The index answers what the form asks for, for forms whose only parameters are \<^verbatim>\<open>repository\<close>, \<^verbatim>\<open>tag\<close>, \<^verbatim>\<open>tag:matches\<close>, \<^verbatim>\<open>os\<close>,
  \<^verbatim>\<open>architecture\<close>, with any number of values, and \<^verbatim>\<open>annotation:x\<close>, without a suffix and with one value, whose texts the database can hold
  and whose patterns have no backslash: when the status is 200, the body is the JSON of repositories whose images are exactly those
  that have a tag in the repository such that repository, tag, image and annotations satisfy the form, and whose lists are those with
  such an image, with these images; images and lists come with all their sorted tags, and the tables are unchanged. This holds for every order in
  which the form is enumerated.
\<close>

theorem index_answers:
  assumes "index_ServeHTTP we config dynamic db newResponse r = (w, db')" "respStatus w = Some 200"
    and "plainForm (reqForm r)" "form_text_ok (reqForm r)" "env_ok (webDb we)" "tables_wf db"
  shows "\<exists>repos reg. respBody w = [JsonBody (JObj [(''Registry'', reg), (''Results'', JArr (map repositoryJson repos))])] \<and>
    answers (form_matches (reqForm r)) db repos \<and> db' = db"
proof -
  let ?ks = "mapOrd (webDb we) 9 (gkeys (reqForm r))"
  let ?q = "formQuery (reqForm r) ?ks NewQuery"
  have ks: "mset ?ks = mset (gkeys (reqForm r))" using assms(5) by (simp add: env_ok_def range_order_def)
  have ok: "query_wf ?q" "query_text_ok ?q"
    using formQuery_wf [OF query_wf_New] formQuery_text_ok [OF assms(3,4) equalityD1 [OF mset_eq_setD [OF ks]], of NewQuery]
    by (simp_all add: query_text_ok_def map_terms_ok_def)
  from index_200 [OF assms(1,2)] obtain repos s reg where q: "pdb_DoQuery (webDb we) ?q db = (Inr repos, s, db')"
    and body: "respBody w = [JsonBody (JObj [(''Registry'', reg), (''Results'', JArr (map repositoryJson repos))])]" .
  from pdb_DoQuery_runs [OF q] obtain s1 where run: "runs (DoQuery (webDb we) ptx0 ?q) (newTx db) repos s1" "db' = work s1" .
  have w: "work (newTx db) = db" "tables_wf (work (newTx db))" using assms(6) by (simp_all add: newTx_def)
  have "query_matches ?q = form_matches (reqForm r)" using formQuery_matches [OF assms(3) ks] by blast
  then have "answers (form_matches (reqForm r)) db repos" using runs_answers [OF w(2) assms(5) ok run(1), unfolded w(1)] by simp
  then show ?thesis using body runs_DoQuery(1) [OF w(2) assms(5) ok run(1)] run(2) w(1)
    by (intro exI [of _ repos] exI [of _ reg]) simp
qed

definition demoRequest :: request where
  "demoRequest = \<lparr>reqMethod = ''GET'', reqHeader = [], reqForm = [(''tag:matches'', [''v*'']), (''repository'', [''app''])],
     reqURLQuery = []\<rparr>"

theorem index_answers_witness:
  "\<exists>repos reg. respBody (fst (index_ServeHTTP plainEnv demoConfig False oneImage newResponse demoRequest)) =
       [JsonBody (JObj [(''Registry'', reg), (''Results'', JArr (map repositoryJson repos))])] \<and>
     answers (form_matches (reqForm demoRequest)) oneImage repos \<and>
     snd (index_ServeHTTP plainEnv demoConfig False oneImage newResponse demoRequest) = oneImage"
proof -
  let ?i = "index_ServeHTTP plainEnv demoConfig False oneImage newResponse demoRequest"
  have st: "respStatus (fst ?i) = Some 200" by code_simp
  have i: "?i = (fst ?i, snd ?i)" by simp
  have p: "plainForm (reqForm demoRequest)" by code_simp
  have f: "form_text_ok (reqForm demoRequest)" by code_simp
  have e: "env_ok (webDb plainEnv)" using okEnv_ok by (simp add: plainEnv_def)
  show ?thesis by (rule index_answers [OF i st p f e oneImage_wf])
qed

end
