(* ===== verification/SystemRun.thy ===== *)
theory SystemRun
  imports FetchEverything IndexHandler
begin

section \<open>The database over the life of the program\<close>

text \<open>
  What the operations of the program do to the tables, one after the other: fetches, fetches of everything, garbage
  collections and the pages that are served, each with whatever registry, faults and orders of maps it meets. An invariant
  that every SQL statement keeps is an invariant of all of them (\<open>table_invariant\<close>).
\<close>

subsection \<open>Invariants of a fetch\<close>

context table_invariant
begin

lemma keeps_updateTargets:
  "(\<And>x. keeps I (storeT x)) \<Longrightarrow> (\<And>d ts. keeps I (setT d ts)) \<Longrightarrow>
     keeps I (updateTargets fetchT storeT setT tagsOf new ks old ch)"
  by (induction ks arbitrary: old ch) (auto simp: Let_def split: option.splits sum.splits intro!: tx_keeps)

lemma keeps_deleteTargets: "(\<And>d. keeps I (deleteT d)) \<Longrightarrow> keeps I (deleteTargets deleteT ks ch)"
  by (induction ks arbitrary: ch) (auto simp: keeps_def ret_def Let_def case_prod_unfold)

lemma keeps_delete_loop:
  assumes "\<And>d. keeps I (deleteT d)"
  shows "keeps I (case x of (old, ch) \<Rightarrow> (\<lambda>s. deleteTargets deleteT (loopOrd env s i (gkeys old)) ch s))"
  using keeps_deleteTargets [OF assms] by (simp add: keeps_def case_prod_unfold)

lemma keeps_updateImages: "keeps I (updateImages env ptx client r tm old ch)"
proof -
  let ?f = "\<lambda>ord. tryM (updateTargets (fetchTaggedImage ord client) (StoreImage env ptx r) (SetImageTags env ptx r)
      Tags (groupTags tm (ord (2::nat) (gkeys tm)) []) (ord 3 (gkeys (groupTags tm (ord 2 (gkeys tm)) []))) old ch)
      (\<lambda>(oldImages, changed). (\<lambda>s. deleteTargets (DeleteImage env ptx r) (loopOrd env s 4 (gkeys oldImages)) changed s))"
  have "keeps I (?f ord)" for ord
    by (intro keeps_tryM keeps_updateTargets keeps_delete_loop keeps_Store keeps_Set)
  from keeps_state [where f = ?f and g = "loopOrd env", OF this] show ?thesis
    by (simp add: updateImages_def [abs_def] Let_def)
qed

lemma keeps_updateLists: "keeps I (updateLists env ptx client r tm old ch)"
proof -
  let ?f = "\<lambda>ord. tryM (updateTargets (fetchTaggedList ord client) (StoreImageList env ptx r) (SetImageListTags env ptx r)
      listTags (groupTags tm (ord (5::nat) (gkeys tm)) []) (ord 6 (gkeys (groupTags tm (ord 5 (gkeys tm)) []))) old ch)
      (\<lambda>(oldLists, changed). (\<lambda>s. deleteTargets (DeleteImageList env ptx r) (loopOrd env s 7 (gkeys oldLists)) changed s))"
  have "keeps I (?f ord)" for ord
    by (intro keeps_tryM keeps_updateTargets keeps_delete_loop keeps_Store keeps_Set)
  from keeps_state [where f = ?f and g = "loopOrd env", OF this] show ?thesis
    by (simp add: updateLists_def [abs_def] Let_def)
qed

lemma keeps_updateTags: "keeps I (updateTags env ptx fop im li)"
  unfolding updateTags_def Let_def by (intro keeps_tryM keeps_DoQuery keeps_updateImages keeps_updateLists)

text \<open>A transaction that does not record a modification: whatever its outcome, the tables are the old ones or those it worked on.\<close>

lemma tx_end:
  "Begin env db = Inr (ptx, s) \<Longrightarrow> \<not> modify ptx \<and> work s = db"
  "\<not> modify ptx \<Longrightarrow> Commit env ptx s db = (res, s', db') \<Longrightarrow> db' = db \<or> db' = work s"
  "Rollback ptx s db = (res', s', db') \<Longrightarrow> db' = db"
  by (auto simp: Begin_def Commit_def Rollback_def sqlRollback_def sqlCommit_def Let_def split: if_splits commit_outcome.splits)

lemma keeps_tx:
  assumes "Begin env db = Inr (ptx, s)" "I db" "keeps I m"
    and "\<And>x s1. m s = (x, s1) \<Longrightarrow> (\<And>res s' db'. Commit env ptx s1 db = (res, s', db') \<Longrightarrow> db' = db \<or> db' = work s1) \<Longrightarrow>
      (\<And>res s' db'. Rollback ptx s1 db = (res, s', db') \<Longrightarrow> db' = db) \<Longrightarrow> db' = db \<or> db' = work s1"
  shows "I db'"
proof -
  obtain x s1 where m: "m s = (x, s1)" by fastforce
  note b = tx_end(1) [OF assms(1)]
  have "I (work s1)" using keepsD [OF assms(3), of s] assms(2) b m by simp
  moreover have "db' = db \<or> db' = work s1"
    by (rule assms(4) [OF m tx_end(2) [OF conjunct1 [OF b]] tx_end(3)])
  ultimately show ?thesis using assms(2) by blast
qed

lemma keeps_fetchRepository:
  assumes "fetchRepository env recv reg repo db bc = (res, db', bc')" "I db"
  shows "I db'"
proof (cases "\<exists>fop im li ptx s. newFetchOperation reg repo = Inr fop \<and> getTagsFromRegistry (opClient fop) = Inr (im, li) \<and>
    Begin env db = Inr (ptx, s)")
  case True
  then obtain fop im li ptx s where f: "newFetchOperation reg repo = Inr fop" "getTagsFromRegistry (opClient fop) = Inr (im, li)"
    "Begin env db = Inr (ptx, s)" by blast
  show ?thesis
  proof (rule keeps_tx [OF f(3) assms(2) keeps_updateTags [of env ptx fop im li]], goal_cases)
    case (1 x s1)
    then show ?case using assms(1) f
      by (cases x) (auto simp: fetchRepository_def updateRepositoryInDatabase_def Let_def split: sum.splits prod.splits)
  qed
next
  case False
  then show ?thesis using assms by (auto simp: fetchRepository_def split: sum.splits prod.splits)
qed

lemma keeps_garbageCollect:
  assumes "garbageCollect env db = (res, db')" "I db"
  shows "I db'"
proof (cases "Begin env db")
  case (Inr p)
  then obtain ptx s where p: "Begin env db = Inr (ptx, s)" by (cases p) auto
  show ?thesis
  proof (rule keeps_tx [OF p assms(2) keeps_DeleteUnused [of env ptx]], goal_cases)
    case (1 x s1)
    then show ?case using assms(1) p
      by (cases x) (auto simp: garbageCollect_def Let_def split: sum.splits prod.splits)
  qed
qed (use assms in \<open>simp add: garbageCollect_def\<close>)

lemma keeps_fetchAll:
  assumes "fetchAll env recv newRegistry db bc ch = Some (res, db', bc', ch')" "I db"
  shows "I db'"
proof (cases "\<exists>cat allRepos ptx s. newRegistry = Inr cat \<and> fetchPages cat 0 '''' [] = Some (Inr allRepos) \<and> Begin env db = Inr (ptx, s)")
  case True
  then obtain cat allRepos ptx s where f: "newRegistry = Inr cat" "fetchPages cat 0 '''' [] = Some (Inr allRepos)"
    "Begin env db = Inr (ptx, s)" by blast
  show ?thesis
  proof (rule keeps_tx [OF f(3) assms(2) keeps_DeleteMissingRepos [of env ptx allRepos]], goal_cases)
    case (1 x s1)
    then show ?case using assms(1) f
      by (cases x) (auto simp: fetchAll_def Let_def split: sum.splits prod.splits)
  qed
next
  case False
  then show ?thesis using assms by (auto simp: fetchAll_def split: sum.splits option.splits)
qed

lemma keeps_pdb_DoQuery:
  assumes "pdb_DoQuery env q db = (res, s', db')" "I db"
  shows "I db'"
proof (cases "Begin env db")
  case (Inr p)
  then obtain ptx s where p: "Begin env db = Inr (ptx, s)" by (cases p) auto
  show ?thesis
  proof (rule keeps_tx [OF p assms(2) keeps_DoQuery [of I env ptx q]], goal_cases)
    case (1 x s1)
    then show ?case using assms(1) p
      by (cases x) (auto simp: pdb_DoQuery_def Let_def split: sum.splits prod.splits)
  qed
qed (use assms in \<open>simp add: pdb_DoQuery_def\<close>)

lemma keeps_pages:
  "index_ServeHTTP we config dynamic db w r = (w', db') \<Longrightarrow> I db \<Longrightarrow> I db'"
  "home_ServeHTTP we config db w r = (w', db') \<Longrightarrow> I db \<Longrightarrow> I db'"
  using keeps_pdb_DoQuery
  by (auto simp: index_ServeHTTP_def home_ServeHTTP_def Let_def split: prod.splits bool.splits sum.splits)

end

subsection \<open>Runs of the program\<close>

text \<open>One operation on the tables and the broadcaster, from its first statement to the end of its transaction.\<close>

inductive sstep :: "tables \<times> changeBroadcaster \<Rightarrow> tables \<times> changeBroadcaster \<Rightarrow> bool" where
  fetch: "fetchRepository env recv reg repo db bc = (res, db', bc') \<Longrightarrow> sstep (db, bc) (db', bc')"
| fetch_all: "fetchAll env recv newRegistry db bc ch = Some (res, db', bc', ch') \<Longrightarrow> sstep (db, bc) (db', bc')"
| collect: "garbageCollect env db = (res, db') \<Longrightarrow> sstep (db, bc) (db', bc)"
| index_page: "index_ServeHTTP we config dynamic db w r = (w', db') \<Longrightarrow> sstep (db, bc) (db', bc)"
| home_page: "home_ServeHTTP we config db w r = (w', db') \<Longrightarrow> sstep (db, bc) (db', bc)"

inductive sreach :: "tables \<times> changeBroadcaster \<Rightarrow> tables \<times> changeBroadcaster \<Rightarrow> bool" where
  start: "sreach s s"
| step: "sreach s s' \<Longrightarrow> sstep s' s'' \<Longrightarrow> sreach s s''"

context table_invariant
begin

lemma keeps_step: "sstep s s' \<Longrightarrow> I (fst s) \<Longrightarrow> I (fst s')"
  by (induction rule: sstep.induct)
    (auto intro: keeps_fetchRepository keeps_fetchAll keeps_garbageCollect keeps_pages)

lemma keeps_reach: "sreach s s' \<Longrightarrow> I (fst s) \<Longrightarrow> I (fst s')"
  by (induction rule: sreach.induct) (auto intro: keeps_step)

end

text \<open>
  C6. Over any run of the program, with any faults of the database and any answers of the registry, the tables keep the keys and references
  of their schema; and the modification time is still the one the run started with, whatever was written.
\<close>

theorem system_invariant:
  assumes "sreach (db, bc) (db', bc')" "tables_wf db"
  shows "tables_wf db' \<and> modTime db' = modTime db"
  using schema.keeps_reach [OF assms(1)] stamp.keeps_reach [OF assms(1), of "modTime db"] assms(2) by simp

definition fetchedApp :: "tables \<times> changeBroadcaster" where
  "fetchedApp = snd (fetchRepository okEnv (\<lambda>_. False) (demoRegistry [''v1'', ''multi'']) ''app'' staleTag NewChangeBroadcaster)"

lemma sreach_fetchedApp: "sreach (staleTag, NewChangeBroadcaster) fetchedApp"
proof -
  let ?f = "fetchRepository okEnv (\<lambda>_. False) (demoRegistry [''v1'', ''multi'']) ''app'' staleTag NewChangeBroadcaster"
  have "?f = (fst ?f, fst fetchedApp, snd fetchedApp)" by (simp add: fetchedApp_def)
  then have "sstep (staleTag, NewChangeBroadcaster) (fst fetchedApp, snd fetchedApp)" by (rule sstep.fetch)
  then show ?thesis using sreach.step [OF sreach.start] by simp
qed

theorem system_invariant_witness:
  "tables_wf (fst fetchedApp) \<and> modTime (fst fetchedApp) = 0 \<and> imageTagT (fst fetchedApp) \<noteq> imageTagT staleTag"
proof -
  have r: "sreach (staleTag, NewChangeBroadcaster) (fst fetchedApp, snd fetchedApp)" using sreach_fetchedApp by simp
  have "modTime staleTag = 0" by code_simp
  moreover have "imageTagT (fst fetchedApp) \<noteq> imageTagT staleTag" by code_simp
  ultimately show ?thesis using system_invariant [OF r staleTag_wf] by simp
qed

text \<open>
  C39. A client that asks again with the entity tag it was given is told that nothing has changed, forever: after any run of the program
  the index answers 304 to the old tag, even when a fetch has changed the tags in between.
\<close>

theorem stale_index:
  assumes "sreach (db, bc) (db', bc')" "plainText (buildId we)" "plainText (formatTime we (modTime db))"
    and "\<not> faultAt (webDb we) 0" "gget0 [] (reqHeader r) ''If-None-Match'' = [etagOf we (modTime db)]"
  shows "\<exists>w. index_ServeHTTP we config dynamic db' newResponse r = (w, db') \<and> respStatus w = Some 304 \<and> respBody w = []"
proof -
  have m: "modTime db' = modTime db" using stamp.keeps_reach [OF assms(1), of "modTime db"] by simp
  let ?w = "SetCacheControl (cacheMaxAgeIndex config) dynamic newResponse"
  have w: "respStatus ?w = None" "respBody ?w = []" by (simp_all add: SetCacheControl_def setHeader_def newResponse_def Let_def)
  have "ParseIfMatch (etagOf we (modTime db)) = Inr [etagOf we (modTime db)]"
    by (rule ParseIfMatch_single [OF etagOf_entity [OF assms(2,3)]])
  then have "CheckAndSetETag we db' r ?w = (True, writeHeader 304 (setHeader ''ETag'' (etagOf we (modTime db)) ?w))"
    using assms(4,5) m by (simp add: CheckAndSetETag_def pdb_ModificationTime_def)
  then show ?thesis using w by (simp add: index_ServeHTTP_def Let_def writeHeader_def setHeader_def)
qed

theorem stale_index_witness:
  "\<exists>w. index_ServeHTTP plainEnv demoConfig False (fst fetchedApp) newResponse
     (demoRequest\<lparr>reqHeader := [(''If-None-Match'', [etagOf plainEnv (modTime staleTag)])]\<rparr>) = (w, fst fetchedApp) \<and>
     respStatus w = Some 304 \<and> imageTagT (fst fetchedApp) \<noteq> imageTagT staleTag"
proof -
  let ?r = "demoRequest\<lparr>reqHeader := [(''If-None-Match'', [etagOf plainEnv (modTime staleTag)])]\<rparr>"
  have r: "sreach (staleTag, NewChangeBroadcaster) (fst fetchedApp, snd fetchedApp)" using sreach_fetchedApp by simp
  have p: "plainText (buildId plainEnv)" "plainText (formatTime plainEnv (modTime staleTag))" by code_simp+
  have f: "\<not> faultAt (webDb plainEnv) 0" by code_simp
  have h: "gget0 [] (reqHeader ?r) ''If-None-Match'' = [etagOf plainEnv (modTime staleTag)]" by (simp add: gget0_def)
  have "imageTagT (fst fetchedApp) \<noteq> imageTagT staleTag" by code_simp
  then show ?thesis using stale_index [OF r p f h, of demoConfig False] by blast
qed

end
