(* ===== verification/EventHandler.thy ===== *)
theory EventHandler
  imports HttpUtil
begin

section \<open>Notifications of the registry (web/events.go)\<close>

text \<open>
  The handler checks the method and the token, decodes the events and asks the fetcher for every repository that was
  pushed to or deleted from. Its result is a panic, or the response and the repositories it passes to
  \<^verbatim>\<open>FetchRepository\<close>, in order. The decoded body is a parameter: the events are a third-party type.
\<close>

record event =
  eventAction :: string
  eventRepository :: string

text \<open>The loop over the \<^verbatim>\<open>Authorization\<close> headers; an index beyond the fields panics.\<close>

fun authorize :: "string \<Rightarrow> string list \<Rightarrow> bool \<Rightarrow> string + bool" where
  "authorize token [] authorized = Inr authorized"
| "authorize token (header # headers) authorized =
     (let fields = Fields header
      in if length fields = 0 then Inl ''index out of range''
         else if fields ! 0 = ''Bearer'' then
           (if length fields < 2 then Inl ''index out of range''
            else authorize token headers (if fields ! 1 = token then True else authorized))
         else authorize token headers authorized)"

fun fetchEvents :: "event list \<Rightarrow> string list" where
  "fetchEvents [] = []"
| "fetchEvents (e # events) =
     (if eventAction e = ''push'' \<or> eventAction e = ''delete'' then eventRepository e # fetchEvents events
      else fetchEvents events)"

definition decodeAndFetch :: "string + event list \<Rightarrow> response \<Rightarrow> response \<times> string list" where
  "decodeAndFetch decoded w = (case decoded of
     Inl err \<Rightarrow> (badRequest w err, []) | Inr events \<Rightarrow> (w, fetchEvents events))"

definition events_ServeHTTP ::
    "Config \<Rightarrow> string + event list \<Rightarrow> response \<Rightarrow> request \<Rightarrow> string + response \<times> string list" where
  "events_ServeHTTP config decoded w r =
     (if reqMethod r \<noteq> ''POST'' then Inr (badRequest w ''Can only POST to /events'', [])
      else if eventsToken config \<noteq> '''' then
        (case authorize (eventsToken config) (gget0 [] (reqHeader r) ''Authorization'') False of
           Inl panic \<Rightarrow> Inl panic
         | Inr authorized \<Rightarrow>
             if \<not> authorized then
               (let w = setHeader ''Content-Type'' ''text/plain'' w;
                    w = writeHeader 401 w
                in Inr (writeBody (TextBody (''No/incorrect authorization token provided'' @ [CHR 0x0A])) w, []))
             else Inr (decodeAndFetch decoded w))
      else Inr (decodeAndFetch decoded w))"

subsection \<open>Who may ask for a fetch\<close>

lemma authorize_iff:
  "authorize token hs a = Inr b \<Longrightarrow> b \<longleftrightarrow> a \<or> (\<exists>h \<in> set hs. \<exists>rest. Fields h = ''Bearer'' # token # rest)"
proof (induction hs arbitrary: a)
  case (Cons h hs)
  obtain f fs where f: "Fields h = f # fs" using Cons.prems by (cases "Fields h") (auto simp: Let_def)
  show ?case
  proof (cases "f = ''Bearer''")
    case True
    then obtain g gs where "fs = g # gs" using Cons.prems f by (cases fs) (auto simp: Let_def)
    then show ?thesis using Cons.IH [of "if g = token then True else a"] Cons.prems f True by (auto simp: Let_def)
  next
    case False
    then show ?thesis using Cons f by (auto simp: Let_def)
  qed
qed simp

lemma fetchEvents_filter:
  "fetchEvents evs = map eventRepository (filter (\<lambda>e. eventAction e \<in> {''push'', ''delete''}) evs)"
  by (induction evs) auto

lemma authorize_panics:
  "(\<exists>p. authorize token hs a = Inl p) \<longleftrightarrow> (\<exists>h \<in> set hs. Fields h = [] \<or> Fields h = [''Bearer''])"
proof (induction hs arbitrary: a)
  case (Cons h hs)
  show ?case
  proof (cases "Fields h = [] \<or> Fields h = [''Bearer'']")
    case False
    then obtain f fs where f: "Fields h = f # fs" by (cases "Fields h") auto
    obtain a' where a: "authorize token (h # hs) a = authorize token hs a'"
    proof (cases "f = ''Bearer''")
      case True
      then obtain g gs where "fs = g # gs" using False f by (cases fs) auto
      then show thesis using that [of "if g = token then True else a"] f True by (simp add: Let_def)
    qed (use f that [of a] in \<open>simp add: Let_def\<close>)
    show ?thesis unfolding a using Cons.IH [of a'] False by simp
  qed (auto simp: Let_def)
qed simp

text \<open>The headers the handler cannot index into, and those that carry the token.\<close>

definition shortHeader :: "request \<Rightarrow> bool" where
  "shortHeader r \<longleftrightarrow> (\<exists>h \<in> set (gget0 [] (reqHeader r) ''Authorization''). Fields h = [] \<or> Fields h = [''Bearer''])"

definition hasToken :: "string \<Rightarrow> request \<Rightarrow> bool" where
  "hasToken token r \<longleftrightarrow>
     (\<exists>h \<in> set (gget0 [] (reqHeader r) ''Authorization''). \<exists>rest. Fields h = ''Bearer'' # token # rest)"

lemma authorize_cases:
  obtains p where "authorize token (gget0 [] (reqHeader r) ''Authorization'') False = Inl p" "shortHeader r"
  | "authorize token (gget0 [] (reqHeader r) ''Authorization'') False = Inr (hasToken token r)" "\<not> shortHeader r"
proof (cases "authorize token (gget0 [] (reqHeader r) ''Authorization'') False")
  case (Inl p)
  then show thesis using that(1) authorize_panics [of token _ False] by (auto simp: shortHeader_def)
next
  case (Inr b)
  then have "\<not> shortHeader r" using authorize_panics [of token "gget0 [] (reqHeader r) ''Authorization''" False]
    by (auto simp: shortHeader_def)
  moreover have "b = hasToken token r" using authorize_iff [OF Inr] by (auto simp: hasToken_def)
  ultimately show thesis using that(2) Inr by simp
qed

lemmas response_defs = badRequest_def newResponse_def setHeader_def writeHeader_def writeBody_def Let_def

text \<open>
  C16. Authorized notifications, and only they, cause fetches, for every request: the handler panics exactly when a token is
  configured and a POST has an \<^verbatim>\<open>Authorization\<close> header without fields or with \<^verbatim>\<open>Bearer\<close> alone; otherwise a request that is not a POST
  is answered 400, a POST none of whose headers is \<^verbatim>\<open>Bearer\<close> and the configured token is answered 401, one whose body cannot be decoded
  400, all without a fetch; and every other one leaves the response as it is and asks for exactly the repositories of its
  push and delete events, in order.
\<close>

theorem events_authorized:
  "case events_ServeHTTP config decoded newResponse r of
     Inl panic \<Rightarrow> reqMethod r = ''POST'' \<and> eventsToken config \<noteq> '''' \<and> shortHeader r
   | Inr (w, reqs) \<Rightarrow> \<not> (reqMethod r = ''POST'' \<and> eventsToken config \<noteq> '''' \<and> shortHeader r) \<and>
       (if reqMethod r \<noteq> ''POST'' then respStatus w = Some 400 \<and> reqs = []
        else if eventsToken config \<noteq> '''' \<and> \<not> hasToken (eventsToken config) r then respStatus w = Some 401 \<and> reqs = []
        else case decoded of
          Inl _ \<Rightarrow> respStatus w = Some 400 \<and> reqs = []
        | Inr evs \<Rightarrow> w = newResponse \<and>
            reqs = map eventRepository (filter (\<lambda>e. eventAction e \<in> {''push'', ''delete''}) evs))"
proof (cases "reqMethod r = ''POST'' \<and> eventsToken config \<noteq> ''''")
  case True
  show ?thesis
    by (rule authorize_cases [of "eventsToken config" r])
      (use True in \<open>auto simp: events_ServeHTTP_def decodeAndFetch_def fetchEvents_filter response_defs split: sum.splits\<close>)
qed (auto simp: events_ServeHTTP_def decodeAndFetch_def fetchEvents_filter response_defs split: sum.splits)

definition demoEvent :: request where
  "demoEvent = \<lparr>reqMethod = ''POST'', reqHeader = [(''Authorization'', [''Basic x'', ''Bearer secret''])], reqForm = [], reqURLQuery = []\<rparr>"

theorem events_authorized_witness:
  "events_ServeHTTP demoConfig (Inr [\<lparr>eventAction = ''pull'', eventRepository = ''lib''\<rparr>, \<lparr>eventAction = ''push'', eventRepository = ''app''\<rparr>])
     newResponse demoEvent = Inr (newResponse, [''app'']) \<and> hasToken (eventsToken demoConfig) demoEvent"
proof -
  let ?evs = "[\<lparr>eventAction = ''pull'', eventRepository = ''lib''\<rparr>, \<lparr>eventAction = ''push'', eventRepository = ''app''\<rparr>]"
  have f: "Fields ''Basic x'' = [''Basic'', ''x'']" "Fields ''Bearer secret'' = [''Bearer'', ''secret'']"
    using Fields_two [of "''Basic''" "''x''"] Fields_two [of "''Bearer''" "''secret''"] by (simp_all add: visible_def)
  have h: "\<not> shortHeader demoEvent" "hasToken (eventsToken demoConfig) demoEvent"
    by (simp_all add: shortHeader_def hasToken_def demoEvent_def demoConfig_def gget0_def f)
  have "reqMethod demoEvent = ''POST''" by (simp add: demoEvent_def)
  then show ?thesis using events_authorized [where config = demoConfig and decoded = "Inr ?evs" and r = demoEvent] h by (auto split: sum.splits)
qed

text \<open>A visible token in the usual form of the header is accepted.\<close>

lemma events_accepts:
  assumes "reqMethod r = ''POST''" "gget0 [] (reqHeader r) ''Authorization'' = [''Bearer '' @ eventsToken config]"
    and "\<forall>c \<in> set (eventsToken config). visible c"
  shows "events_ServeHTTP config (Inr evs) w r = Inr (w, fetchEvents evs)"
proof (cases "eventsToken config = ''''")
  case False
  have "Fields (''Bearer'' @ '' '' @ eventsToken config) = [''Bearer'', eventsToken config]"
    by (rule Fields_two) (use False assms(3) in \<open>simp_all add: visible_def\<close>)
  then show ?thesis using assms(1,2) False by (simp add: events_ServeHTTP_def decodeAndFetch_def)
qed (use assms(1) in \<open>simp add: events_ServeHTTP_def decodeAndFetch_def\<close>)

text \<open>A header without a second field, or an empty one, makes the handler panic.\<close>

lemma events_short_header_panics:
  assumes "reqMethod r = ''POST''" "eventsToken config \<noteq> ''''"
    and "gget0 [] (reqHeader r) ''Authorization'' = [''Bearer''] \<or> gget0 [] (reqHeader r) ''Authorization'' = ['''']"
  shows "events_ServeHTTP config decoded w r = Inl ''index out of range''"
proof -
  have "Fields ''Bearer'' = [''Bearer'']" by (rule Fields_one) (simp_all add: visible_def)
  then show ?thesis using assms by (auto simp: events_ServeHTTP_def)
qed

end
