(* ===== verification/AssertHandler.thy ===== *)
theory AssertHandler
  imports IndexHandler ChangeBroadcaster
begin

section \<open>Assertions on the index (web/assert.go)\<close>

text \<open>
  The handler asks for everything (the fields of the query are not exported, so the decoder leaves it empty), checks the
  assertions of the request on the answer, and tries again after a change until they hold or the time is over. What
  it meets from outside is indexed by the number of the round: the tables, the environment of the
  database, the clock, and what \<^verbatim>\<open>WaitTimeout\<close> returns. The loop may go on forever, so it is a partial function.
\<close>

subsection \<open>Containment\<close>

text \<open>The argument \<open>a\<close> is a value that \<^verbatim>\<open>json.Unmarshal\<close> made: an object is a map, a number a \<^verbatim>\<open>float64\<close>.\<close>

function (sequential) jsonContains :: "json \<Rightarrow> json \<Rightarrow> bool"
  and mapContains :: "(string \<times> json) list \<Rightarrow> (string \<times> json) list \<Rightarrow> bool"
  and sliceContains :: "json list \<Rightarrow> json list \<Rightarrow> bool"
  and someContains :: "json list \<Rightarrow> json \<Rightarrow> bool" where
  "jsonContains (JObj a) b = (case b of JObj b_v \<Rightarrow> mapContains a b_v | _ \<Rightarrow> False)"
| "jsonContains (JArr a) b = (case b of JArr b_v \<Rightarrow> sliceContains a b_v | _ \<Rightarrow> False)"
| "jsonContains (JStr a) b = (if JStr a \<noteq> b then False else True)"
| "jsonContains (JBool a) b = (if JBool a \<noteq> b then False else True)"
| "jsonContains _ b = False"
| "mapContains a [] = True"
| "mapContains a ((key, b_value) # b) =
     (case gget a key of
        None \<Rightarrow> False
      | Some a_value \<Rightarrow> if \<not> jsonContains a_value b_value then False else mapContains a b)"
| "sliceContains a [] = True"
| "sliceContains a (b_value # b) = (if \<not> someContains a b_value then False else sliceContains a b)"
| "someContains [] b = False"
| "someContains (a_value # a) b = (if jsonContains a_value b then True else someContains a b)"
  by pat_completeness auto
termination
  by (relation "measures [
      \<lambda>x. case x of Inl (Inl (a, b)) \<Rightarrow> size b | Inl (Inr (a, b)) \<Rightarrow> size_list (size_prod (\<lambda>_. 0) size) b
        | Inr (Inl (a, b)) \<Rightarrow> size_list size b | Inr (Inr (a, b)) \<Rightarrow> size b,
      \<lambda>x. case x of Inl (Inl (a, b)) \<Rightarrow> size a | Inl (Inr (a, b)) \<Rightarrow> 0
        | Inr (Inl (a, b)) \<Rightarrow> 0 | Inr (Inr (a, b)) \<Rightarrow> size_list size a]")
    auto

declare jsonContains.simps [simp del] mapContains.simps [simp del] sliceContains.simps [simp del] someContains.simps [simp del]

lemmas contains_simps = jsonContains.simps mapContains.simps sliceContains.simps someContains.simps

lemma mapContains_iff: "mapContains a b \<longleftrightarrow> (\<forall>(k, v) \<in> set b. \<exists>u. gget a k = Some u \<and> jsonContains u v)"
  by (induction b) (auto simp: contains_simps split: option.splits if_splits)

lemma someContains_iff: "someContains a v \<longleftrightarrow> (\<exists>u \<in> set a. jsonContains u v)"
  by (induction a) (auto simp: contains_simps)

lemma sliceContains_iff: "sliceContains a b \<longleftrightarrow> (\<forall>v \<in> set b. \<exists>u \<in> set a. jsonContains u v)"
  by (induction b) (auto simp: contains_simps someContains_iff)

subsection \<open>The assertions\<close>

record Assertion =
  assertType :: string
  assertTest :: json

definition AssertionContains :: string where
  "AssertionContains = ''contains''"

definition AssertionNotContains :: string where
  "AssertionNotContains = ''not-contains''"

fun checkAssertions :: "json \<Rightarrow> Assertion list \<Rightarrow> Assertion list \<Rightarrow> string + Assertion list" where
  "checkAssertions result [] failures = Inr failures"
| "checkAssertions result (a # assertions) failures =
     (if assertType a = AssertionContains then
        checkAssertions result assertions (if \<not> jsonContains result (assertTest a) then failures @ [a] else failures)
      else if assertType a = AssertionNotContains then
        checkAssertions result assertions (if jsonContains result (assertTest a) then failures @ [a] else failures)
      else Inl (''Unknown assertion type '' @ assertType a))"

subsection \<open>The timeout\<close>

text \<open>\<^verbatim>\<open>strconv.Atoi\<close>: the value and the error; a value out of range is replaced by the nearest one.\<close>

datatype numError = ErrSyntax | ErrRange

fun parseDigits :: "string \<Rightarrow> nat \<Rightarrow> numError + nat" where
  "parseDigits [] n = Inr n"
| "parseDigits (c # s) n =
     (if \<not> within 48 57 c then Inl ErrSyntax
      else let n1 = n * 10 + (byte c - 48) in if 2 ^ 64 \<le> n1 then Inl ErrRange else parseDigits s n1)"

definition Atoi :: "string \<Rightarrow> int \<times> numError option" where
  "Atoi s =
     (let neg = (take 1 s = ''-'');
          digits = (if neg \<or> take 1 s = ''+'' then drop 1 s else s)
      in if digits = [] then (0, Some ErrSyntax)
         else case parseDigits digits 0 of
             Inl ErrSyntax \<Rightarrow> (0, Some ErrSyntax)
           | Inl ErrRange \<Rightarrow> (if neg then - (2 ^ 63) else 2 ^ 63 - 1, Some ErrRange)
           | Inr un \<Rightarrow>
               if \<not> neg \<and> 2 ^ 63 \<le> un then (2 ^ 63 - 1, Some ErrRange)
               else if neg \<and> 2 ^ 63 < un then (- (2 ^ 63), Some ErrRange)
               else (if neg then - int un else int un, None))"

text \<open>\<^verbatim>\<open>time.Duration(timeout) * time.Second\<close>: a product of 64-bit integers.\<close>

definition timeoutDuration :: "int \<Rightarrow> int" where
  "timeoutDuration timeout = sint (word_of_int timeout * 1000000000 :: 64 word)"

text \<open>\<^verbatim>\<open>time.Until\<close> stays within the range of a duration.\<close>

definition until :: "int \<Rightarrow> int \<Rightarrow> int" where
  "until expires clock = max (- (2 ^ 63)) (min (2 ^ 63 - 1) (expires - clock))"

subsection \<open>Decoding the answer and encoding the reply\<close>

text \<open>What \<^verbatim>\<open>json.Unmarshal\<close> makes of a text when it may choose the types, and what \<^verbatim>\<open>json.Marshal\<close> makes of that:
  an object is a map, in which the last value of a key counts, and is written with sorted keys.\<close>

fun genericValue :: "json \<Rightarrow> json" where
  "genericValue (JObj es) = JObj (foldl (\<lambda>m (k, v). gset k v m) [] (map (\<lambda>(k, v). (k, genericValue v)) es))"
| "genericValue (JArr vs) = JArr (map genericValue vs)"
| "genericValue v = v"

fun genericJson :: "json \<Rightarrow> json" where
  "genericJson (JObj m) = JObj (sort_key fst (map (\<lambda>(k, v). (k, genericJson v)) m))"
| "genericJson (JArr vs) = JArr (map genericJson vs)"
| "genericJson v = v"

record assertReply =
  replySuccess :: bool
  replyResults :: "Repository list"
  replyFailures :: "Assertion list"

definition resultsJson :: "Repository list \<Rightarrow> json" where
  "resultsJson results = JArr (map repositoryJson results)"

definition failureJson :: "Assertion \<Rightarrow> json" where
  "failureJson a = JObj [(''Type'', jsonText (assertType a)), (''Test'', genericJson (assertTest a))]"

definition replyJson :: "assertReply \<Rightarrow> json" where
  "replyJson reply = JObj [(''Success'', JBool (replySuccess reply)), (''Results'', resultsJson (replyResults reply)),
     (''Failures'', if replyFailures reply = [] then JNull else JArr (map failureJson (replyFailures reply)))]"

subsection \<open>The handler\<close>

text \<open>
  What the handler meets in each round of its loop: the database, the clock and the broadcaster, and in \<open>roundArrives i\<close> the first
  change that is delivered on the channel of round \<open>i\<close>, with the nanoseconds from the registration to its delivery. The \<^verbatim>\<open>select\<close> of
  \<^verbatim>\<open>WaitTimeout\<close> takes the change if it comes before the timer fires.
\<close>

record assertEnv =
  startClock :: int
  startCb :: changeBroadcaster
  roundEnv :: "nat \<Rightarrow> webEnv"
  roundDb :: "nat \<Rightarrow> tables"
  roundClock :: "nat \<Rightarrow> int"
  roundCb :: "nat \<Rightarrow> changeBroadcaster"
  roundArrives :: "nat \<Rightarrow> (int \<times> change) option"
  numErrorText :: "string \<Rightarrow> numError \<Rightarrow> string"

definition waitRound :: "assertEnv \<Rightarrow> nat \<Rightarrow> change \<Rightarrow> int \<Rightarrow> change \<times> bool" where
  "waitRound ae i lastChange timeout =
     (case WaitTimeout lastChange timeout 0 (roundCb ae i) of
        (Returned c ok, _) \<Rightarrow> (c, ok)
      | (Registered, _) \<Rightarrow> (case roundArrives ae i of
          Some (delay, c) \<Rightarrow> if delay < timeout then (c, True) else (Change_struct 0, False)
        | None \<Rightarrow> (Change_struct 0, False)))"

datatype httpFailure = Internal string | Bad string

text \<open>The body of the loop before it waits.\<close>

definition checkRound :: "assertEnv \<Rightarrow> Assertion list \<Rightarrow> nat \<Rightarrow> httpFailure + assertReply" where
  "checkRound ae assertions i =
     (case pdb_DoQuery (webDb (roundEnv ae i)) NewQuery (roundDb ae i) of
        (Inl err, _, _) \<Rightarrow> Inl (Internal (errText (roundEnv ae i) err))
      | (Inr results, _, _) \<Rightarrow>
          (case checkAssertions (genericValue (resultsJson results)) assertions [] of
             Inl err \<Rightarrow> Inl (Bad err)
           | Inr failures \<Rightarrow>
               Inr \<lparr>replySuccess = (length failures = 0), replyResults = results, replyFailures = failures\<rparr>))"

partial_function (option) assertLoop ::
    "assertEnv \<Rightarrow> Assertion list \<Rightarrow> int \<Rightarrow> int \<Rightarrow> nat \<Rightarrow> change \<Rightarrow> (httpFailure + assertReply) option" where
  "assertLoop ae assertions timeout expires i lastChange =
     (case checkRound ae assertions i of
        Inl err \<Rightarrow> Some (Inl err)
      | Inr reply \<Rightarrow>
          if replySuccess reply then Some (Inr reply)
          else
            let (lastChange, ok) =
                  (if timeout \<noteq> 0 then waitRound ae i lastChange (until expires (roundClock ae i)) else (lastChange, False))
            in if \<not> ok then Some (Inr reply) else assertLoop ae assertions timeout expires (Suc i) lastChange)"

definition urlGet :: "string list gomap \<Rightarrow> string \<Rightarrow> string" where
  "urlGet q k = (case gget0 [] q k of [] \<Rightarrow> '''' | v # _ \<Rightarrow> v)"

definition parseTimeout :: "assertEnv \<Rightarrow> request \<Rightarrow> response \<Rightarrow> int \<times> response" where
  "parseTimeout ae r w =
     (let s = urlGet (reqURLQuery r) ''timeout''
      in if s \<noteq> '''' then
           (case Atoi s of
              (timeout, None) \<Rightarrow> (timeout, w)
            | (timeout, Some err) \<Rightarrow> (timeout, badRequest w (''Cannot parse timeout: '' @ numErrorText ae s err)))
         else (0, w))"

definition assertRespond :: "response \<Rightarrow> httpFailure + assertReply \<Rightarrow> response" where
  "assertRespond w result = (case result of
     Inl (Internal err) \<Rightarrow> internalError w err
   | Inl (Bad err) \<Rightarrow> badRequest w err
   | Inr reply \<Rightarrow>
       (let w = setHeader ''Content-Type'' ''application/json'' w;
            w = (if replySuccess reply then writeHeader 200 w else writeHeader 400 w)
        in writeBody (JsonBody (replyJson reply)) w))"

definition assert_ServeHTTP :: "assertEnv \<Rightarrow> string + Assertion list \<Rightarrow> response \<Rightarrow> request \<Rightarrow> response option" where
  "assert_ServeHTTP ae decoded w r =
     (case decoded of
        Inl err \<Rightarrow> Some (badRequest w err)
      | Inr assertions \<Rightarrow>
          (let (timeout, w) = parseTimeout ae r w;
               lastChange = LastChange (startCb ae);
               expires = startClock ae + timeoutDuration timeout
           in map_option (assertRespond w) (assertLoop ae assertions timeout expires 0 lastChange)))"

subsection \<open>Containment is a preorder\<close>

text \<open>Values without numbers and nulls, whose objects have every key once.\<close>

fun comparable :: "json \<Rightarrow> bool" where
  "comparable (JObj m) \<longleftrightarrow> gomap_wf m \<and> list_all (\<lambda>(k, v). comparable v) m"
| "comparable (JArr vs) \<longleftrightarrow> list_all comparable vs"
| "comparable (JStr s) \<longleftrightarrow> True"
| "comparable (JBool b) \<longleftrightarrow> True"
| "comparable v \<longleftrightarrow> False"

lemma contains_refl: "comparable v \<Longrightarrow> jsonContains v v"
proof (induction v rule: comparable.induct)
  case (1 m)
  have "jsonContains v v" if "(k, v) \<in> set m" for k v
    using "1.IH" [OF that refl] "1.prems" that by (auto simp: list_all_iff)
  then show ?case using "1.prems" by (auto simp: contains_simps mapContains_iff)
next
  case (2 vs)
  then show ?case by (auto simp: contains_simps sliceContains_iff list_all_iff)
qed (simp_all add: contains_simps)

lemma contains_obj: "jsonContains a (JObj m) \<longleftrightarrow> (\<exists>n. a = JObj n \<and> mapContains n m)"
  by (cases a) (simp_all add: contains_simps)

lemma contains_arr: "jsonContains a (JArr m) \<longleftrightarrow> (\<exists>n. a = JArr n \<and> sliceContains n m)"
  by (cases a) (simp_all add: contains_simps)

lemma contains_atom: "jsonContains a (JStr s) \<longleftrightarrow> a = JStr s" "jsonContains a (JBool b) \<longleftrightarrow> a = JBool b"
  "\<not> jsonContains a (JNum x)" "\<not> jsonContains a JNull"
  by (cases a; simp add: contains_simps)+

lemma contains_trans: "jsonContains b c \<Longrightarrow> jsonContains a b \<Longrightarrow> jsonContains a c"
proof (induction c arbitrary: a b)
  case (JArr cs)
  then obtain as bs where ab: "a = JArr as" "b = JArr bs" "sliceContains as bs" "sliceContains bs cs"
    by (auto simp: contains_arr)
  have "\<exists>u \<in> set as. jsonContains u z" if z: "z \<in> set cs" for z
  proof -
    obtain y where y: "y \<in> set bs" "jsonContains y z" using ab(4) z by (auto simp: sliceContains_iff)
    then obtain x where "x \<in> set as" "jsonContains x y" using ab(3) by (auto simp: sliceContains_iff)
    then show ?thesis using JArr.IH [OF z y(2)] by blast
  qed
  then show ?case by (simp add: contains_arr ab(1) sliceContains_iff)
next
  case (JObj cs)
  then obtain as bs where ab: "a = JObj as" "b = JObj bs" "mapContains as bs" "mapContains bs cs"
    by (auto simp: contains_obj)
  have "\<exists>u. gget as k = Some u \<and> jsonContains u z" if z: "(k, z) \<in> set cs" for k z
  proof -
    obtain y where y: "gget bs k = Some y" "jsonContains y z" using ab(4) z by (auto simp: mapContains_iff)
    then obtain x where "gget as k = Some x" "jsonContains x y"
      using ab(3) map_of_SomeD [OF y(1)] by (auto simp: mapContains_iff)
    then show ?thesis using JObj.IH [OF z _ y(2), of x] by auto
  qed
  then show ?case by (auto simp: contains_obj ab(1) mapContains_iff)
qed (simp_all add: contains_atom)

text \<open>No number and no null anywhere in the value.\<close>

fun numberless :: "json \<Rightarrow> bool" where
  "numberless (JObj m) \<longleftrightarrow> list_all (\<lambda>(k, v). numberless v) m"
| "numberless (JArr vs) \<longleftrightarrow> list_all numberless vs"
| "numberless (JNum s) \<longleftrightarrow> False"
| "numberless JNull \<longleftrightarrow> False"
| "numberless v \<longleftrightarrow> True"

lemma contains_numberless: "jsonContains a b \<Longrightarrow> numberless b"
proof (induction b arbitrary: a rule: numberless.induct)
  case (1 m)
  then show ?case by (fastforce simp: contains_obj mapContains_iff list_all_iff)
next
  case (2 vs)
  then show ?case by (fastforce simp: contains_arr sliceContains_iff list_all_iff)
qed (simp_all add: contains_atom)

text \<open>
  C19. Containment is a preorder on the values it can compare: a value without numbers and nulls contains itself, what
  is contained in a contained value is contained, and a test in which a number or a null occurs anywhere is never
  contained in anything, because decoded numbers are not of the type the comparison handles.
\<close>

theorem jsonContains_preorder:
  "(comparable a \<longrightarrow> jsonContains a a) \<and>
   (jsonContains a b \<and> jsonContains b c \<longrightarrow> jsonContains a c) \<and>
   (\<not> numberless b \<longrightarrow> \<not> jsonContains a b)"
  using contains_refl contains_trans contains_numberless by blast

definition testA :: json where
  "testA = JObj [(''Name'', JStr ''app''), (''Tags'', JArr [JStr ''v1'', JStr ''latest''])]"

definition testB :: json where
  "testB = JObj [(''Tags'', JArr [JStr ''latest'', JStr ''v1''])]"

definition testC :: json where
  "testC = JObj [(''Tags'', JArr [JStr ''v1''])]"

theorem jsonContains_preorder_witness:
  "jsonContains testA testA \<and> jsonContains testA testC \<and> \<not> jsonContains (JArr [JNum ''1'']) (JArr [JNum ''1''])"
proof -
  have "comparable testA" by code_simp
  then have "jsonContains testA testA" using jsonContains_preorder [of testA] by blast
  moreover have "jsonContains testA testB" "jsonContains testB testC" by code_simp+
  then have "jsonContains testA testC" using jsonContains_preorder [of testA testB testC] by blast
  moreover have "\<not> numberless (JArr [JNum ''1''])" by simp
  then have "\<not> jsonContains (JArr [JNum ''1'']) (JArr [JNum ''1''])" using jsonContains_preorder [of "JArr [JNum ''1'']" "JArr [JNum ''1'']"] by blast
  ultimately show ?thesis by blast
qed

subsection \<open>The length of the timeout\<close>

text \<open>
  C37. The duration is the number of seconds asked for exactly up to about 292 years: beyond that the product wraps around,
  so that a timeout of 9223372037 seconds, and the largest one that can be written, have already expired.
\<close>

theorem timeoutDuration_exact:
  "(timeoutDuration timeout = timeout * 1000000000 \<longleftrightarrow> -9223372036 \<le> timeout \<and> timeout \<le> 9223372036) \<and>
   timeoutDuration 9223372037 < 0 \<and> timeoutDuration (2 ^ 63 - 1) = -1000000000"
proof (intro conjI iffI)
  have w: "word_of_int timeout * 1000000000 = (word_of_int (timeout * 1000000000) :: 64 word)" by simp
  { assume "timeoutDuration timeout = timeout * 1000000000"
    then have "- (2 ^ 63) \<le> timeout * 1000000000" "timeout * 1000000000 < 2 ^ 63"
      using sint_ge [of "word_of_int timeout * 1000000000 :: 64 word"] sint_lt [of "word_of_int timeout * 1000000000 :: 64 word"]
      by (simp_all add: timeoutDuration_def)
    then show "-9223372036 \<le> timeout" "timeout \<le> 9223372036" by simp_all }
  assume "-9223372036 \<le> timeout \<and> timeout \<le> 9223372036"
  then show "timeoutDuration timeout = timeout * 1000000000"
    unfolding timeoutDuration_def w sint_sbintrunc' by (intro signed_take_bit_int_eq_self) simp_all
next
  show "timeoutDuration 9223372037 < 0" "timeoutDuration (2 ^ 63 - 1) = -1000000000"
    by (simp_all add: timeoutDuration_def)
qed

subsection \<open>The loop returns\<close>

text \<open>What the broadcaster promises the loop: serial numbers do not go back, and a change that arrives on a channel is newer
  than the state in which the channel was registered and no newer than the next state that is seen. (A delay is what a duration can hold.)\<close>

definition broadcasts_ok :: "assertEnv \<Rightarrow> bool" where
  "broadcasts_ok ae \<longleftrightarrow> serial (startCb ae) \<le> serial (roundCb ae 0) \<and>
     (\<forall>i. serial (roundCb ae i) \<le> serial (roundCb ae (Suc i))) \<and>
     (\<forall>i delay c. roundArrives ae i = Some (delay, c) \<longrightarrow> 0 \<le> delay \<and> delay < 2 ^ 63 - 1 \<and>
        serial (roundCb ae i) < serial_of c \<and> serial_of c \<le> serial (roundCb ae (Suc i)))"

text \<open>A run of the broadcaster keeps this promise, as long as its serial has not wrapped around: \<open>run i\<close> is its state when the loop
  waits in round \<open>i\<close>, and a change that arrives there was made by a \<^verbatim>\<open>Change\<close> between this state and the next.\<close>

lemma bsteps_breach: "bstep\<^sup>*\<^sup>* s s' \<Longrightarrow> breach s \<Longrightarrow> breach s'"
  by (induction rule: rtranclp_induct) (auto intro: breach.step)

lemma serial_total: "breach s \<Longrightarrow> total s < 2 ^ 64 \<Longrightarrow> unat (serial (cb s)) = total s"
  using breach_binv [of s] unat_total [of s] by (simp add: binv_def)

definition madeBetween :: "change \<Rightarrow> bsys \<Rightarrow> bsys \<Rightarrow> bool" where
  "madeBetween c s s' \<longleftrightarrow> (\<exists>u chs b. bstep\<^sup>*\<^sup>* s u \<and> Change (receiving u) (cb u) = (c, chs, b) \<and>
     bstep\<^sup>*\<^sup>* (u\<lparr>cb := b, pcs := deliver c chs \<circ> pcs u, total := Suc (total u)\<rparr>) s')"

lemma broadcasts_from_run:
  assumes "breach s0" "startCb ae = cb s0" "bstep\<^sup>*\<^sup>* s0 (run 0)"
    and "\<And>i. roundCb ae i = cb (run i)" "\<And>i. bstep\<^sup>*\<^sup>* (run i) (run (Suc i))"
    and "\<And>i delay c. roundArrives ae i = Some (delay, c) \<Longrightarrow> 0 \<le> delay \<and> delay < 2 ^ 63 - 1 \<and> madeBetween c (run i) (run (Suc i))"
    and "\<And>i. total (run i) < 2 ^ 64"
  shows "broadcasts_ok ae"
proof -
  have r: "breach (run i)" for i
    by (induction i) (use assms(1,3,5) bsteps_breach in blast)+
  have ser: "unat (serial (cb (run i))) = total (run i)" for i by (rule serial_total [OF r assms(7)])
  have "total s0 \<le> total (run 0)" by (rule bsteps_total [OF assms(3)])
  then have "serial (startCb ae) \<le> serial (roundCb ae 0)"
    using serial_total [OF assms(1)] ser [of 0] assms(7) [of 0] by (simp add: assms(2,4) word_le_nat_alt)
  moreover have "serial (roundCb ae i) \<le> serial (roundCb ae (Suc i))" for i
    using bsteps_total [OF assms(5) [of i]] by (simp add: assms(4) word_le_nat_alt ser)
  moreover have "serial (roundCb ae i) < serial_of c \<and> serial_of c \<le> serial (roundCb ae (Suc i))" if "roundArrives ae i = Some (delay, c)" for i delay c
  proof -
    from assms(6) [OF that] obtain u chs b where u: "bstep\<^sup>*\<^sup>* (run i) u" "Change (receiving u) (cb u) = (c, chs, b)"
      "bstep\<^sup>*\<^sup>* (u\<lparr>cb := b, pcs := deliver c chs \<circ> pcs u, total := Suc (total u)\<rparr>) (run (Suc i))" by (auto simp: madeBetween_def)
    let ?v = "u\<lparr>cb := b, pcs := deliver c chs \<circ> pcs u, total := Suc (total u)\<rparr>"
    have v: "total (run i) \<le> total u" "Suc (total u) \<le> total (run (Suc i))"
      using bsteps_total [OF u(1)] bsteps_total [OF u(3)] by simp_all
    have "breach ?v" by (rule breach.step [OF bsteps_breach [OF u(1) r] bstep.change [OF u(2)]])
    moreover have "total ?v < 2 ^ 64" using v assms(7) [of "Suc i"] by simp
    ultimately have "unat (serial b) = Suc (total u)" using serial_total [of ?v] by simp
    moreover have "serial_of c = serial b" using u(2) by (auto simp: Change_def Let_def)
    ultimately show ?thesis using v by (simp add: assms(4) word_le_nat_alt word_less_nat_alt ser)
  qed
  ultimately show ?thesis using assms(6) by (auto simp: broadcasts_ok_def)
qed

subsubsection \<open>What the rounds see\<close>

text \<open>What a round can go on with: a change newer than the last one is already there, or one is delivered before the deadline.\<close>

definition news :: "assertEnv \<Rightarrow> int \<Rightarrow> nat \<Rightarrow> change \<Rightarrow> change option" where
  "news ae expires i lastChange =
     (if serial_of lastChange < serial (roundCb ae i) then Some (LastChange (roundCb ae i))
      else case roundArrives ae i of
        None \<Rightarrow> None
      | Some (delay, c) \<Rightarrow> if roundClock ae i + delay < expires then Some c else None)"

text \<open>The last change that is known when round \<open>i\<close> starts, if every round before it had news.\<close>

primrec seen :: "assertEnv \<Rightarrow> int \<Rightarrow> nat \<Rightarrow> change option" where
  "seen ae expires 0 = Some (LastChange (startCb ae))"
| "seen ae expires (Suc i) = (case seen ae expires i of None \<Rightarrow> None | Some c \<Rightarrow> news ae expires i c)"

definition roundFails :: "assertEnv \<Rightarrow> Assertion list \<Rightarrow> nat \<Rightarrow> bool" where
  "roundFails ae assertions i \<longleftrightarrow> (case checkRound ae assertions i of Inl _ \<Rightarrow> False | Inr rep \<Rightarrow> \<not> replySuccess rep)"

lemma waitRound_news:
  assumes "broadcasts_ok ae"
  shows "waitRound ae i lastChange (until expires (roundClock ae i)) =
    (case news ae expires i lastChange of Some c \<Rightarrow> (c, True) | None \<Rightarrow> (Change_struct 0, False))"
proof (cases "serial_of lastChange < serial (roundCb ae i)")
  case False
  have "delay < until expires (roundClock ae i) \<longleftrightarrow> roundClock ae i + delay < expires"
    "roundClock ae i + delay < expires \<Longrightarrow> 0 < until expires (roundClock ae i)" if "roundArrives ae i = Some (delay, c)" for delay c
  proof -
    have "0 \<le> delay" "delay < 2 ^ 63 - 1" using assms that by (auto simp: broadcasts_ok_def)
    then show "delay < until expires (roundClock ae i) \<longleftrightarrow> roundClock ae i + delay < expires"
      "roundClock ae i + delay < expires \<Longrightarrow> 0 < until expires (roundClock ae i)" by (auto simp: until_def)
  qed
  then show ?thesis using False
    by (auto simp: waitRound_def WaitTimeout_def news_def split: option.splits)
qed (simp add: waitRound_def WaitTimeout_def news_def LastChange_def)

lemma news_newer:
  assumes "broadcasts_ok ae" "serial_of lastChange \<le> serial (roundCb ae i)" "news ae expires i lastChange = Some c"
  shows "serial_of lastChange < serial_of c" "serial_of c \<le> serial (roundCb ae (Suc i))"
  using assms by (auto simp: news_def LastChange_def broadcasts_ok_def split: if_splits option.splits intro: order.strict_trans1)

lemma assertLoop_round:
  assumes "broadcasts_ok ae"
  shows "assertLoop ae assertions timeout expires i c =
    (if roundFails ae assertions i \<and> timeout \<noteq> 0 then
       (case news ae expires i c of
          None \<Rightarrow> Some (checkRound ae assertions i)
        | Some c' \<Rightarrow> assertLoop ae assertions timeout expires (Suc i) c')
     else Some (checkRound ae assertions i))"
  by (subst assertLoop.simps) (auto simp: roundFails_def waitRound_news [OF assms] split: sum.splits option.splits)

lemma assertLoop_rounds:
  assumes "broadcasts_ok ae"
  shows "seen ae expires i = Some c \<Longrightarrow> serial_of c \<le> serial (roundCb ae i) \<Longrightarrow>
    \<exists>n \<ge> i. assertLoop ae assertions timeout expires i c = Some (checkRound ae assertions n) \<and>
      (\<forall>m. i \<le> m \<and> m < n \<longrightarrow> roundFails ae assertions m \<and> timeout \<noteq> 0 \<and> seen ae expires (Suc m) \<noteq> None) \<and>
      (\<not> roundFails ae assertions n \<or> timeout = 0 \<or> seen ae expires (Suc n) = None)"
proof (induction "2 ^ 64 - unat (serial_of c)" arbitrary: i c rule: less_induct)
  case less
  show ?case
  proof (cases "roundFails ae assertions i \<and> timeout \<noteq> 0 \<and> news ae expires i c \<noteq> None")
    case True
    then obtain c' where c': "news ae expires i c = Some c'" by blast
    note new = news_newer [OF assms less.prems(2) c']
    have "unat (serial_of c) < unat (serial_of c')" "unat (serial_of c') < 2 ^ 64"
      using new(1) unsigned_less [of "serial_of c'", where 'a = nat] by (simp_all add: word_less_nat_alt)
    then have "2 ^ 64 - unat (serial_of c') < 2 ^ 64 - unat (serial_of c)" by linarith
    moreover have s: "seen ae expires (Suc i) = Some c'" using less.prems(1) c' by simp
    ultimately obtain n where n: "n \<ge> Suc i" "assertLoop ae assertions timeout expires (Suc i) c' = Some (checkRound ae assertions n)"
      "\<forall>m. Suc i \<le> m \<and> m < n \<longrightarrow> roundFails ae assertions m \<and> timeout \<noteq> 0 \<and> seen ae expires (Suc m) \<noteq> None"
      "\<not> roundFails ae assertions n \<or> timeout = 0 \<or> seen ae expires (Suc n) = None"
      using less.hyps [of c' "Suc i"] new(2) by blast
    have "roundFails ae assertions m \<and> timeout \<noteq> 0 \<and> seen ae expires (Suc m) \<noteq> None" if "i \<le> m" "m < n" for m
      using n(3) True s that by (cases "m = i") (simp_all del: seen.simps)
    moreover have "assertLoop ae assertions timeout expires i c = Some (checkRound ae assertions n)"
      using n(2) True c' by (simp add: assertLoop_round [OF assms, of assertions timeout expires i])
    ultimately show ?thesis using n(1,4) Suc_leD [OF n(1)] by blast
  next
    case False
    then have "assertLoop ae assertions timeout expires i c = Some (checkRound ae assertions i)"
      by (auto simp: assertLoop_round [OF assms, of assertions timeout expires i] split: option.splits)
    moreover have "\<not> roundFails ae assertions i \<or> timeout = 0 \<or> seen ae expires (Suc i) = None" using False less.prems(1) by auto
    ultimately show ?thesis by (intro exI [of _ i]) auto
  qed
qed

text \<open>
  C14. The assertion handler always returns, and returns when it should, provided the serials the broadcaster shows it do not go
  back or wrap around: a body that cannot be decoded is answered 400; otherwise the answer is that of one round of the
  loop, every earlier round had a failing assertion and a timeout was asked for and, counted once from the start of the request and not again in
  each round, the deadline had not passed when a newer change came, unless one was already there; and the round answered has an error
  or no failing assertion, or there is no timeout, or no newer change was there or came before that deadline.
\<close>

theorem assert_returns:
  assumes "broadcasts_ok ae"
  shows "case decoded of
      Inl err \<Rightarrow> assert_ServeHTTP ae decoded w r = Some (badRequest w err)
    | Inr assertions \<Rightarrow> \<exists>timeout w1 n. parseTimeout ae r w = (timeout, w1) \<and>
        assert_ServeHTTP ae decoded w r = Some (assertRespond w1 (checkRound ae assertions n)) \<and>
        (\<forall>m < n. roundFails ae assertions m \<and> timeout \<noteq> 0 \<and> seen ae (startClock ae + timeoutDuration timeout) (Suc m) \<noteq> None) \<and>
        (\<not> roundFails ae assertions n \<or> timeout = 0 \<or> seen ae (startClock ae + timeoutDuration timeout) (Suc n) = None)"
proof (cases decoded)
  case (Inr assertions)
  obtain timeout w1 where p: "parseTimeout ae r w = (timeout, w1)" by fastforce
  let ?e = "startClock ae + timeoutDuration timeout"
  have "serial_of (LastChange (startCb ae)) \<le> serial (roundCb ae 0)" using assms by (simp add: broadcasts_ok_def LastChange_def)
  from assertLoop_rounds [OF assms seen.simps(1) this, of assertions timeout ?e] obtain n where
    n: "assertLoop ae assertions timeout ?e 0 (LastChange (startCb ae)) = Some (checkRound ae assertions n)"
      "\<forall>m < n. roundFails ae assertions m \<and> timeout \<noteq> 0 \<and> seen ae ?e (Suc m) \<noteq> None"
      "\<not> roundFails ae assertions n \<or> timeout = 0 \<or> seen ae ?e (Suc n) = None" by blast
  have "assert_ServeHTTP ae decoded w r = Some (assertRespond w1 (checkRound ae assertions n))"
    by (simp add: assert_ServeHTTP_def Inr p n(1))
  then show ?thesis using p n(2,3) Inr by (simp del: seen.simps) blast
qed (simp add: assert_ServeHTTP_def)

subsection \<open>The reply\<close>

definition assertion_holds :: "json \<Rightarrow> Assertion \<Rightarrow> bool" where
  "assertion_holds result a \<longleftrightarrow> (if assertType a = ''contains'' then jsonContains result (assertTest a)
     else \<not> jsonContains result (assertTest a))"

lemma checkAssertions_failures:
  "checkAssertions result as fs = Inr out \<Longrightarrow> out = fs @ filter (\<lambda>a. \<not> assertion_holds result a) as \<and>
     (\<forall>a \<in> set as. assertType a = ''contains'' \<or> assertType a = ''not-contains'')"
proof (induction as arbitrary: fs)
  case (Cons a as)
  have t: "assertType a = ''contains'' \<or> assertType a = ''not-contains''"
    using Cons.prems by (auto simp: AssertionContains_def AssertionNotContains_def split: if_splits)
  then have "checkAssertions result as (if assertion_holds result a then fs else fs @ [a]) = Inr out"
    using Cons.prems by (auto simp: AssertionContains_def AssertionNotContains_def assertion_holds_def split: if_splits)
  from Cons.IH [OF this] show ?case using t by auto
qed simp

text \<open>An answer to the query without conditions: all tagged images and all tagged lists that have entries.\<close>

definition wholeIndex :: "tables \<Rightarrow> Repository list \<Rightarrow> bool" where
  "wholeIndex db repos \<longleftrightarrow> answers (\<lambda>_. True) db repos"

lemma checkRound_reply:
  assumes "checkRound ae assertions i = Inr reply" "env_ok (webDb (roundEnv ae i))" "tables_wf (roundDb ae i)"
  shows "wholeIndex (roundDb ae i) (replyResults reply)"
    "replyFailures reply = filter (\<lambda>a. \<not> assertion_holds (genericValue (resultsJson (replyResults reply))) a) assertions"
    "replySuccess reply \<longleftrightarrow> (\<forall>a \<in> set assertions. assertion_holds (genericValue (resultsJson (replyResults reply))) a)"
proof -
  obtain repos s db' where q: "pdb_DoQuery (webDb (roundEnv ae i)) NewQuery (roundDb ae i) = (Inr repos, s, db')"
    using assms(1) by (auto simp: checkRound_def split: sum.splits prod.splits)
  then obtain out where c: "checkAssertions (genericValue (resultsJson repos)) assertions [] = Inr out"
    and r: "reply = \<lparr>replySuccess = (length out = 0), replyResults = repos, replyFailures = out\<rparr>"
    using assms(1) by (auto simp: checkRound_def split: sum.splits)
  have out: "out = filter (\<lambda>a. \<not> assertion_holds (genericValue (resultsJson repos)) a) assertions"
    using checkAssertions_failures [OF c] by simp
  show "replyFailures reply = filter (\<lambda>a. \<not> assertion_holds (genericValue (resultsJson (replyResults reply))) a) assertions"
    "replySuccess reply \<longleftrightarrow> (\<forall>a \<in> set assertions. assertion_holds (genericValue (resultsJson (replyResults reply))) a)"
    by (simp_all add: r out filter_empty_conv)
  from pdb_DoQuery_runs [OF q] obtain s1 where run: "runs (DoQuery (webDb (roundEnv ae i)) ptx0 NewQuery) (newTx (roundDb ae i)) repos s1" .
  have w: "work (newTx (roundDb ae i)) = roundDb ae i" "tables_wf (work (newTx (roundDb ae i)))"
    using assms(3) by (simp_all add: newTx_def)
  have "query_text_ok NewQuery" by (simp add: query_text_ok_def map_terms_ok_def)
  note res = runs_answers [OF w(2) assms(2) query_wf_New this run, unfolded w(1)]
  have all: "query_matches NewQuery = (\<lambda>_. True)"
    by (simp add: fun_eq_iff query_matches_def terms_hold_def map_terms_hold_def)
  show "wholeIndex (roundDb ae i) (replyResults reply)"
    using res unfolding wholeIndex_def r by (simp add: all)
qed

lemma assertLoop_reply:
  "assertLoop ae assertions timeout expires i lastChange = Some y \<Longrightarrow> y = Inr reply \<Longrightarrow>
    \<exists>n \<ge> i. checkRound ae assertions n = Inr reply \<and>
      (\<forall>m. i \<le> m \<and> m < n \<longrightarrow> (\<exists>rep. checkRound ae assertions m = Inr rep \<and> \<not> replySuccess rep))"
proof (induction rule: assertLoop.raw_induct [rotated, consumes 1, case_names step])
  case (step f ae assertions timeout expires i lastChange y)
  obtain rep where rep: "checkRound ae assertions i = Inr rep" using step(2,3) by (cases "checkRound ae assertions i") auto
  show ?case
  proof (cases "rep = reply")
    case True
    then show ?thesis using rep by (intro exI [of _ i]) auto
  next
    case False
    then obtain c where f: "f ae assertions timeout expires (Suc i) c = Some y" "\<not> replySuccess rep"
      using step(2,3) rep by (auto simp: Let_def split: if_splits prod.splits)
    from step(1) [OF f(1) step(3)] obtain n where n: "n \<ge> Suc i" "checkRound ae assertions n = Inr reply"
      "\<forall>m. Suc i \<le> m \<and> m < n \<longrightarrow> (\<exists>rep. checkRound ae assertions m = Inr rep \<and> \<not> replySuccess rep)" by blast
    have "\<exists>rep. checkRound ae assertions m = Inr rep \<and> \<not> replySuccess rep" if "i \<le> m" "m < n" for m
      using n(3) rep f(2) that by (cases "m = i") auto
    then show ?thesis using n(1,2) by (intro exI [of _ n]) auto
  qed
qed

lemma parseTimeout_body:
  "parseTimeout ae r w = (t, w1) \<Longrightarrow> w1 = w \<or> (\<exists>txt. respBody w1 = respBody w @ [TextBody txt])"
  by (auto simp: parseTimeout_def badRequest_def writeBody_def writeHeader_def setHeader_def Let_def
      split: if_splits prod.splits option.splits)

text \<open>
  C9. The reply tells the truth about the index: when the handler answers with JSON alone, there is a round whose whole index, all
  tagged images and all tagged lists with their images, is the answer's results, the failures are exactly the assertions that do not hold of them, in order, success and
  the status 200 mean that all of them hold, and in every earlier round some assertion failed.
\<close>

theorem assert_reply_correct:
  assumes "assert_ServeHTTP ae (Inr assertions) newResponse r = Some w" "respBody w = [JsonBody j]"
    and "\<And>i. env_ok (webDb (roundEnv ae i))" "\<And>i. tables_wf (roundDb ae i)"
  shows "\<exists>n reply. j = replyJson reply \<and> wholeIndex (roundDb ae n) (replyResults reply) \<and>
    replyFailures reply = filter (\<lambda>a. \<not> assertion_holds (genericValue (resultsJson (replyResults reply))) a) assertions \<and>
    replySuccess reply = (\<forall>a \<in> set assertions. assertion_holds (genericValue (resultsJson (replyResults reply))) a) \<and>
    respStatus w = Some (if replySuccess reply then 200 else 400) \<and>
    (\<forall>m < n. \<exists>rep. checkRound ae assertions m = Inr rep \<and> \<not> replySuccess rep)"
proof -
  obtain timeout w1 where p: "parseTimeout ae r newResponse = (timeout, w1)" by fastforce
  let ?e = "startClock ae + timeoutDuration timeout"
  obtain y where y: "assertLoop ae assertions timeout ?e 0 (LastChange (startCb ae)) = Some y"
    using assms(1) p by (cases "assertLoop ae assertions timeout ?e 0 (LastChange (startCb ae))") (auto simp: assert_ServeHTTP_def Let_def)
  obtain reply where reply: "y = Inr reply"
    using assms(1,2) p y by (cases y) (auto simp: assert_ServeHTTP_def assertRespond_def Let_def internalError_def badRequest_def writeBody_def
        split: httpFailure.splits)
  have w: "w = writeBody (JsonBody (replyJson reply)) (let w = setHeader ''Content-Type'' ''application/json'' w1
      in if replySuccess reply then writeHeader 200 w else writeHeader 400 w)"
    using assms(1) p y reply by (simp add: assert_ServeHTTP_def assertRespond_def Let_def)
  have w1: "w1 = newResponse" "j = replyJson reply"
    using parseTimeout_body [OF p] assms(2)
    by (auto simp: w writeBody_def writeHeader_def setHeader_def newResponse_def Let_def split: if_splits)
  have st: "respStatus w = Some (if replySuccess reply then 200 else 400)"
    by (simp add: w w1 writeBody_def writeHeader_def setHeader_def newResponse_def Let_def)
  from assertLoop_reply [OF y reply] obtain n where n: "checkRound ae assertions n = Inr reply"
    "\<forall>m. 0 \<le> m \<and> m < n \<longrightarrow> (\<exists>rep. checkRound ae assertions m = Inr rep \<and> \<not> replySuccess rep)" by blast
  show ?thesis using checkRound_reply [OF n(1) assms(3,4)] w1(2) st n(2) by blast
qed

definition demoAssert :: assertEnv where
  "demoAssert = \<lparr>startClock = 0, startCb = NewChangeBroadcaster, roundEnv = (\<lambda>_. plainEnv),
     roundDb = (\<lambda>i. if i = 0 then emptyTables else oneImage), roundClock = int,
     roundCb = (\<lambda>i. NewChangeBroadcaster\<lparr>serial := (if i = 0 then 0 else 1)\<rparr>),
     roundArrives = (\<lambda>i. if i = 0 then Some (7, Change_struct 1) else None), numErrorText = (\<lambda>_ _. '''')\<rparr>"

definition demoAssertRequest :: request where
  "demoAssertRequest = \<lparr>reqMethod = ''POST'', reqHeader = [], reqForm = [], reqURLQuery = [(''timeout'', [''5''])]\<rparr>"

definition demoAssertions :: "Assertion list" where
  "demoAssertions = [\<lparr>assertType = ''contains'', assertTest = JArr [JObj [(''Name'', JStr ''app'')]]\<rparr>]"

definition roundSucceeds :: "assertEnv \<Rightarrow> Assertion list \<Rightarrow> nat \<Rightarrow> bool option" where
  "roundSucceeds ae assertions i = (case checkRound ae assertions i of Inl _ \<Rightarrow> None | Inr rep \<Rightarrow> Some (replySuccess rep))"

lemma roundSucceeds_reply: "roundSucceeds ae assertions i = Some b \<Longrightarrow> \<exists>rep. checkRound ae assertions i = Inr rep \<and> replySuccess rep = b"
  by (auto simp: roundSucceeds_def split: sum.splits)

lemma demoAssert_rounds:
  "roundSucceeds demoAssert demoAssertions 0 = Some False" "roundSucceeds demoAssert demoAssertions 1 = Some True"
  by code_simp+

lemma demoAssert_timeout:
  "parseTimeout demoAssert demoAssertRequest newResponse = (5, newResponse)" "startClock demoAssert + timeoutDuration 5 = 5000000000"
proof -
  have "Atoi ''5'' = (5, None)" by (simp add: Atoi_def within_def)
  then show "parseTimeout demoAssert demoAssertRequest newResponse = (5, newResponse)"
    by (simp add: parseTimeout_def demoAssertRequest_def urlGet_def gget0_def)
  show "startClock demoAssert + timeoutDuration 5 = 5000000000" by (simp add: timeoutDuration_def demoAssert_def)
qed

theorem assert_returns_witness:
  "broadcasts_ok demoAssert \<and>
   (\<exists>w. assert_ServeHTTP demoAssert (Inr demoAssertions) newResponse demoAssertRequest =
      Some (assertRespond w (checkRound demoAssert demoAssertions 1)))"
proof -
  have b: "broadcasts_ok demoAssert"
    by (simp add: broadcasts_ok_def demoAssert_def NewChangeBroadcaster_def)
  from assert_returns [OF b, of "Inr demoAssertions" newResponse demoAssertRequest] demoAssert_timeout obtain w1 n where
    n: "assert_ServeHTTP demoAssert (Inr demoAssertions) newResponse demoAssertRequest =
        Some (assertRespond w1 (checkRound demoAssert demoAssertions n))"
      "\<forall>m < n. roundFails demoAssert demoAssertions m"
      "\<not> roundFails demoAssert demoAssertions n \<or> seen demoAssert 5000000000 (Suc n) = None" by (auto simp del: seen.simps)
  have f: "roundFails demoAssert demoAssertions 0" "\<not> roundFails demoAssert demoAssertions 1"
    using demoAssert_rounds [THEN roundSucceeds_reply] by (auto simp: roundFails_def)
  have "seen demoAssert 5000000000 (Suc 0) \<noteq> None"
    by (simp add: news_def demoAssert_def LastChange_def NewChangeBroadcaster_def)
  then have "n \<noteq> 0" using n(3) f(1) by metis
  moreover have "\<not> 1 < n" using n(2) f(2) by blast
  ultimately have "n = 1" by simp
  then show ?thesis using b n(1) by blast
qed

lemma demoAssert_loop:
  "\<exists>reply. assertLoop demoAssert demoAssertions 5 5000000000 0 (Change_struct 0) = Some (Inr reply) \<and> replySuccess reply"
proof -
  obtain rep reply where r: "checkRound demoAssert demoAssertions 0 = Inr rep" "\<not> replySuccess rep"
    "checkRound demoAssert demoAssertions (Suc 0) = Inr reply" "replySuccess reply"
    using demoAssert_rounds [THEN roundSucceeds_reply] by auto
  have w: "waitRound demoAssert 0 (Change_struct 0) d = (Change_struct 1, True)" if "7 < d" for d
    using that by (simp add: waitRound_def WaitTimeout_def demoAssert_def NewChangeBroadcaster_def)
  have "7 < until 5000000000 (roundClock demoAssert 0)" by (simp add: until_def demoAssert_def)
  note w = w [OF this]
  have "assertLoop demoAssert demoAssertions 5 5000000000 (Suc 0) (Change_struct 1) = Some (Inr reply)"
    by (subst assertLoop.simps) (simp add: r)
  then show ?thesis using r by (subst assertLoop.simps) (simp add: w)
qed

theorem assert_reply_correct_witness:
  "\<exists>n reply. wholeIndex (roundDb demoAssert n) (replyResults reply) \<and>
     assert_ServeHTTP demoAssert (Inr demoAssertions) newResponse demoAssertRequest =
       Some \<lparr>respHeader = [(''Content-Type'', ''application/json'')], respStatus = Some 200, respBody = [JsonBody (replyJson reply)]\<rparr>"
proof -
  obtain rep where l: "assertLoop demoAssert demoAssertions 5 5000000000 0 (Change_struct 0) = Some (Inr rep)" "replySuccess rep"
    using demoAssert_loop by blast
  have "LastChange (startCb demoAssert) = Change_struct 0"
    by (simp add: demoAssert_def LastChange_def NewChangeBroadcaster_def)
  then have e: "assert_ServeHTTP demoAssert (Inr demoAssertions) newResponse demoAssertRequest =
      Some \<lparr>respHeader = [(''Content-Type'', ''application/json'')], respStatus = Some 200, respBody = [JsonBody (replyJson rep)]\<rparr>"
    using l demoAssert_timeout by (simp add: assert_ServeHTTP_def assertRespond_def newResponse_def setHeader_def writeHeader_def writeBody_def)
  have wf: "tables_wf (roundDb demoAssert i)" "env_ok (webDb (roundEnv demoAssert i))" for i
    using oneImage_wf emptyTables_wf okEnv_ok by (simp_all add: demoAssert_def plainEnv_def)
  from assert_reply_correct [OF e _ wf(2,1), of "replyJson rep"] show ?thesis using e by auto
qed

text \<open>A timeout that cannot be parsed does not end the request: the error is written with status 400, then the assertions are
  checked with the value that \<^verbatim>\<open>Atoi\<close> returned, and the reply follows the error in the same body.\<close>

lemma assert_bad_timeout:
  assumes "urlGet (reqURLQuery r) ''timeout'' = s" "s \<noteq> ''''" "Atoi s = (t, Some err)"
    and "assertLoop ae assertions t (startClock ae + timeoutDuration t) 0 (LastChange (startCb ae)) = Some (Inr reply)"
  shows "assert_ServeHTTP ae (Inr assertions) newResponse r =
    Some \<lparr>respHeader = [(''Content-Type'', ''text/plain'')], respStatus = Some 400,
      respBody = [TextBody (''Error: Cannot parse timeout: '' @ numErrorText ae s err @ [CHR 0x0A]), JsonBody (replyJson reply)]\<rparr>"
  using assms by (simp add: assert_ServeHTTP_def assertRespond_def parseTimeout_def badRequest_def newResponse_def setHeader_def writeHeader_def
      writeBody_def Let_def)

text \<open>\<^verbatim>\<open>Atoi\<close> reads back what is printed, for every 64-bit integer.\<close>

lemma parseDigits_itoa: "\<exists>k. \<forall>acc s. acc * 10 ^ k + n < 2 ^ 64 \<longrightarrow> parseDigits (itoa n @ s) acc = parseDigits s (acc * 10 ^ k + n)"
proof (induction n rule: itoa.induct)
  case (1 n)
  have d: "m < 10 \<Longrightarrow> within 48 57 (digit m) \<and> byte (digit m) - 48 = m" for m by (simp add: digit_def within_def)
  show ?case
  proof (cases "n < 10")
    case True
    then have "acc * 10 ^ 1 + n < 2 ^ 64 \<longrightarrow> parseDigits (itoa n @ s) acc = parseDigits s (acc * 10 ^ 1 + n)" for acc s
      using d [of n] by (simp add: itoa.simps [of n] Let_def)
    then show ?thesis by blast
  next
    case False
    from "1.IH" [OF False] obtain k where
      k: "\<And>acc s. acc * 10 ^ k + n div 10 < 2 ^ 64 \<Longrightarrow> parseDigits (itoa (n div 10) @ s) acc = parseDigits s (acc * 10 ^ k + n div 10)" by blast
    have "parseDigits (itoa n @ s) acc = parseDigits s (acc * 10 ^ Suc k + n)" if "acc * 10 ^ Suc k + n < 2 ^ 64" for acc s
    proof -
      have e: "(acc * 10 ^ k + n div 10) * 10 + n mod 10 = acc * 10 ^ Suc k + n" by (simp add: algebra_simps)
      define x where "x = acc * 10 ^ k + n div 10"
      have "x * 10 + n mod 10 < 2 ^ 64" using that e by (simp add: x_def)
      then have "x < 2 ^ 64" by linarith
      then have "acc * 10 ^ k + n div 10 < 2 ^ 64" by (simp add: x_def)
      from k [OF this, of "digit (n mod 10) # s"] show ?thesis
        using False d [of "n mod 10"] that e by (simp add: itoa.simps [of n] Let_def ac_simps)
    qed
    then show ?thesis by blast
  qed
qed

lemma Atoi_formatInt:
  assumes "- (2 ^ 63) \<le> i" "i < 2 ^ 63"
  shows "Atoi (formatInt i) = (i, None)"
proof -
  have p: "parseDigits (itoa n) 0 = Inr n" if "n < 2 ^ 64" for n
    using parseDigits_itoa [of n] that by (metis add_0 append_Nil2 mult_0 parseDigits.simps(1))
  have h: "take 1 (itoa n) \<noteq> ''-''" "take 1 (itoa n) \<noteq> ''+''" for n
  proof -
    have "hd (itoa n) \<in> set (itoa n)" by simp
    then have "is_digit (hd (itoa n))" by (rule itoa_digits)
    moreover have "take 1 (itoa n) = [hd (itoa n)]" by (cases "itoa n") auto
    moreover have "\<not> is_digit CHR ''-''" "\<not> is_digit CHR ''+''" by code_simp+
    ultimately show "take 1 (itoa n) \<noteq> ''-''" "take 1 (itoa n) \<noteq> ''+''" by auto
  qed
  show ?thesis
  proof (cases "i < 0")
    case True
    have "nat (- i) < 2 ^ 64" "\<not> 2 ^ 63 < nat (- i)" using assms True by (simp_all add: nat_less_iff)
    then show ?thesis using True p [of "nat (- i)"] by (simp add: Atoi_def formatInt_def)
  next
    case False
    have "nat i < 2 ^ 64" "\<not> 2 ^ 63 \<le> nat i" using assms False by (simp_all add: nat_less_iff le_nat_iff)
    then show ?thesis using False p [of "nat i"] h [of "nat i"] by (simp add: Atoi_def formatInt_def)
  qed
qed

end
